(* ===== verification/Go_Prelude.thy ===== *)
theory Go_Prelude
  imports Main "HOL-Library.Word" "HOL-Library.Monad_Syntax"
begin

text \<open>
  What the components share: Go's machine integers, its error values, byte buffers, the parts of
  the standard library the sources call (\<open>encoding/binary\<close>, \<open>io\<close>, \<open>slices\<close>, \<open>sort\<close>), and
  generic lemmas on lists and least elements.

  Conventions of the whole development:
  \<^item> \<open>uint64\<close> values are \<^typ>\<open>nat\<close>, wrapped by \<open>u64\<close> where the code adds; \<open>int64\<close> and \<open>int\<close>
    values are \<^typ>\<open>int\<close>, wrapped by \<open>s64\<close>.
  \<^item> a function that can panic returns an option: \<^const>\<open>None\<close> is the panic (or, for a loop that
    need not end, that it does not return); a Go \<open>error\<close> result is a \<open>go_error option\<close>, with
    \<^const>\<open>None\<close> for \<open>nil\<close>.
  \<^item> a buffer argument \<open>b []byte\<close> that the callee fills is passed in and returned.
\<close>

unbundle bit_operations_syntax

named_theorems bound_simps
  \<open>wrap-around that does not happen under the stated bounds\<close>

section \<open>Integers\<close>

type_synonym byte = "8 word"
type_synonym bytes = "8 word list"

definition u64 :: "nat \<Rightarrow> nat" where
  "u64 n = n mod 2 ^ 64"

definition s64 :: "int \<Rightarrow> int" where
  "s64 x = (x + 2 ^ 63) mod 2 ^ 64 - 2 ^ 63"

definition uint64 :: "int \<Rightarrow> nat" where
  "uint64 x = nat (x mod 2 ^ 64)"

definition uint32 :: "int \<Rightarrow> nat" where
  "uint32 x = nat (x mod 2 ^ 32)"

definition int64 :: "nat \<Rightarrow> int" where
  "int64 n = s64 (int n)"

text \<open>Go's integer division truncates; the divisors here are never zero unless checked.\<close>

definition go_div :: "int \<Rightarrow> int \<Rightarrow> int" where
  "go_div a b = sgn a * sgn b * (\<bar>a\<bar> div \<bar>b\<bar>)"

definition go_mod :: "int \<Rightarrow> int \<Rightarrow> int" where
  "go_mod a b = a - b * go_div a b"

lemma u64_id [bound_simps]: "n < 2 ^ 64 \<Longrightarrow> u64 n = n"
  by (simp add: u64_def)

lemma u64_less: "u64 n < 2 ^ 64"
  by (simp add: u64_def)

lemma s64_id [bound_simps]: "- (2 ^ 63) \<le> x \<Longrightarrow> x < 2 ^ 63 \<Longrightarrow> s64 x = x"
  by (simp add: s64_def)

lemma s64_range: "- (2 ^ 63) \<le> s64 x" "s64 x < 2 ^ 63"
  using pos_mod_sign [of "2 ^ 64" "x + 2 ^ 63"] pos_mod_bound [of "2 ^ 64" "x + 2 ^ 63"]
  by (simp_all add: s64_def)

lemma uint64_id [bound_simps]: "0 \<le> x \<Longrightarrow> x < 2 ^ 64 \<Longrightarrow> uint64 x = nat x"
  by (simp add: uint64_def)

lemma int64_id [bound_simps]: "n < 2 ^ 63 \<Longrightarrow> int64 n = int n"
proof -
  assume "n < 2 ^ 63"
  then have "int n < 2 ^ 63" by (simp add: nat_less_iff)
  then show ?thesis by (simp add: int64_def s64_id)
qed

lemma go_div_nonneg [bound_simps]: "0 \<le> a \<Longrightarrow> 0 < b \<Longrightarrow> go_div a b = a div b"
  by (cases "a = 0") (auto simp: go_div_def sgn_if)

lemma go_mod_nonneg [bound_simps]: "0 \<le> a \<Longrightarrow> 0 < b \<Longrightarrow> go_mod a b = a mod b"
  by (simp add: go_mod_def go_div_nonneg minus_mult_div_eq_mod)

lemma Least_first:
  fixes P :: "nat \<Rightarrow> bool"
  assumes "P j" and "n = Least P"
  shows "P n \<and> (\<forall>k<n. \<not> P k)"
  using assms LeastI [of P j] not_less_Least [of _ P] by blast

lemma Least_from:
  fixes P :: "nat \<Rightarrow> bool"
  assumes "k \<le> e" "P e" "\<And>j. k \<le> j \<Longrightarrow> j < e \<Longrightarrow> \<not> P j"
  shows "(LEAST j. k \<le> j \<and> P j) = e"
  using assms by (intro Least_equality) (auto simp: not_less [symmetric])

lemma option_eqI: "(\<And>v. a = Some v \<longleftrightarrow> b = Some v) \<Longrightarrow> a = b"
  by (cases a; cases b) fastforce+

section \<open>Error values\<close>

text \<open>The sentinel errors of the sources; \<open>Err\<close> stands for the ones built by \<open>errors.New\<close> or
  \<open>fmt.Errorf\<close> at the place they are returned, and for those of the operating system.\<close>

datatype go_error =
    EOF
  | ErrUnexpectedEOF
  | ErrBufferFull
  | ErrNoProgress
  | ErrOverflow
  | ErrNotExist
  | ErrExist
  | ErrCorruptedLog
  | errInvalidIndex
  | ErrWriteTooBig
  | ErrWriterClosed
  | ErrWriteNotSupported
  | ErrNoWriter
  | ErrShortRead
  | ErrShortWrite
  | ErrInvalidMagic
  | ErrInvalidSizeString
  | ErrInvalidNbdPath
  | Err string

end
