(* ===== verification/Reader_Interfaces.thy ===== *)
theory Reader_Interfaces
  imports Go_Prelude
begin

text \<open>
  \<open>internal/t/t.go\<close>: the reader interfaces. An interface value is the record of its methods. A
  method takes the buffer it may fill and returns it filled; \<open>None\<close> is a panic. The two locales
  are the contracts the clients rely on, over the content a reader stands for: bytes by offset for
  \<open>HoleReaderAt\<close>, blocks by index for \<open>BlockHoleReader\<close>. A reader is taken at one moment, so its
  methods are functions of their arguments.
\<close>

record HoleReaderAt =
  ReadAt :: "bytes \<Rightarrow> int \<Rightarrow> (bytes \<times> int \<times> go_error option) option"
  NextData :: "int \<Rightarrow> (int \<times> go_error option) option"
  NextHole :: "int \<Rightarrow> (int \<times> go_error option) option"

record BlockHoleReader =
  ReadBlocks :: "bytes \<Rightarrow> int \<Rightarrow> (bytes \<times> int \<times> go_error option) option"
  NextBlockData :: "int \<Rightarrow> (int \<times> go_error option) option"
  NextBlockHole :: "int \<Rightarrow> (int \<times> go_error option) option"

text \<open>The largest offset an \<open>int64\<close> holds.\<close>

abbreviation max_off :: nat where
  "max_off \<equiv> 2 ^ 63 - 1"

lemma le_mult_pos: "0 < bs \<Longrightarrow> j \<le> j * (bs :: nat)"
  by (cases bs) auto

section \<open>Scanning and reading a content\<close>

definition next_data :: "(nat \<rightharpoonup> 'a) \<Rightarrow> nat \<Rightarrow> nat option" where
  "next_data c k = (if \<exists>j\<ge>k. c j \<noteq> None then Some (LEAST j. k \<le> j \<and> c j \<noteq> None) else None)"

definition next_hole :: "(nat \<rightharpoonup> 'a) \<Rightarrow> nat \<Rightarrow> nat" where
  "next_hole c k = (LEAST j. k \<le> j \<and> c j = None)"

definition all_data :: "(nat \<rightharpoonup> 'a) \<Rightarrow> nat \<Rightarrow> nat \<Rightarrow> bool" where
  "all_data c k n \<longleftrightarrow> (\<forall>i<n. c (k + i) \<noteq> None)"

definition read_data :: "(nat \<rightharpoonup> 'a) \<Rightarrow> nat \<Rightarrow> nat \<Rightarrow> 'a list" where
  "read_data c k n = map (\<lambda>i. the (c (k + i))) [0..<n]"

lemma next_data_Some: "next_data c k = Some j \<longleftrightarrow> k \<le> j \<and> c j \<noteq> None \<and> (\<forall>i. k \<le> i \<longrightarrow> i < j \<longrightarrow> c i = None)"
proof
  assume n: "next_data c k = Some j"
  then obtain i where i: "k \<le> i \<and> c i \<noteq> None" and j: "j = (LEAST j. k \<le> j \<and> c j \<noteq> None)"
    by (auto simp: next_data_def split: if_splits)
  from Least_first [of "\<lambda>j. k \<le> j \<and> c j \<noteq> None", OF i j]
  show "k \<le> j \<and> c j \<noteq> None \<and> (\<forall>i. k \<le> i \<longrightarrow> i < j \<longrightarrow> c i = None)" by blast
next
  assume j: "k \<le> j \<and> c j \<noteq> None \<and> (\<forall>i. k \<le> i \<longrightarrow> i < j \<longrightarrow> c i = None)"
  then have "(LEAST j. k \<le> j \<and> c j \<noteq> None) = j"
    by (intro Least_from [where P = "\<lambda>j. c j \<noteq> None"]) auto
  with j show "next_data c k = Some j" unfolding next_data_def by auto
qed

lemma next_data_None: "next_data c k = None \<longleftrightarrow> (\<forall>j\<ge>k. c j = None)"
  by (auto simp: next_data_def)

lemma next_hole_eq:
  assumes "\<forall>j. c j \<noteq> None \<longrightarrow> j < b"
  shows "next_hole c k = e \<longleftrightarrow> k \<le> e \<and> c e = None \<and> (\<forall>i. k \<le> i \<longrightarrow> i < e \<longrightarrow> c i \<noteq> None)"
proof
  assume e: "next_hole c k = e"
  have "k \<le> max k b \<and> c (max k b) = None" using assms [THEN spec, of "max k b"] by fastforce
  from Least_first [of "\<lambda>j. k \<le> j \<and> c j = None", OF this e [unfolded next_hole_def, symmetric]]
  show "k \<le> e \<and> c e = None \<and> (\<forall>i. k \<le> i \<longrightarrow> i < e \<longrightarrow> c i \<noteq> None)" by simp
next
  assume "k \<le> e \<and> c e = None \<and> (\<forall>i. k \<le> i \<longrightarrow> i < e \<longrightarrow> c i \<noteq> None)"
  then show "next_hole c k = e"
    unfolding next_hole_def by (intro Least_from [where P = "\<lambda>j. c j = None"]) auto
qed

lemma length_read_data [simp]: "length (read_data c k n) = n"
  by (simp add: read_data_def)

lemma nth_read_data: "i < n \<Longrightarrow> read_data c k n ! i = the (c (k + i))"
  by (simp add: read_data_def)

lemma read_data_append: "read_data c k (m + n) = read_data c k m @ read_data c (k + m) n"
  by (intro nth_equalityI) (auto simp: nth_append nth_read_data)

lemma all_data_append: "all_data c k (m + n) \<longleftrightarrow> all_data c k m \<and> all_data c (k + m) n"
proof
  assume "all_data c k (m + n)"
  then show "all_data c k m \<and> all_data c (k + m) n"
    by (fastforce simp: all_data_def add.assoc)
next
  assume a: "all_data c k m \<and> all_data c (k + m) n"
  have "c (k + i) \<noteq> None" if "i < m + n" for i
  proof (cases "i < m")
    case False
    with that have "i - m < n" by simp
    with a have "c (k + m + (i - m)) \<noteq> None" unfolding all_data_def by blast
    with False show ?thesis by simp
  qed (use a in \<open>simp add: all_data_def\<close>)
  then show "all_data c k (m + n)" by (simp add: all_data_def)
qed

lemma s64_nat: "n \<le> max_off \<Longrightarrow> s64 (int n) = int n"
  by (rule s64_id) simp_all

lemma s64_diff: "k \<le> n \<Longrightarrow> n \<le> max_off \<Longrightarrow> s64 (int n - int k) = int (n - k)"
proof -
  assume "k \<le> n" "n \<le> max_off"
  then have "n - k \<le> max_off" by linarith
  from s64_nat [OF this] \<open>k \<le> n\<close> show ?thesis by (simp only: of_nat_diff)
qed

lemma s64_add: "k + n \<le> max_off \<Longrightarrow> s64 (int k + int n) = int (k + n)"
  using s64_nat [of "k + n"] by (simp only: of_nat_add)

definition zero_filled :: "(nat \<rightharpoonup> byte) \<Rightarrow> nat \<Rightarrow> nat \<Rightarrow> bytes" where
  "zero_filled c k n = map (\<lambda>i. case c (k + i) of Some b \<Rightarrow> b | None \<Rightarrow> 0) [0..<n]"

lemma length_zero_filled [simp]: "length (zero_filled c k n) = n"
  by (simp add: zero_filled_def)

lemma zero_filled_append: "zero_filled c k (m + n) = zero_filled c k m @ zero_filled c (k + m) n"
  by (intro nth_equalityI) (auto simp: zero_filled_def nth_append add.assoc)

lemma zero_filled_data: "all_data c k n \<Longrightarrow> zero_filled c k n = read_data c k n"
  by (auto simp: zero_filled_def read_data_def all_data_def)

lemma zero_filled_none: "\<forall>i<n. c (k + i) = None \<Longrightarrow> zero_filled c k n = replicate n 0"
  by (intro nth_equalityI) (simp_all add: zero_filled_def)

text \<open>The end of a content.\<close>

definition ends_at :: "(nat \<rightharpoonup> 'a) \<Rightarrow> nat \<Rightarrow> bool" where
  "ends_at c e \<longleftrightarrow> (\<forall>k. c k \<noteq> None \<longrightarrow> k < e) \<and> (e = 0 \<or> c (e - 1) \<noteq> None)"

lemma ends_at_unique: "ends_at c a \<Longrightarrow> ends_at c b \<Longrightarrow> a = b"
proof (rule ccontr)
  assume e: "ends_at c a" "ends_at c b" "a \<noteq> b"
  have "False" if "ends_at c x" "ends_at c y" "x < y" for x y
  proof -
    have "c (y - 1) \<noteq> None" using that(2,3) by (auto simp: ends_at_def)
    then have "y - 1 < x" using that(1) by (auto simp: ends_at_def)
    with that(3) show False by linarith
  qed
  with e show False by (meson nat_neq_iff)
qed

section \<open>The contracts\<close>

locale hole_reader_at =
  fixes R :: HoleReaderAt and c :: "nat \<rightharpoonup> byte"
  assumes byte_bounded: "c k \<noteq> None \<Longrightarrow> k < max_off"
    and NextData_ok: "k \<le> max_off \<Longrightarrow> next_data c k = Some j \<Longrightarrow> NextData R (int k) = Some (int j, None)"
    and NextData_end: "k \<le> max_off \<Longrightarrow> next_data c k = None \<Longrightarrow> \<exists>e. NextData R (int k) = Some (e, Some EOF)"
    and NextHole_ok: "k \<le> max_off \<Longrightarrow> NextHole R (int k) = Some (int (next_hole c k), None)"
    and ReadAt_ok: "buf \<noteq> [] \<Longrightarrow> all_data c k (length buf) \<Longrightarrow>
      ReadAt R buf (int k) = Some (read_data c k (length buf), int (length buf), None)"

locale block_hole_reader =
  fixes bs :: nat and R :: BlockHoleReader and c :: "nat \<rightharpoonup> bytes"
  assumes bs_pos: "0 < bs"
    and block_len: "c i = Some b \<Longrightarrow> length b = bs"
    and block_bounded: "c i \<noteq> None \<Longrightarrow> Suc i * bs \<le> max_off"
    and NextBlockData_ok: "k * bs \<le> max_off \<Longrightarrow> next_data c k = Some j \<Longrightarrow>
      NextBlockData R (int k) = Some (int j, None)"
    and NextBlockData_end: "k * bs \<le> max_off \<Longrightarrow> next_data c k = None \<Longrightarrow>
      \<exists>e. NextBlockData R (int k) = Some (e, Some EOF)"
    and NextBlockHole_ok: "k * bs \<le> max_off \<Longrightarrow> NextBlockHole R (int k) = Some (int (next_hole c k), None)"
    and ReadBlocks_ok: "0 < n \<Longrightarrow> all_data c k n \<Longrightarrow> length buf = n * bs \<Longrightarrow>
      ReadBlocks R buf (int k) = Some (concat (read_data c k n), int n, None)"
begin

lemma block_index: "c i \<noteq> None \<Longrightarrow> i < max_off"
proof -
  assume "c i \<noteq> None"
  from block_bounded [OF this] have "Suc i * bs \<le> max_off" .
  moreover have "Suc i * 1 \<le> Suc i * bs" using bs_pos by (intro mult_le_mono2) simp
  ultimately have "Suc i * 1 \<le> max_off" by (rule order_trans [rotated])
  then show ?thesis by simp
qed

lemma hole_eq: "next_hole c k = e \<longleftrightarrow> k \<le> e \<and> c e = None \<and> (\<forall>i. k \<le> i \<longrightarrow> i < e \<longrightarrow> c i \<noteq> None)"
  by (rule next_hole_eq [of c max_off]) (use block_index in blast)

lemma hole_bound: "k * bs \<le> max_off \<Longrightarrow> next_hole c k * bs \<le> max_off"
proof (cases "next_hole c k = k")
  case False
  have e: "k \<le> next_hole c k" "\<forall>i. k \<le> i \<longrightarrow> i < next_hole c k \<longrightarrow> c i \<noteq> None"
    using hole_eq [of k "next_hole c k"] by auto
  with False have "c (next_hole c k - 1) \<noteq> None" by simp
  from block_bounded [OF this] False e(1) show ?thesis by simp
qed simp

lemma length_blocks: "all_data c k n \<Longrightarrow> length (concat (read_data c k n)) = n * bs"
  by (induction n) (fastforce simp: read_data_def all_data_def dest: block_len)+

end

section \<open>A reader over bytes in memory\<close>

text \<open>The contract of \<open>HoleReaderAt\<close> can be met: a byte string, without holes up to its end.\<close>

definition mem_content :: "'a list \<Rightarrow> nat \<rightharpoonup> 'a" where
  "mem_content xs k = (if k < length xs then Some (xs ! k) else None)"

definition mem_reader :: "bytes \<Rightarrow> HoleReaderAt" where
  "mem_reader xs = \<lparr>
     ReadAt = (\<lambda>buf off. if off < 0 then None
       else let d = take (length buf) (drop (nat off) xs)
            in Some (d @ drop (length d) buf, int (length d), if length d < length buf then Some EOF else None)),
     NextData = (\<lambda>off. Some (if off < int (length xs) then (off, None) else (0, Some EOF))),
     NextHole = (\<lambda>off. Some (if off < int (length xs) then int (length xs) else off, None))\<rparr>"

lemma mem_reader_ok:
  assumes "length xs \<le> max_off"
  shows "hole_reader_at (mem_reader xs) (mem_content xs)"
proof
  fix k assume "mem_content xs k \<noteq> None"
  then show "k < max_off" using assms by (auto simp: mem_content_def split: if_splits)
next
  fix k j assume "next_data (mem_content xs) k = Some j"
  then have j: "k \<le> j" "j < length xs" "k < j \<Longrightarrow> mem_content xs k = None"
    unfolding next_data_Some by (auto simp: mem_content_def split: if_splits)
  then have "j = k" by (cases "k < j") (auto simp: mem_content_def)
  with j(2) show "NextData (mem_reader xs) (int k) = Some (int j, None)"
    by (simp add: mem_reader_def)
next
  fix k assume "next_data (mem_content xs) k = None"
  then show "\<exists>e. NextData (mem_reader xs) (int k) = Some (e, Some EOF)"
    unfolding next_data_None by (auto simp: mem_content_def mem_reader_def split: if_splits)
next
  fix k
  have bd: "\<forall>j. mem_content xs j \<noteq> None \<longrightarrow> j < length xs" by (simp add: mem_content_def)
  have "next_hole (mem_content xs) k = max k (length xs)"
    unfolding next_hole_eq [OF bd] by (auto simp: mem_content_def max_def)
  then show "NextHole (mem_reader xs) (int k) = Some (int (next_hole (mem_content xs) k), None)"
    by (simp add: mem_reader_def max_def)
next
  fix buf :: bytes and k assume "all_data (mem_content xs) k (length buf)" and ne: "buf \<noteq> []"
  then have all: "\<And>i. i < length buf \<Longrightarrow> k + i < length xs"
    by (auto simp: all_data_def mem_content_def split: if_splits)
  have len: "k + length buf \<le> length xs" using all [of "length buf - 1"] ne by (cases buf) auto
  have "take (length buf) (drop k xs) = read_data (mem_content xs) k (length buf)"
    using len by (intro nth_equalityI) (auto simp: nth_read_data mem_content_def)
  with len show "ReadAt (mem_reader xs) buf (int k) =
      Some (read_data (mem_content xs) k (length buf), int (length buf), None)"
    by (simp add: mem_reader_def)
qed

end
