(* ===== verification/Go_IO.thy ===== *)
theory Go_IO
  imports Reader_Interfaces
begin

text \<open>
  The parts of Go's standard library the file formats are built on: \<open>encoding/binary\<close> little-endian
  integers, \<open>io.Writer\<close>, \<open>io.Reader\<close>, \<open>io.ReaderAt\<close>, \<open>io.LimitedReader\<close>, \<open>io.SectionReader\<close>,
  \<open>bufio.Writer\<close> and \<open>sort.Search\<close>. The interfaces are locales with the documented laws; the
  structs of the library are translated. Writers and readers are values of a state type, and every
  call returns the new state.
\<close>

section \<open>Little-endian integers\<close>

fun le_bytes :: "nat \<Rightarrow> nat \<Rightarrow> bytes" where
  "le_bytes 0 x = []"
| "le_bytes (Suc n) x = of_nat x # le_bytes n (x div 256)"

fun le_nat :: "bytes \<Rightarrow> nat" where
  "le_nat [] = 0"
| "le_nat (b # bs) = unat b + 256 * le_nat bs"

lemma byte_less: "unat (b :: byte) < 256"
  using unsigned_less [of b] by simp

lemma length_le_bytes [simp]: "length (le_bytes n x) = n"
  by (induction n arbitrary: x) auto

lemma le_nat_le_bytes: "le_nat (le_bytes n x) = x mod 256 ^ n"
  by (induction n arbitrary: x) (simp_all add: unat_of_nat mod_mult2_eq add.commute)

lemma le_nat_less: "le_nat b < 256 ^ length b"
proof (induction b)
  case (Cons a b)
  have "unat a < 256" by (rule byte_less)
  with Cons show ?case by simp
qed simp

lemma le_bytes_le_nat: "le_bytes (length b) (le_nat b) = b"
proof (induction b)
  case (Cons a b)
  have "unat a < 256" by (rule byte_less)
  then have q: "(unat a + 256 * le_nat b) div 256 = le_nat b" by simp
  have "(of_nat (unat a + 256 * le_nat b) :: byte) = of_nat (unat a)"
    unfolding word_of_nat_eq_iff by (simp add: take_bit_eq_mod)
  with Cons q show ?case by (simp only: le_nat.simps list.size add_0_right add_Suc_right le_bytes.simps) simp
qed simp

lemma le_bytes_mod: "le_bytes n (x mod 256 ^ n) = le_bytes n x"
  using le_bytes_le_nat [of "le_bytes n x"] by (simp add: le_nat_le_bytes)

section \<open>Slices\<close>

text \<open>\<open>copy(dst[i:], src)\<close>.\<close>

definition go_copy :: "'a list \<Rightarrow> nat \<Rightarrow> 'a list \<Rightarrow> 'a list" where
  "go_copy dst i src = take i dst @ take (length dst - i) src @ drop (i + length src) dst"

lemma length_go_copy [simp]: "i \<le> length dst \<Longrightarrow> length (go_copy dst i src) = length dst"
  by (simp add: go_copy_def)

lemma take_go_copy: "i + length src \<le> length dst \<Longrightarrow> take (i + length src) (go_copy dst i src) = take i dst @ src"
  by (simp add: go_copy_def)

text \<open>\<open>buf[lo:hi]\<close>, with the panic when the bounds do not fit.\<close>

definition slice :: "'a list \<Rightarrow> int \<Rightarrow> int \<Rightarrow> 'a list option" where
  "slice b lo hi = (if 0 \<le> lo \<and> lo \<le> hi \<and> hi \<le> int (length b)
     then Some (take (nat hi - nat lo) (drop (nat lo) b)) else None)"

lemma slice_nat: "i \<le> j \<Longrightarrow> j \<le> length b \<Longrightarrow> slice b (int i) (int j) = Some (take (j - i) (drop i b))"
  by (simp add: slice_def)

section \<open>\<open>sort.Search\<close>\<close>

function sort_Search_loop :: "(nat \<Rightarrow> bool) \<Rightarrow> nat \<Rightarrow> nat \<Rightarrow> nat" where
  "sort_Search_loop f i j =
     (if i < j then let h = (i + j) div 2 in if \<not> f h then sort_Search_loop f (h + 1) j else sort_Search_loop f i h
      else i)"
  by pat_completeness auto
termination by (relation "measure (\<lambda>(f, i, j). j - i)") auto

declare sort_Search_loop.simps [simp del]

definition sort_Search :: "nat \<Rightarrow> (nat \<Rightarrow> bool) \<Rightarrow> nat" where
  "sort_Search n f = sort_Search_loop f 0 n"

lemma sort_Search_loop_ok:
  assumes "i \<le> j" "\<forall>k<i. \<not> f k" "\<forall>k. j \<le> k \<longrightarrow> k < n \<longrightarrow> f k" "j \<le> n"
    and "\<forall>a b. a \<le> b \<longrightarrow> b < n \<longrightarrow> f a \<longrightarrow> f b"
  shows "let m = sort_Search_loop f i j in m \<le> n \<and> (\<forall>k. k < m \<longrightarrow> \<not> f k) \<and> (\<forall>k. m \<le> k \<longrightarrow> k < n \<longrightarrow> f k)"
  using assms
proof (induction f i j rule: sort_Search_loop.induct)
  case (1 f i j)
  show ?case
  proof (cases "i < j")
    case True
    let ?h = "(i + j) div 2"
    have h: "i \<le> ?h" "?h < j" using True by auto
    show ?thesis
    proof (cases "f ?h")
      case f: True
      then have "\<forall>k. ?h \<le> k \<longrightarrow> k < n \<longrightarrow> f k" using "1.prems"(5) by blast
      with "1.IH"(2) [OF True refl] f h "1.prems" True show ?thesis
        by (subst sort_Search_loop.simps) (simp add: Let_def)
    next
      case f: False
      have "\<forall>k<Suc ?h. \<not> f k" using f "1.prems"(4,5) h by (meson less_Suc_eq_le less_le_trans)
      with "1.IH"(1) [OF True refl] f h "1.prems" True show ?thesis
        by (subst sort_Search_loop.simps) (simp add: Let_def)
    qed
  next
    case False
    with "1.prems" show ?thesis by (subst sort_Search_loop.simps) (simp add: Let_def)
  qed
qed

text \<open>On a predicate that stays true once it is, the search finds the first index where it is.\<close>

lemma sort_Search_ok:
  assumes "\<forall>a b. a \<le> b \<longrightarrow> b < n \<longrightarrow> f a \<longrightarrow> f b"
  shows "sort_Search n f \<le> n" "k < sort_Search n f \<Longrightarrow> \<not> f k" "sort_Search n f \<le> k \<Longrightarrow> k < n \<Longrightarrow> f k"
  using sort_Search_loop_ok [of 0 n f n] assms by (auto simp: Let_def sort_Search_def)

section \<open>\<open>io.ReaderAt\<close> over a file\<close>

type_synonym ReaderAt = "bytes \<Rightarrow> int \<Rightarrow> (bytes \<times> int \<times> go_error option) option"

text \<open>The contract over a file with content \<open>f\<close>: a read inside the file is complete; one that ends
  at the end of the file may report end-of-file with it, and one past it does.\<close>

locale reader_at =
  fixes R :: ReaderAt and f :: bytes
  assumes read_inside: "k + length p \<le> length f \<Longrightarrow>
      \<exists>e. R p (int k) = Some (take (length p) (drop k f), int (length p), e) \<and>
        (e = None \<or> e = Some EOF \<and> k + length p = length f)"
    and read_past: "k \<le> length f \<Longrightarrow> length f < k + length p \<Longrightarrow>
      \<exists>q. R p (int k) = Some (q, int (length f - k), Some EOF) \<and> take (length f - k) q = drop k f \<and>
        length q = length p"
begin

lemma read_before_end:
  "k + length p < length f \<Longrightarrow> R p (int k) = Some (take (length p) (drop k f), int (length p), None)"
  using read_inside [of k p] by auto

end

text \<open>Some readers never return an error with all the bytes asked for.\<close>

locale exact_reader_at = reader_at R f
  for R :: ReaderAt and f :: bytes +
  assumes read_exact: "k + length p \<le> length f \<Longrightarrow> R p (int k) = Some (take (length p) (drop k f), int (length p), None)"

text \<open>\<open>ReadAt\<close> of an open file.\<close>

definition file_ReadAt :: "bytes \<Rightarrow> ReaderAt" where
  "file_ReadAt f p off =
     (if off < 0 then Some (p, 0, Some (Err ''negative offset''))
      else let n = min (length p) (length f - nat off)
        in Some (take n (drop (nat off) f) @ drop n p, int n, if n < length p then Some EOF else None))"

interpretation os_file: exact_reader_at "file_ReadAt f" f for f
  by unfold_locales (auto simp: file_ReadAt_def Let_def min_def)

section \<open>\<open>io.Reader\<close>\<close>

type_synonym 'r Read = "'r \<Rightarrow> bytes \<Rightarrow> ('r \<times> bytes \<times> nat \<times> go_error option) option"

text \<open>\<open>rest r\<close> is what the reader has left. A read hands out a prefix of it; it reports end-of-file
  only when nothing is left, and may fail at any time.\<close>

locale io_reader =
  fixes Read :: "'r Read" and rest :: "'r \<Rightarrow> bytes" and valid :: "'r \<Rightarrow> bool"
  assumes Read_ok: "valid r \<Longrightarrow> p \<noteq> [] \<Longrightarrow> \<exists>r' q m e. Read r p = Some (r', q, m, e) \<and> valid r' \<and>
    length q = length p \<and> m \<le> length p \<and> rest r = take m q @ rest r' \<and> (e = Some EOF \<longrightarrow> rest r' = [])"

text \<open>A reader that does not fail and makes progress.\<close>

locale reliable_reader = io_reader Read rest valid
  for Read :: "'r Read" and rest :: "'r \<Rightarrow> bytes" and valid :: "'r \<Rightarrow> bool" +
  assumes Read_live: "valid r \<Longrightarrow> p \<noteq> [] \<Longrightarrow> Read r p = Some (r', q, m, e) \<Longrightarrow>
    (e = None \<or> e = Some EOF) \<and> (m = 0 \<longrightarrow> e = Some EOF)"

record 'r LimitedReader =
  lr_R :: 'r
  lr_N :: int

definition LimitedReader_Read :: "'r Read \<Rightarrow> 'r LimitedReader Read" where
  "LimitedReader_Read Read l p =
     (if lr_N l \<le> 0 then Some (l, p, 0, Some EOF)
      else do {
        let k = (if int (length p) > lr_N l then nat (lr_N l) else length p);
        (r, q, n, err) \<leftarrow> Read (lr_R l) (take k p);
        Some (l\<lparr>lr_R := r, lr_N := lr_N l - int n\<rparr>, q @ drop k p, n, err)
      })"

definition limited_rest :: "('r \<Rightarrow> bytes) \<Rightarrow> 'r LimitedReader \<Rightarrow> bytes" where
  "limited_rest rest l = take (nat (lr_N l)) (rest (lr_R l))"

context io_reader
begin

lemma limited: "io_reader (LimitedReader_Read Read) (limited_rest rest) (\<lambda>l. valid (lr_R l))"
proof
  fix l :: "'r LimitedReader" and p :: bytes
  assume v: "valid (lr_R l)" and p: "p \<noteq> []"
  show "\<exists>r' q m e. LimitedReader_Read Read l p = Some (r', q, m, e) \<and> valid (lr_R r') \<and>
      length q = length p \<and> m \<le> length p \<and> limited_rest rest l = take m q @ limited_rest rest r' \<and>
      (e = Some EOF \<longrightarrow> limited_rest rest r' = [])"
  proof (cases "lr_N l \<le> 0")
    case True
    with v show ?thesis by (simp add: LimitedReader_Read_def limited_rest_def)
  next
    case False
    define k where "k = (if int (length p) > lr_N l then nat (lr_N l) else length p)"
    then have k: "k \<le> length p" "k \<le> nat (lr_N l)" "take k p \<noteq> []" using False p by auto
    from Read_ok [OF v k(3)] k(1) obtain r q m e where
      r: "Read (lr_R l) (take k p) = Some (r, q, m, e)" "valid r" "length q = k" "m \<le> k"
        "rest (lr_R l) = take m q @ rest r" "e = Some EOF \<longrightarrow> rest r = []" by auto
    let ?l = "l\<lparr>lr_R := r, lr_N := lr_N l - int m\<rparr>"
    have "LimitedReader_Read Read l p = Some (?l, q @ drop k p, m, e)"
      using False r(1) by (simp add: LimitedReader_Read_def k_def)
    moreover have "limited_rest rest l = take m (q @ drop k p) @ limited_rest rest ?l"
    proof -
      have "nat (lr_N l) = m + nat (lr_N l - int m)" using k(2) r(4) False by simp
      then show ?thesis using r(3-5) by (simp add: limited_rest_def min_def take_add)
    qed
    ultimately show ?thesis using r k by (auto simp: limited_rest_def)
  qed
qed

end

context reliable_reader
begin

lemma limited_live: "reliable_reader (LimitedReader_Read Read) (limited_rest rest) (\<lambda>l. valid (lr_R l))"
proof (rule reliable_reader.intro [OF limited], unfold_locales)
  fix l l' :: "'r LimitedReader" and p q m e
  assume v: "valid (lr_R l)" and p: "p \<noteq> []" and l: "LimitedReader_Read Read l p = Some (l', q, m, e)"
  show "(e = None \<or> e = Some EOF) \<and> (m = 0 \<longrightarrow> e = Some EOF)"
  proof (cases "lr_N l \<le> 0")
    case True
    with l show ?thesis by (simp add: LimitedReader_Read_def)
  next
    case False
    let ?k = "if int (length p) > lr_N l then nat (lr_N l) else length p"
    from l False obtain r q' where "Read (lr_R l) (take ?k p) = Some (r, q', m, e)"
      by (auto simp: LimitedReader_Read_def Let_def split: bind_splits)
    moreover have "take ?k p \<noteq> []" using False p by auto
    ultimately show ?thesis using Read_live [OF v] by blast
  qed
qed

end

record SectionReader =
  sec_r :: ReaderAt
  sec_off :: int
  sec_limit :: int

definition NewSectionReader :: "ReaderAt \<Rightarrow> int \<Rightarrow> int \<Rightarrow> SectionReader" where
  "NewSectionReader r off n =
     \<lparr>sec_r = r, sec_off = off, sec_limit = (if off \<le> 2 ^ 63 - 1 - n then off + n else 2 ^ 63 - 1)\<rparr>"

definition SectionReader_Read :: "SectionReader Read" where
  "SectionReader_Read s p =
     (if sec_off s \<ge> sec_limit s then Some (s, p, 0, Some EOF)
      else do {
        let k = (if int (length p) > sec_limit s - sec_off s then nat (sec_limit s - sec_off s) else length p);
        (q, n, err) \<leftarrow> sec_r s (take k p) (sec_off s);
        Some (s\<lparr>sec_off := sec_off s + n\<rparr>, q @ drop k p, nat n, err)
      })"

text \<open>Over a byte reader with content \<open>c\<close>, a section of data reads as that data.\<close>

definition section_rest :: "(nat \<rightharpoonup> byte) \<Rightarrow> SectionReader \<Rightarrow> bytes" where
  "section_rest c s = read_data c (nat (sec_off s)) (nat (sec_limit s - sec_off s))"

definition section_valid :: "ReaderAt \<Rightarrow> (nat \<rightharpoonup> byte) \<Rightarrow> SectionReader \<Rightarrow> bool" where
  "section_valid R c s \<longleftrightarrow> sec_r s = R \<and> 0 \<le> sec_off s \<and>
     all_data c (nat (sec_off s)) (nat (sec_limit s - sec_off s))"

context hole_reader_at
begin

lemma section_read:
  assumes "section_valid (ReadAt R) c s" "p \<noteq> []"
    and "k = nat (sec_off s)" "n = nat (sec_limit s - sec_off s)" "l = min (length p) n"
  shows "SectionReader_Read s p = (if n = 0 then Some (s, p, 0, Some EOF)
    else Some (s\<lparr>sec_off := int (k + l)\<rparr>, read_data c k l @ drop l p, l, None))"
proof (cases "n = 0")
  case True
  with assms(4) show ?thesis by (simp add: SectionReader_Read_def)
next
  case False
  have s: "sec_r s = ReadAt R" "sec_off s = int k" "all_data c k n" "sec_limit s = int k + int n"
    using assms(1,3,4) False by (simp_all add: section_valid_def)
  have "all_data c k l" using all_data_append [of c k l "n - l"] s(3) assms(5) by simp
  moreover have "take l p \<noteq> []" "length (take l p) = l" using False assms(2,5) by simp_all
  ultimately have "ReadAt R (take l p) (int k) = Some (read_data c k l, int l, None)"
    using ReadAt_ok [of "take l p" k] by simp
  then show ?thesis using False s(1,2,4) assms(5)
    by (cases "n < length p") (simp_all add: SectionReader_Read_def Let_def)
qed

end

sublocale hole_reader_at \<subseteq> sec: reliable_reader SectionReader_Read "section_rest c" "section_valid (ReadAt R) c"
proof (unfold_locales, goal_cases)
  case (1 s p)
  define n where "n = nat (sec_limit s - sec_off s)"
  define k where "k = nat (sec_off s)"
  define l where "l = min (length p) n"
  note rd = section_read [OF 1 k_def n_def l_def]
  have n: "n = l + (n - l)" by (simp add: l_def)
  have s: "sec_r s = ReadAt R" "all_data c k n" using 1(1) by (simp_all add: section_valid_def n_def k_def)
  show ?case
  proof (cases "n = 0")
    case True
    then have "section_rest c s = []" unfolding section_rest_def n_def [symmetric] by (simp add: read_data_def)
    with True rd 1(1) show ?thesis by simp
  next
    case False
    have lim: "nat (sec_limit s - int (k + l)) = n - l" using False 1(1) by (simp add: n_def k_def section_valid_def)
    have len: "length (read_data c k l) = l" by (simp add: read_data_def)
    let ?s = "s\<lparr>sec_off := int (k + l)\<rparr>"
    have "section_rest c s = take l (read_data c k l @ drop l p) @ section_rest c ?s"
      unfolding section_rest_def n_def [symmetric] k_def [symmetric]
      by (subst n, subst read_data_append) (simp add: len lim del: of_nat_add)
    moreover have "section_valid (ReadAt R) c ?s"
      using s n all_data_append [of c k l "n - l"] by (simp add: section_valid_def lim del: of_nat_add)
    ultimately show ?thesis using rd False len by (auto simp: l_def)
  qed
next
  case (2 s p s' q m e)
  from section_read [OF 2(1,2) refl refl refl] 2(2,3) show ?case by (auto split: if_splits)
qed

section \<open>\<open>io.Writer\<close> and \<open>bufio.Writer\<close>\<close>

type_synonym 'w Write = "'w \<Rightarrow> bytes \<Rightarrow> 'w \<times> nat \<times> go_error option"
type_synonym ('w, 'r) ReadFrom = "'w \<Rightarrow> 'r \<Rightarrow> ('w \<times> 'r \<times> nat \<times> go_error option) option"

text \<open>\<open>written w\<close> is what has been written. A write appends a prefix of its argument, all of it unless
  it returns an error.\<close>

locale io_writer =
  fixes Write :: "'w Write" and written :: "'w \<Rightarrow> bytes"
  assumes Write_ok: "Write w p = (w', n, e) \<Longrightarrow>
    n \<le> length p \<and> written w' = written w @ take n p \<and> (e = None \<longrightarrow> n = length p)"

definition never_fails :: "'w Write \<Rightarrow> bool" where
  "never_fails Write \<longleftrightarrow> (\<forall>w p. snd (snd (Write w p)) = None)"

record 'w bufio_Writer =
  bw_wr :: 'w
  bw_buf :: bytes
  bw_n :: nat
  bw_err :: "go_error option"

definition bufio_NewWriterSize :: "'w \<Rightarrow> nat \<Rightarrow> 'w bufio_Writer" where
  "bufio_NewWriterSize w sz = \<lparr>bw_wr = w, bw_buf = replicate sz 0, bw_n = 0, bw_err = None\<rparr>"

definition bw_Available :: "'w bufio_Writer \<Rightarrow> nat" where
  "bw_Available b = length (bw_buf b) - bw_n b"

definition bw_Flush :: "'w Write \<Rightarrow> 'w bufio_Writer \<Rightarrow> 'w bufio_Writer \<times> go_error option" where
  "bw_Flush Write b =
     (if bw_err b \<noteq> None then (b, bw_err b)
      else if bw_n b = 0 then (b, None)
      else case Write (bw_wr b) (take (bw_n b) (bw_buf b)) of
        (w, n, err) \<Rightarrow>
          let err = (if n < bw_n b \<and> err = None then Some ErrShortWrite else err)
          in if err \<noteq> None
             then (b\<lparr>bw_wr := w, bw_buf := (if 0 < n \<and> n < bw_n b
                       then go_copy (bw_buf b) 0 (take (bw_n b - n) (drop n (bw_buf b))) else bw_buf b),
                     bw_n := bw_n b - n, bw_err := err\<rparr>, err)
             else (b\<lparr>bw_wr := w, bw_n := 0\<rparr>, None))"

partial_function (option) bw_Write_loop :: "'w Write \<Rightarrow> 'w bufio_Writer \<Rightarrow> bytes \<Rightarrow> nat \<Rightarrow>
    ('w bufio_Writer \<times> nat \<times> go_error option) option" where
  "bw_Write_loop Write b p nn =
     (if length p > bw_Available b \<and> bw_err b = None
      then if bw_n b = 0
        then (case Write (bw_wr b) p of
          (w, n, err) \<Rightarrow> bw_Write_loop Write (b\<lparr>bw_wr := w, bw_err := err\<rparr>) (drop n p) (nn + n))
        else let n = bw_Available b
          in bw_Write_loop Write (fst (bw_Flush Write
               (b\<lparr>bw_buf := go_copy (bw_buf b) (bw_n b) (take n p), bw_n := bw_n b + n\<rparr>))) (drop n p) (nn + n)
      else if bw_err b \<noteq> None then Some (b, nn, bw_err b)
      else Some (b\<lparr>bw_buf := go_copy (bw_buf b) (bw_n b) p, bw_n := bw_n b + length p\<rparr>, nn + length p, None))"

definition bw_Write :: "'w Write \<Rightarrow> 'w bufio_Writer \<Rightarrow> bytes \<Rightarrow> ('w bufio_Writer \<times> nat \<times> go_error option) option" where
  "bw_Write Write b p = bw_Write_loop Write b p 0"

text \<open>\<open>ReadFrom\<close>: up to a hundred reads without progress are retried. \<open>rf\<close> is the \<open>ReadFrom\<close> of the
  underlying writer where it has one; it is used once the buffer is empty.\<close>

fun bw_read :: "nat \<Rightarrow> 'r Read \<Rightarrow> 'r \<Rightarrow> bytes \<Rightarrow> ('r \<times> bytes \<times> nat \<times> go_error option) option" where
  "bw_read 0 Read r p = Some (r, p, 0, Some ErrNoProgress)"
| "bw_read (Suc k) Read r p = do {
     (r, p, m, err) \<leftarrow> Read r p;
     if m \<noteq> 0 \<or> err \<noteq> None then Some (r, p, m, err) else bw_read k Read r p
   }"

definition maxConsecutiveEmptyReads :: nat where
  "maxConsecutiveEmptyReads = 100"

partial_function (option) bw_ReadFrom_loop :: "'w Write \<Rightarrow>
    ('w, 'r) ReadFrom option \<Rightarrow> 'r Read \<Rightarrow>
    'w bufio_Writer \<Rightarrow> 'r \<Rightarrow> nat \<Rightarrow> ('w bufio_Writer \<times> 'r \<times> nat \<times> go_error option) option" where
  "bw_ReadFrom_loop Write rf Read b r n = do {
     let (b, err) = (if bw_Available b = 0 then bw_Flush Write b else (b, None));
     if err \<noteq> None then Some (b, r, n, err)
     else if rf \<noteq> None \<and> bw_n b = 0
     then do {
       (w, r, nn, err) \<leftarrow> the rf (bw_wr b) r;
       Some (b\<lparr>bw_wr := w, bw_err := err\<rparr>, r, n + nn, err)
     }
     else do {
       (r, q, m, err) \<leftarrow> bw_read maxConsecutiveEmptyReads Read r (drop (bw_n b) (bw_buf b));
       let b = b\<lparr>bw_buf := take (bw_n b) (bw_buf b) @ q, bw_n := bw_n b + m\<rparr>;
       if err = None then bw_ReadFrom_loop Write rf Read b r (n + m)
       else if err = Some EOF
       then (if bw_Available b = 0
             then (case bw_Flush Write b of (b, err) \<Rightarrow> Some (b, r, n + m, err))
             else Some (b, r, n + m, None))
       else Some (b, r, n + m, err)
     }
   }"

definition bw_ReadFrom :: "'w Write \<Rightarrow>
    ('w, 'r) ReadFrom option \<Rightarrow> 'r Read \<Rightarrow>
    'w bufio_Writer \<Rightarrow> 'r \<Rightarrow> ('w bufio_Writer \<times> 'r \<times> nat \<times> go_error option) option" where
  "bw_ReadFrom Write rf Read b r =
     (if bw_err b \<noteq> None then Some (b, r, 0, bw_err b) else bw_ReadFrom_loop Write rf Read b r 0)"

definition bw_ok :: "'w bufio_Writer \<Rightarrow> bool" where
  "bw_ok b \<longleftrightarrow> bw_n b \<le> length (bw_buf b) \<and> bw_buf b \<noteq> []"

definition bw_stream :: "('w \<Rightarrow> bytes) \<Rightarrow> 'w bufio_Writer \<Rightarrow> bytes" where
  "bw_stream written b = written (bw_wr b) @ take (bw_n b) (bw_buf b)"

text \<open>A call that appends \<open>d\<close> to the stream, with result \<open>b'\<close> and error \<open>e\<close>; under \<open>live\<close> it succeeds
  on a writer without an error.\<close>

definition bw_appends :: "('w \<Rightarrow> bytes) \<Rightarrow> 'w bufio_Writer \<Rightarrow> bytes \<Rightarrow> bool \<Rightarrow> 'w bufio_Writer \<Rightarrow> go_error option \<Rightarrow> bool" where
  "bw_appends written b d live b' e \<longleftrightarrow> bw_ok b' \<and> e = bw_err b' \<and> length (bw_buf b') = length (bw_buf b) \<and>
     (e = None \<longrightarrow> bw_err b = None \<and> bw_stream written b' = bw_stream written b @ d) \<and>
     (live \<longrightarrow> bw_err b = None \<longrightarrow> e = None)"

lemma bw_new: "0 < sz \<Longrightarrow> bw_ok (bufio_NewWriterSize w sz)"
  "bw_stream written (bufio_NewWriterSize w sz) = written w" "bw_err (bufio_NewWriterSize w sz) = None"
  by (auto simp: bw_ok_def bw_stream_def bufio_NewWriterSize_def)

context io_writer
begin

lemma Flush_ok:
  assumes "bw_ok b" "bw_Flush Write b = (b', e)"
  shows "bw_ok b' \<and> e = bw_err b' \<and> length (bw_buf b') = length (bw_buf b) \<and>
    (e = None \<longrightarrow> bw_n b' = 0 \<and> bw_err b = None \<and> written (bw_wr b') = bw_stream written b)"
proof (cases "bw_err b \<noteq> None \<or> bw_n b = 0")
  case True
  with assms show ?thesis
    by (cases "bw_err b") (auto simp: bw_Flush_def bw_stream_def)
next
  case False
  obtain w n err where w: "Write (bw_wr b) (take (bw_n b) (bw_buf b)) = (w, n, err)" by (metis prod_cases3)
  from Write_ok [OF w] have "n \<le> bw_n b" "written w = written (bw_wr b) @ take n (take (bw_n b) (bw_buf b))"
    "err = None \<longrightarrow> n = bw_n b" using assms(1) by (auto simp: bw_ok_def)
  with assms False w show ?thesis
    by (auto simp: bw_Flush_def bw_stream_def bw_ok_def Let_def go_copy_def split: if_splits)
qed

lemma Flush_live:
  assumes "never_fails Write" "bw_ok b" "bw_err b = None"
  shows "snd (bw_Flush Write b) = None"
proof -
  obtain w n err where w: "Write (bw_wr b) (take (bw_n b) (bw_buf b)) = (w, n, err)" by (metis prod_cases3)
  with assms(1) have "err = None" unfolding never_fails_def by (metis snd_conv)
  with Write_ok [OF w] assms(2,3) w show ?thesis by (auto simp: bw_Flush_def bw_ok_def Let_def)
qed


lemma Write_loop_full:
  assumes "bw_ok b" "length p \<le> bw_Available b \<or> bw_err b \<noteq> None"
  shows "\<exists>b' nn e. bw_Write_loop Write b p c = Some (b', nn, e) \<and> bw_appends written b p True b' e \<and>
    (e = None \<longrightarrow> nn = c + length p)"
proof (cases "bw_err b")
  case None
  let ?b = "b\<lparr>bw_buf := go_copy (bw_buf b) (bw_n b) p, bw_n := bw_n b + length p\<rparr>"
  have len: "bw_n b + length p \<le> length (bw_buf b)" using assms None by (auto simp: bw_ok_def bw_Available_def)
  have "bw_Write_loop Write b p c = Some (?b, c + length p, None)"
    using assms(2) None by (subst bw_Write_loop.simps) auto
  moreover have "bw_appends written b p True ?b None"
    using None len assms(1) by (auto simp: bw_appends_def bw_ok_def bw_stream_def take_go_copy simp flip: length_greater_0_conv)
  ultimately show ?thesis by blast
next
  case (Some e)
  then have "bw_Write_loop Write b p c = Some (b, c, Some e)" by (subst bw_Write_loop.simps) simp
  with Some assms(1) show ?thesis by (auto simp: bw_appends_def)
qed

lemma Write_loop_empty:
  assumes "bw_ok b" "bw_err b = None" "bw_n b = 0"
  shows "\<exists>b' nn e. bw_Write_loop Write b p c = Some (b', nn, e) \<and> bw_appends written b p (never_fails Write) b' e \<and>
    (e = None \<longrightarrow> nn = c + length p)"
proof (cases "length p \<le> bw_Available b")
  case True
  with Write_loop_full [OF assms(1), of p c] show ?thesis by (auto simp: bw_appends_def)
next
  case False
  obtain w n err where w: "Write (bw_wr b) p = (w, n, err)" by (metis prod_cases3)
  let ?b = "b\<lparr>bw_wr := w, bw_err := err\<rparr>"
  have ok: "bw_ok ?b" using assms(1) by (simp add: bw_ok_def)
  note ww = Write_ok [OF w]
  have step: "bw_Write_loop Write b p c = bw_Write_loop Write ?b (drop n p) (c + n)"
    using False assms(2,3) w by (subst bw_Write_loop.simps) simp
  have fits: "length (drop n p) \<le> bw_Available ?b \<or> bw_err ?b \<noteq> None" using ww by auto
  obtain b' nn e where r: "bw_Write_loop Write ?b (drop n p) (c + n) = Some (b', nn, e)"
    "bw_appends written ?b (drop n p) True b' e" "e = None \<longrightarrow> nn = c + n + length (drop n p)"
    using Write_loop_full [OF ok fits, of "c + n"] by blast
  have live: "err = None" if "never_fails Write" using that w unfolding never_fails_def by (metis snd_conv)
  show ?thesis
    using step r ww assms live by (auto simp: bw_appends_def bw_stream_def)
qed

lemma Write_bufio:
  assumes ok: "bw_ok b"
  shows "\<exists>b' nn e. bw_Write Write b p = Some (b', nn, e) \<and> bw_appends written b p (never_fails Write) b' e \<and>
    (e = None \<longrightarrow> nn = length p)"
proof (cases "length p \<le> bw_Available b \<or> bw_err b \<noteq> None")
  case True
  with Write_loop_full [OF ok, of p 0] show ?thesis by (auto simp: bw_Write_def bw_appends_def)
next
  case False
  show ?thesis
  proof (cases "bw_n b = 0")
    case True
    with False Write_loop_empty [OF ok _ True, of p 0] show ?thesis by (simp add: bw_Write_def)
  next
    case n: False
    let ?n = "bw_Available b"
    let ?b = "b\<lparr>bw_buf := go_copy (bw_buf b) (bw_n b) (take ?n p), bw_n := bw_n b + ?n\<rparr>"
    obtain b1 e1 where f: "bw_Flush Write ?b = (b1, e1)" by fastforce
    have len: "bw_n b + ?n = length (bw_buf b)" using ok by (simp add: bw_ok_def bw_Available_def)
    have okb: "bw_ok ?b" using ok len by (auto simp: bw_ok_def simp flip: length_greater_0_conv)
    have str: "bw_stream written ?b = bw_stream written b @ take ?n p"
      using take_go_copy [of "bw_n b" "take ?n p" "bw_buf b"] False len by (simp add: bw_stream_def bw_Available_def)
    have step: "bw_Write Write b p = bw_Write_loop Write b1 (drop ?n p) ?n"
      unfolding bw_Write_def using False n f by (subst bw_Write_loop.simps) (simp add: Let_def)
    note fl = Flush_ok [OF okb f]
    have live: "e1 = None" if "never_fails Write"
      using Flush_live [OF that okb] False f by simp
    have lb: "length (bw_buf b1) = length (bw_buf b)" using fl ok by (simp add: bw_ok_def)
    show ?thesis
    proof (cases "e1 = None")
      case True
      with fl have b1: "bw_ok b1" "bw_err b1 = None" "bw_n b1 = 0" by auto
      from True fl have s1: "bw_stream written b1 = bw_stream written b @ take ?n p" unfolding str [symmetric] by (simp add: bw_stream_def)
      from Write_loop_empty [OF b1, of "drop ?n p" ?n] False show ?thesis
        unfolding step using b1(2) by (auto simp: bw_appends_def s1 lb)
    next
      case err: False
      then have "bw_Write_loop Write b1 (drop ?n p) ?n = Some (b1, ?n, e1)"
        using fl by (subst bw_Write_loop.simps) auto
      then show ?thesis unfolding step using fl err live lb by (auto simp: bw_appends_def)
    qed
  qed
qed

end

lemma bw_appends_trans:
  "bw_appends written a x live b None \<Longrightarrow> bw_appends written b y live c e \<Longrightarrow> bw_appends written a (x @ y) live c e"
  by (auto simp: bw_appends_def)

lemma bw_appends_err: "bw_appends written a x live b e \<Longrightarrow> e \<noteq> None \<Longrightarrow> bw_appends written a y live b e"
  by (auto simp: bw_appends_def)

text \<open>A writer with a \<open>ReadFrom\<close> of its own, if \<open>rf\<close> is not nil, copies the rest of its reader.\<close>

locale io_copy = io_writer Write written + io_reader Read rest valid
  for Write :: "'w Write" and written :: "'w \<Rightarrow> bytes" and Read :: "'r Read" and rest :: "'r \<Rightarrow> bytes"
    and valid :: "'r \<Rightarrow> bool" +
  fixes rf :: "('w, 'r) ReadFrom option"
  assumes rf_ok: "rf = Some F \<Longrightarrow> valid r \<Longrightarrow> \<exists>w' r' nn e. F w r = Some (w', r', nn, e) \<and>
    (e = None \<longrightarrow> nn = length (rest r) \<and> written w' = written w @ rest r)"

locale reliable_copy = io_copy Write written Read rest valid rf + reliable_reader Read rest valid
  for Write :: "'w Write" and written :: "'w \<Rightarrow> bytes" and Read :: "'r Read" and rest :: "'r \<Rightarrow> bytes"
    and valid :: "'r \<Rightarrow> bool" and rf :: "('w, 'r) ReadFrom option" +
  assumes w_live: "never_fails Write"
    and rf_live: "rf = Some F \<Longrightarrow> valid r \<Longrightarrow> F w r = Some (w', r', nn, e) \<Longrightarrow> e = None"

context io_reader
begin

lemma bw_read_ok:
  assumes "valid r" "p \<noteq> []"
  shows "\<exists>r' q m e. bw_read k Read r p = Some (r', q, m, e) \<and> valid r' \<and> length q = length p \<and> m \<le> length p \<and>
    rest r = take m q @ rest r' \<and> (e = Some EOF \<longrightarrow> rest r' = []) \<and> (m \<noteq> 0 \<or> e \<noteq> None)"
  using assms
proof (induction k arbitrary: r p)
  case (Suc k)
  from Read_ok [OF Suc.prems] obtain r1 q1 m e where r1: "Read r p = Some (r1, q1, m, e)" "valid r1"
    "length q1 = length p" "m \<le> length p" "rest r = take m q1 @ rest r1" "e = Some EOF \<longrightarrow> rest r1 = []" by blast
  show ?case
  proof (cases "m \<noteq> 0 \<or> e \<noteq> None")
    case True
    with r1 show ?thesis by auto
  next
    case False
    then have eq: "bw_read (Suc k) Read r p = bw_read k Read r1 q1" "rest r = rest r1" using r1(1,5) by auto
    have "q1 \<noteq> []" using r1(3) Suc.prems(2) by auto
    from Suc.IH [OF r1(2) this] show ?thesis unfolding eq r1(3) .
  qed
qed simp

end

context reliable_reader
begin

lemma bw_read_live:
  assumes "valid r" "p \<noteq> []" "bw_read (Suc k) Read r p = Some (r', q, m, e)"
  shows "e = None \<or> e = Some EOF"
proof -
  from Read_ok [OF assms(1,2)] obtain r1 q1 m1 e1 where r1: "Read r p = Some (r1, q1, m1, e1)" by blast
  from Read_live [OF assms(1,2) this] r1 assms(3) show ?thesis by (auto split: if_splits)
qed

end

context io_writer
begin

lemma make_room:
  assumes "bw_ok b" "bw_err b = None" "(if bw_Available b = 0 then bw_Flush Write b else (b, None)) = (b1, e1)"
  shows "bw_ok b1 \<and> length (bw_buf b1) = length (bw_buf b) \<and> e1 = bw_err b1 \<and>
    (e1 = None \<longrightarrow> bw_n b1 < length (bw_buf b1) \<and> bw_stream written b1 = bw_stream written b)"
proof (cases "bw_Available b = 0")
  case True
  with assms Flush_ok [of b b1 e1] show ?thesis by (auto simp: bw_ok_def bw_stream_def)
next
  case False
  with assms show ?thesis by (auto simp: bw_Available_def)
qed

end

context io_copy
begin

lemma ReadFrom_loop_ok:
  assumes "bw_ok b" "bw_err b = None" "valid r"
  shows "\<exists>b' r' n e. bw_ReadFrom_loop Write rf Read b r c = Some (b', r', n, e) \<and> bw_ok b' \<and>
    length (bw_buf b') = length (bw_buf b) \<and>
    (e = None \<longrightarrow> bw_err b' = None \<and> n = c + length (rest r) \<and> bw_stream written b' = bw_stream written b @ rest r)"
  using assms
proof (induction "length (rest r)" arbitrary: b r c rule: less_induct)
  case less
  obtain b1 e1 where b1: "(if bw_Available b = 0 then bw_Flush Write b else (b, None)) = (b1, e1)" by fastforce
  from make_room [OF less.prems(1,2) b1] have fl: "bw_ok b1" "length (bw_buf b1) = length (bw_buf b)" "e1 = bw_err b1"
    "e1 = None \<longrightarrow> bw_n b1 < length (bw_buf b1) \<and> bw_stream written b1 = bw_stream written b" by auto
  note unf = bw_ReadFrom_loop.simps [of Write rf Read b r c, unfolded b1]
  consider (err) "e1 \<noteq> None" | (rf) F where "e1 = None" "rf = Some F" "bw_n b1 = 0"
    | (buf) "e1 = None" "\<not> (rf \<noteq> None \<and> bw_n b1 = 0)" by (cases rf) blast+
  then show ?case
  proof cases
    case err
    with unf fl show ?thesis by auto
  next
    case rf
    from rf_ok [OF rf(2) less.prems(3), of "bw_wr b1"] obtain w' r' nn e where
      F: "F (bw_wr b1) r = Some (w', r', nn, e)" "e = None \<longrightarrow> nn = length (rest r) \<and> written w' = written (bw_wr b1) @ rest r"
      by blast
    from unf F(1) rf have eq: "bw_ReadFrom_loop Write rf Read b r c = Some (b1\<lparr>bw_wr := w', bw_err := e\<rparr>, r', c + nn, e)"
      by simp
    have str: "written (bw_wr b1) = bw_stream written b" using fl(4) rf(1,3) by (simp add: bw_stream_def)
    then have "bw_stream written (b1\<lparr>bw_wr := w', bw_err := e\<rparr>) = bw_stream written b @ rest r" if "e = None"
      using F(2) rf(3) that by (simp add: bw_stream_def)
    with eq fl(1,2) F(2) show ?thesis by (auto simp: bw_ok_def)
  next
    case buf
    let ?p = "drop (bw_n b1) (bw_buf b1)"
    have p: "?p \<noteq> []" using fl(4) buf(1) by simp
    from bw_read_ok [OF less.prems(3) p, of maxConsecutiveEmptyReads] obtain r' q m e where
      r': "bw_read maxConsecutiveEmptyReads Read r ?p = Some (r', q, m, e)" "valid r'" "length q = length ?p" "m \<le> length ?p"
        "rest r = take m q @ rest r'" "e = Some EOF \<longrightarrow> rest r' = []" "m \<noteq> 0 \<or> e \<noteq> None" by blast
    let ?b = "b1\<lparr>bw_buf := take (bw_n b1) (bw_buf b1) @ q, bw_n := bw_n b1 + m\<rparr>"
    have ok: "bw_ok ?b" "bw_err ?b = None" "length (bw_buf ?b) = length (bw_buf b)"
      using fl r'(3,4) buf(1) by (auto simp: bw_ok_def)
    have "bw_stream written ?b = bw_stream written b1 @ take m q"
      using r'(3,4) fl(1) by (simp add: bw_stream_def bw_ok_def)
    then have str: "bw_stream written ?b = bw_stream written b @ take m q" using fl(4) buf(1) by simp
    show ?thesis
    proof (cases "e = None")
      case True
      have "bw_ReadFrom_loop Write rf Read b r c = bw_ReadFrom_loop Write rf Read ?b r' (c + m)"
        using unf buf r'(1) True by (cases rf) simp_all
      moreover have "length (rest r') < length (rest r)" using r'(3,4,5,7) True by simp
      moreover note less.hyps [OF _ ok(1,2) r'(2), of "c + m"]
      ultimately show ?thesis using r'(3,4,5) str ok(3) by auto
    next
      case err: False
      show ?thesis
      proof (cases "e = Some EOF \<and> bw_Available ?b = 0")
        case True
        obtain b2 e2 where b2: "bw_Flush Write ?b = (b2, e2)" by fastforce
        have "bw_ReadFrom_loop Write rf Read b r c = Some (b2, r', c + m, e2)"
          using unf buf r'(1) True b2 by (cases rf) simp_all
        with Flush_ok [OF ok(1) b2] r'(3-6) True str ok(3) show ?thesis by (auto simp: bw_stream_def)
      next
        case False
        then have "bw_ReadFrom_loop Write rf Read b r c = Some (?b, r', c + m, if e = Some EOF then None else e)"
          using unf buf r'(1) err False by (cases rf) (auto simp: Let_def)
        with ok str r'(3-6) err show ?thesis by auto
      qed
    qed
  qed
qed

lemma ReadFrom_ok:
  assumes "bw_ok b" "valid r"
  shows "\<exists>b' r' n e. bw_ReadFrom Write rf Read b r = Some (b', r', n, e) \<and> bw_ok b' \<and>
    length (bw_buf b') = length (bw_buf b) \<and>
    (e = None \<longrightarrow> bw_err b = None \<and> bw_err b' = None \<and> n = length (rest r) \<and>
       bw_stream written b' = bw_stream written b @ rest r)"
  using ReadFrom_loop_ok [OF assms(1) _ assms(2), of 0] assms(1)
  by (cases "bw_err b") (auto simp: bw_ReadFrom_def)

end

context reliable_copy
begin

lemma ReadFrom_loop_live:
  assumes "bw_ok b" "bw_err b = None" "valid r" "bw_ReadFrom_loop Write rf Read b r c = Some (b', r', n, e)"
  shows "e = None"
  using assms
proof (induction "length (rest r)" arbitrary: b r c rule: less_induct)
  case less
  obtain b1 e1 where b1: "(if bw_Available b = 0 then bw_Flush Write b else (b, None)) = (b1, e1)" by fastforce
  from make_room [OF less.prems(1,2) b1] have fl: "bw_ok b1" "e1 = bw_err b1" "e1 = None \<longrightarrow> bw_n b1 < length (bw_buf b1)"
    by auto
  have e1: "e1 = None" using b1 Flush_live [OF w_live less.prems(1,2)] by (auto split: if_splits)
  note unf = bw_ReadFrom_loop.simps [of Write rf Read b r c, unfolded b1]
  show ?case
  proof (cases "rf \<noteq> None \<and> bw_n b1 = 0")
    case True
    then obtain F where F: "rf = Some F" by blast
    from rf_ok [OF F less.prems(3), of "bw_wr b1"] obtain w' r1 nn e' where
      F': "F (bw_wr b1) r = Some (w', r1, nn, e')" by blast
    from rf_live [OF F less.prems(3) F'] unf F F' True e1 less.prems(4) show ?thesis by simp
  next
    case False
    let ?p = "drop (bw_n b1) (bw_buf b1)"
    have p: "?p \<noteq> []" using fl(3) e1 by simp
    from bw_read_ok [OF less.prems(3) p, of maxConsecutiveEmptyReads] obtain r2 q m e' where
      r': "bw_read maxConsecutiveEmptyReads Read r ?p = Some (r2, q, m, e')" "valid r2" "length q = length ?p" "m \<le> length ?p"
        "rest r = take m q @ rest r2" "m \<noteq> 0 \<or> e' \<noteq> None" by blast
    have live: "e' = None \<or> e' = Some EOF"
      using bw_read_live [OF less.prems(3) p] r'(1) by (simp add: maxConsecutiveEmptyReads_def numeral_eq_Suc del: bw_read.simps)
    let ?b = "b1\<lparr>bw_buf := take (bw_n b1) (bw_buf b1) @ q, bw_n := bw_n b1 + m\<rparr>"
    have ok: "bw_ok ?b" "bw_err ?b = None" using fl e1 r'(3,4) by (auto simp: bw_ok_def)
    show ?thesis
    proof (cases "e' = None")
      case True
      have "bw_ReadFrom_loop Write rf Read ?b r2 (c + m) = Some (b', r', n, e)"
        using unf False r'(1) True e1 less.prems(4) by (cases rf) simp_all
      moreover have "length (rest r2) < length (rest r)" using r'(3-6) True by simp
      ultimately show ?thesis using less.hyps [OF _ ok r'(2)] by blast
    next
      case False
      with live have "e' = Some EOF" by simp
      with unf \<open>\<not> (rf \<noteq> None \<and> bw_n b1 = 0)\<close> r'(1) e1 less.prems(4) Flush_live [OF w_live ok] show ?thesis
        by (cases rf) (auto simp: Let_def split: if_splits prod.splits)
    qed
  qed
qed


lemma ReadFrom_reliable:
  assumes "bw_ok b" "bw_err b = None" "valid r"
  shows "\<exists>b' r'. bw_ReadFrom Write rf Read b r = Some (b', r', length (rest r), None) \<and> bw_ok b' \<and>
    bw_err b' = None \<and> length (bw_buf b') = length (bw_buf b) \<and> bw_stream written b' = bw_stream written b @ rest r"
proof -
  from ReadFrom_ok [OF assms(1,3)] obtain b' r' n e where
    r: "bw_ReadFrom Write rf Read b r = Some (b', r', n, e)" "bw_ok b'" "length (bw_buf b') = length (bw_buf b)"
      "e = None \<longrightarrow> bw_err b' = None \<and> n = length (rest r) \<and> bw_stream written b' = bw_stream written b @ rest r" by blast
  from ReadFrom_loop_live [OF assms, of 0 b' r' n e] r(1) assms(2) have "e = None" by (simp add: bw_ReadFrom_def)
  with r show ?thesis by blast
qed

end

text \<open>A writer that keeps what it is given, as \<open>bytes.Buffer\<close> or a file opened for writing.\<close>

definition mem_Write :: "bytes Write" where
  "mem_Write w p = (w @ p, length p, None)"

interpretation mem_file: io_writer mem_Write id
  by unfold_locales (auto simp: mem_Write_def)

lemma mem_Write_live: "never_fails mem_Write"
  by (simp add: never_fails_def mem_Write_def)

end
