(* ===== verification/Go_Bufio.thy ===== *)
theory Go_Bufio
  imports Go_IO
begin

text \<open>
  More of Go's standard library, as the log uses it: \<open>bufio.Reader\<close>, \<open>hash/crc32\<close>, \<open>io.TeeReader\<close> and the
  variable-length integers of \<open>encoding/binary\<close>; and \<open>internal/util/simple_reader_at_reader.go\<close>. A buffered
  reader over a reader that does not fail is the stream of the bytes it has buffered followed by what the
  reader has left.
\<close>

section \<open>\<open>bufio.Reader\<close>\<close>

record 'r bufio_Reader =
  br_rd :: 'r
  br_buf :: bytes
  br_r :: nat
  br_w :: nat
  br_err :: "go_error option"

definition bufio_NewReaderSize :: "'r \<Rightarrow> nat \<Rightarrow> 'r bufio_Reader" where
  "bufio_NewReaderSize rd sz = \<lparr>br_rd = rd, br_buf = replicate (max sz 16) 0, br_r = 0, br_w = 0, br_err = None\<rparr>"

definition br_Size :: "'r bufio_Reader \<Rightarrow> nat" where
  "br_Size b = length (br_buf b)"

definition br_Buffered :: "'r bufio_Reader \<Rightarrow> nat" where
  "br_Buffered b = br_w b - br_r b"

text \<open>\<open>fill\<close> slides the data to the start of the buffer and reads once, trying again after empty reads.\<close>

definition br_fill :: "'r Read \<Rightarrow> 'r bufio_Reader \<Rightarrow> 'r bufio_Reader option" where
  "br_fill Read b =
     (let d = take (br_w b - br_r b) (drop (br_r b) (br_buf b));
          b = b\<lparr>br_buf := go_copy (br_buf b) 0 d, br_r := 0, br_w := br_w b - br_r b\<rparr>
      in if br_w b \<ge> length (br_buf b) then None
         else do {
           (rd, q, n, err) \<leftarrow> bw_read maxConsecutiveEmptyReads Read (br_rd b) (drop (br_w b) (br_buf b));
           Some (b\<lparr>br_rd := rd, br_buf := take (br_w b) (br_buf b) @ q, br_w := br_w b + n, br_err := err\<rparr>)
         })"

partial_function (option) br_fill_to :: "'r Read \<Rightarrow> nat \<Rightarrow> 'r bufio_Reader \<Rightarrow> 'r bufio_Reader option" where
  "br_fill_to Read n b =
     (if br_w b - br_r b < n \<and> br_w b - br_r b < length (br_buf b) \<and> br_err b = None
      then do { b \<leftarrow> br_fill Read b; br_fill_to Read n b }
      else Some b)"

text \<open>\<open>Peek\<close> returns the next \<open>n\<close> bytes without consuming them, fewer with an error. An error held by the reader is
  returned once.\<close>

definition br_Peek :: "'r Read \<Rightarrow> 'r bufio_Reader \<Rightarrow> nat \<Rightarrow> ('r bufio_Reader \<times> bytes \<times> go_error option) option" where
  "br_Peek Read b n = do {
     b \<leftarrow> br_fill_to Read n b;
     if n > length (br_buf b)
     then Some (b, take (br_w b - br_r b) (drop (br_r b) (br_buf b)), Some ErrBufferFull)
     else let avail = br_w b - br_r b
       in if avail < n
          then Some (b\<lparr>br_err := None\<rparr>, take avail (drop (br_r b) (br_buf b)),
                 if br_err b = None then Some ErrBufferFull else br_err b)
          else Some (b, take n (drop (br_r b) (br_buf b)), None)
   }"

partial_function (option) br_Discard_loop :: "'r Read \<Rightarrow> 'r bufio_Reader \<Rightarrow> nat \<Rightarrow> nat \<Rightarrow>
    ('r bufio_Reader \<times> nat \<times> go_error option) option" where
  "br_Discard_loop Read b n remain = do {
     b \<leftarrow> (if br_Buffered b = 0 then br_fill Read b else Some b);
     let skip = min (br_Buffered b) remain;
     let b = b\<lparr>br_r := br_r b + skip\<rparr>;
     let remain = remain - skip;
     if remain = 0 then Some (b, n, None)
     else if br_err b \<noteq> None then Some (b\<lparr>br_err := None\<rparr>, n - remain, br_err b)
     else br_Discard_loop Read b n remain
   }"

definition br_Discard :: "'r Read \<Rightarrow> 'r bufio_Reader \<Rightarrow> nat \<Rightarrow> ('r bufio_Reader \<times> nat \<times> go_error option) option" where
  "br_Discard Read b n = (if n = 0 then Some (b, 0, None) else br_Discard_loop Read b n n)"

partial_function (option) br_ReadByte :: "'r Read \<Rightarrow> 'r bufio_Reader \<Rightarrow> ('r bufio_Reader \<times> byte \<times> go_error option) option" where
  "br_ReadByte Read b =
     (if br_r b = br_w b
      then if br_err b \<noteq> None then Some (b\<lparr>br_err := None\<rparr>, 0, br_err b)
        else do { b \<leftarrow> br_fill Read b; br_ReadByte Read b }
      else Some (b\<lparr>br_r := Suc (br_r b)\<rparr>, br_buf b ! br_r b, None))"

text \<open>What the reader stands for. After an end-of-file nothing is left below it.\<close>

definition br_stream :: "('r \<Rightarrow> bytes) \<Rightarrow> 'r bufio_Reader \<Rightarrow> bytes" where
  "br_stream rest b = take (br_w b - br_r b) (drop (br_r b) (br_buf b)) @ rest (br_rd b)"

definition br_ok :: "('r \<Rightarrow> bytes) \<Rightarrow> ('r \<Rightarrow> bool) \<Rightarrow> nat \<Rightarrow> 'r bufio_Reader \<Rightarrow> bool" where
  "br_ok rest valid sz b \<longleftrightarrow> length (br_buf b) = sz \<and> 0 < sz \<and> br_r b \<le> br_w b \<and> br_w b \<le> sz \<and> valid (br_rd b) \<and>
     (br_err b = None \<or> br_err b = Some EOF \<and> rest (br_rd b) = [])"

lemma br_new:
  "valid rd \<Longrightarrow> br_ok rest valid (max sz 16) (bufio_NewReaderSize rd sz)"
  "br_stream rest (bufio_NewReaderSize rd sz) = rest rd"
  by (simp_all add: br_ok_def br_stream_def bufio_NewReaderSize_def)

context reliable_reader
begin

lemma fill_ok:
  assumes ok: "br_ok rest valid sz b" and e: "br_err b = None" and room: "br_w b - br_r b < sz"
  obtains b' where "br_fill Read b = Some b'" "br_ok rest valid sz b'" "br_stream rest b' = br_stream rest b"
    "br_r b' = 0" "br_w b - br_r b \<le> br_w b'" "br_err b' = None \<longrightarrow> br_w b - br_r b < br_w b'"
    "br_err b' = Some EOF \<longrightarrow> br_w b' = length (br_stream rest b)"
proof -
  let ?k = "br_w b - br_r b"
  let ?d = "take ?k (drop (br_r b) (br_buf b))"
  let ?b1 = "b\<lparr>br_buf := go_copy (br_buf b) 0 ?d, br_r := 0, br_w := ?k\<rparr>"
  have o: "length (br_buf b) = sz" "br_r b \<le> br_w b" "br_w b \<le> sz" "valid (br_rd b)" using ok by (auto simp: br_ok_def)
  have d: "length ?d = ?k" using o by simp
  have len: "length (go_copy (br_buf b) 0 ?d) = sz" using d o room by simp
  have tk: "take ?k (go_copy (br_buf b) 0 ?d) = ?d"
    using take_go_copy [of 0 ?d "br_buf b"] d o room by simp
  let ?p = "drop ?k (go_copy (br_buf b) 0 ?d)"
  have p: "?p \<noteq> []" "length ?p = sz - ?k" using len room by simp_all
  from bw_read_ok [OF o(4) p(1), of maxConsecutiveEmptyReads] obtain r' q m e where
    r: "bw_read maxConsecutiveEmptyReads Read (br_rd b) ?p = Some (r', q, m, e)" "valid r'" "length q = sz - ?k" "m \<le> sz - ?k"
      "rest (br_rd b) = take m q @ rest r'" "e = Some EOF \<longrightarrow> rest r' = []" "m \<noteq> 0 \<or> e \<noteq> None" unfolding p(2) by blast
  have live: "e = None \<or> e = Some EOF"
    using bw_read_live [OF o(4) p(1)] r(1) by (simp add: maxConsecutiveEmptyReads_def numeral_eq_Suc del: bw_read.simps)
  let ?b' = "?b1\<lparr>br_rd := r', br_buf := take ?k (go_copy (br_buf b) 0 ?d) @ q, br_w := ?k + m, br_err := e\<rparr>"
  show thesis
  proof (rule that [of ?b'])
    show "br_fill Read b = Some ?b'" unfolding br_fill_def Let_def using r(1) len room by simp
    show "br_ok rest valid sz ?b'" using r(2-4,6) o room live d tk by (auto simp: br_ok_def)
    have "br_stream rest ?b' = ?d @ take m q @ rest r'"
      unfolding br_stream_def using d r(3,4) tk by simp
    then show st: "br_stream rest ?b' = br_stream rest b" using r(5) by (simp add: br_stream_def)
    show "br_err ?b' = Some EOF \<longrightarrow> br_w ?b' = length (br_stream rest b)"
      unfolding st [symmetric] using r(3,4,6) d tk by (simp add: br_stream_def)
  qed (use r(7) in auto)
qed

lemma fill_to_ok:
  assumes "br_ok rest valid sz b" "n \<le> sz"
  obtains b' where "br_fill_to Read n b = Some b'" "br_ok rest valid sz b'" "br_stream rest b' = br_stream rest b"
    "n \<le> br_w b' - br_r b' \<or> br_err b' = Some EOF \<and> br_w b' - br_r b' = length (br_stream rest b)"
proof -
  have "\<exists>b'. br_fill_to Read n b = Some b' \<and> br_ok rest valid sz b' \<and> br_stream rest b' = br_stream rest b \<and>
    (n \<le> br_w b' - br_r b' \<or> br_err b' = Some EOF \<and> br_w b' - br_r b' = length (br_stream rest b))"
    using assms
  proof (induction "sz - (br_w b - br_r b)" arbitrary: b rule: less_induct)
    case less
    have o: "length (br_buf b) = sz" "br_r b \<le> br_w b" "br_w b \<le> sz" using less.prems(1) by (auto simp: br_ok_def)
    consider (full) "n \<le> br_w b - br_r b" | (eof) "br_w b - br_r b < n" "br_err b \<noteq> None" | (fill) "br_w b - br_r b < n" "br_err b = None"
      by linarith
    then show ?case
    proof cases
      case full
      then have "br_fill_to Read n b = Some b" by (subst br_fill_to.simps) simp
      with full less.prems(1) show ?thesis by blast
    next
      case eof
      then have "br_fill_to Read n b = Some b" by (subst br_fill_to.simps) auto
      moreover have "br_err b = Some EOF" "br_w b - br_r b = length (br_stream rest b)"
        using eof(2) less.prems(1) o by (auto simp: br_ok_def br_stream_def)
      ultimately show ?thesis using less.prems(1) by blast
    next
      case fill
      then have room: "br_w b - br_r b < sz" using less.prems(2) by simp
      obtain b1 where b1: "br_fill Read b = Some b1" "br_ok rest valid sz b1" "br_stream rest b1 = br_stream rest b" "br_r b1 = 0"
        "br_err b1 = None \<longrightarrow> br_w b - br_r b < br_w b1" "br_err b1 = Some EOF \<longrightarrow> br_w b1 = length (br_stream rest b)"
        using fill_ok [OF less.prems(1) fill(2) room] by metis
      have step: "br_fill_to Read n b = br_fill_to Read n b1"
        using fill room o(1) b1(1) by (subst br_fill_to.simps) simp
      show ?thesis
      proof (cases "br_err b1 = None")
        case True
        with b1(4,5) room have "sz - (br_w b1 - br_r b1) < sz - (br_w b - br_r b)" by simp
        from less.hyps [OF this b1(2) less.prems(2)] show ?thesis unfolding step b1(3) .
      next
        case False
        then have "br_fill_to Read n b1 = Some b1" by (subst br_fill_to.simps) auto
        moreover have "br_err b1 = Some EOF" using False b1(2) by (auto simp: br_ok_def)
        ultimately show ?thesis unfolding step using b1 by auto
      qed
    qed
  qed
  with that show thesis by blast
qed

lemma Peek_ok:
  assumes "br_ok rest valid sz b" "n \<le> sz"
  obtains b' where "br_Peek Read b n = Some (b', take n (br_stream rest b), if n \<le> length (br_stream rest b) then None else Some EOF)"
    "br_ok rest valid sz b'" "br_stream rest b' = br_stream rest b" "n \<le> length (br_stream rest b) \<longrightarrow> n \<le> br_w b' - br_r b'"
proof -
  obtain b1 where b1: "br_fill_to Read n b = Some b1" "br_ok rest valid sz b1" "br_stream rest b1 = br_stream rest b"
    "n \<le> br_w b1 - br_r b1 \<or> br_err b1 = Some EOF \<and> br_w b1 - br_r b1 = length (br_stream rest b)"
    using fill_to_ok [OF assms] by metis
  have o: "length (br_buf b1) = sz" "br_r b1 \<le> br_w b1" "br_w b1 \<le> sz" using b1(2) by (auto simp: br_ok_def)
  have len: "length (take (br_w b1 - br_r b1) (drop (br_r b1) (br_buf b1))) = br_w b1 - br_r b1" using o by simp
  have st: "br_stream rest b = take (br_w b1 - br_r b1) (drop (br_r b1) (br_buf b1)) @ rest (br_rd b1)"
    using b1(3) by (simp add: br_stream_def)
  show thesis
  proof (cases "n \<le> br_w b1 - br_r b1")
    case True
    then have "n \<le> length (br_stream rest b)" "take n (br_stream rest b) = take n (drop (br_r b1) (br_buf b1))"
      unfolding st using len by (simp_all add: min_def)
    with True b1 assms(2) o show ?thesis
      by (intro that [of b1]) (simp_all add: br_Peek_def)
  next
    case False
    with b1(4) have e: "br_err b1 = Some EOF" "br_w b1 - br_r b1 = length (br_stream rest b)" by auto
    then have "rest (br_rd b1) = []" using st len by simp
    then have "take n (br_stream rest b) = take (br_w b1 - br_r b1) (drop (br_r b1) (br_buf b1))"
      "br_stream rest (b1\<lparr>br_err := None\<rparr>) = br_stream rest b" "br_ok rest valid sz (b1\<lparr>br_err := None\<rparr>)"
      using st False len b1(2) by (simp_all add: br_stream_def br_ok_def)
    with False b1 e assms(2) o show ?thesis
      by (intro that [of "b1\<lparr>br_err := None\<rparr>"]) (simp_all add: br_Peek_def)
  qed
qed

lemma Discard_ok:
  assumes "br_ok rest valid sz b" "n \<le> br_w b - br_r b"
  shows "br_Discard Read b n = Some (b\<lparr>br_r := br_r b + n\<rparr>, n, None)" "br_ok rest valid sz (b\<lparr>br_r := br_r b + n\<rparr>)"
    "br_stream rest (b\<lparr>br_r := br_r b + n\<rparr>) = drop n (br_stream rest b)"
proof -
  have o: "length (br_buf b) = sz" "br_r b \<le> br_w b" "br_w b \<le> sz" using assms(1) by (auto simp: br_ok_def)
  show "br_Discard Read b n = Some (b\<lparr>br_r := br_r b + n\<rparr>, n, None)"
  proof (cases "n = 0")
    case False
    then have "br_Buffered b \<noteq> 0" "min (br_Buffered b) n = n" "n \<le> br_Buffered b" using assms(2) by (simp_all add: br_Buffered_def)
    with False show ?thesis unfolding br_Discard_def by (subst br_Discard_loop.simps) simp
  qed (simp add: br_Discard_def)
  show "br_ok rest valid sz (b\<lparr>br_r := br_r b + n\<rparr>)" using assms by (auto simp: br_ok_def)
  show "br_stream rest (b\<lparr>br_r := br_r b + n\<rparr>) = drop n (br_stream rest b)"
    using assms(2) o by (simp add: br_stream_def drop_take add.commute)
qed

lemma ReadByte_ok:
  assumes "br_ok rest valid sz b"
  obtains b' where "br_ReadByte Read b =
      Some (b', case br_stream rest b of [] \<Rightarrow> 0 | x # xs \<Rightarrow> x, if br_stream rest b = [] then Some EOF else None)"
    "br_ok rest valid sz b'" "br_stream rest b' = drop 1 (br_stream rest b)"
proof -
  have now: "br_ReadByte Read b = Some (b\<lparr>br_r := Suc (br_r b)\<rparr>, case br_stream rest b of [] \<Rightarrow> 0 | x # xs \<Rightarrow> x, None) \<and>
      br_stream rest b \<noteq> []" if lt: "br_ok rest valid sz b" "br_r b < br_w b" for b
  proof -
    have o: "length (br_buf b) = sz" "br_w b \<le> sz" using lt(1) by (auto simp: br_ok_def)
    have dr: "drop (br_r b) (br_buf b) = br_buf b ! br_r b # drop (Suc (br_r b)) (br_buf b)"
      using lt(2) o by (intro Cons_nth_drop_Suc [symmetric]) simp
    obtain k where "br_w b - br_r b = Suc k" using lt(2) by (metis Suc_diff_Suc)
    then have st: "br_stream rest b = br_buf b ! br_r b # take k (drop (Suc (br_r b)) (br_buf b)) @ rest (br_rd b)"
      unfolding br_stream_def dr by simp
    show ?thesis unfolding st using lt(2) by (subst br_ReadByte.simps) simp
  qed
  have keep: "br_ok rest valid sz (b\<lparr>br_r := Suc (br_r b)\<rparr>) \<and> br_stream rest (b\<lparr>br_r := Suc (br_r b)\<rparr>) = drop 1 (br_stream rest b)"
    if "br_ok rest valid sz b" "br_r b < br_w b" for b
    using Discard_ok(2,3) [of sz b 1] that by simp
  show thesis
  proof (cases "br_r b < br_w b")
    case True
    show ?thesis
      by (rule that [of "b\<lparr>br_r := Suc (br_r b)\<rparr>"]) (use now [OF assms True] keep [OF assms True] in simp_all)
  next
    case False
    then have eq: "br_r b = br_w b" using assms by (simp add: br_ok_def)
    show ?thesis
    proof (cases "br_err b = None")
      case err: False
      then have "br_err b = Some EOF" "rest (br_rd b) = []" using assms by (auto simp: br_ok_def)
      then show ?thesis using eq assms
        by (intro that [of "b\<lparr>br_err := None\<rparr>"]) (subst br_ReadByte.simps, auto simp: br_stream_def br_ok_def)
    next
      case True
      have "br_w b - br_r b < sz" using eq assms by (simp add: br_ok_def)
      then obtain b1 where b1: "br_fill Read b = Some b1" "br_ok rest valid sz b1" "br_stream rest b1 = br_stream rest b" "br_r b1 = 0"
        "br_err b1 = None \<longrightarrow> br_w b - br_r b < br_w b1" "br_err b1 = Some EOF \<longrightarrow> br_w b1 = length (br_stream rest b)"
        using fill_ok [OF assms True] by metis
      have step: "br_ReadByte Read b = br_ReadByte Read b1" using eq True b1(1) by (subst br_ReadByte.simps) simp
      show ?thesis
      proof (cases "br_r b1 < br_w b1")
        case True
        show ?thesis
          by (rule that [of "b1\<lparr>br_r := Suc (br_r b1)\<rparr>"])
            (use now [OF b1(2) True] keep [OF b1(2) True] b1(3) in \<open>simp_all add: step\<close>)
      next
        case empty: False
        then have e: "br_err b1 = Some EOF" "br_stream rest b = []" "rest (br_rd b1) = []" "br_w b1 = 0"
          using b1(2,4,5,6) by (auto simp: br_ok_def)
        have "br_ReadByte Read b = Some (b1\<lparr>br_err := None\<rparr>, 0, Some EOF)"
          unfolding step using e b1(4) by (subst br_ReadByte.simps) simp
        moreover have "br_ok rest valid sz (b1\<lparr>br_err := None\<rparr>)" "br_stream rest (b1\<lparr>br_err := None\<rparr>) = []"
          using b1(2) e by (simp_all add: br_ok_def br_stream_def)
        ultimately show ?thesis using e(2) by (intro that [of "b1\<lparr>br_err := None\<rparr>"]) simp_all
      qed
    qed
  qed
qed

end

section \<open>\<open>hash/crc32\<close>\<close>

text \<open>The reflected IEEE polynomial, a bit at a time. A digest is its current sum, and \<open>Write\<close> continues it.\<close>

definition crc32_bit :: "32 word \<Rightarrow> 32 word" where
  "crc32_bit c = (if bit c 0 then drop_bit 1 c XOR 0xEDB88320 else drop_bit 1 c)"

definition crc32_byte :: "byte \<Rightarrow> 32 word \<Rightarrow> 32 word" where
  "crc32_byte b c = (crc32_bit ^^ 8) (c XOR ucast b)"

definition crc32_Update :: "32 word \<Rightarrow> bytes \<Rightarrow> 32 word" where
  "crc32_Update c p = NOT (fold crc32_byte p (NOT c))"

lemma crc32_Update_append: "crc32_Update (crc32_Update c p) q = crc32_Update c (p @ q)"
  by (simp add: crc32_Update_def)

lemma crc32_Update_Nil [simp]: "crc32_Update c [] = c"
  by (simp add: crc32_Update_def)

section \<open>Variable-length integers\<close>

fun put_uvarint :: "nat \<Rightarrow> bytes" where
  "put_uvarint x = (if x \<ge> 0x80 then (of_nat x OR 0x80) # put_uvarint (x div 128) else [of_nat x])"

declare put_uvarint.simps [simp del]

text \<open>\<open>ReadUvarint\<close> with \<open>n\<close> of its ten rounds left.\<close>

primrec ReadUvarint_loop :: "'r Read \<Rightarrow> nat \<Rightarrow> 'r bufio_Reader \<Rightarrow> nat \<Rightarrow> nat \<Rightarrow> ('r bufio_Reader \<times> nat \<times> go_error option) option" where
  "ReadUvarint_loop Read 0 r x s = Some (r, x, Some ErrOverflow)"
| "ReadUvarint_loop Read (Suc n) r x s = do {
     (r, b, err) \<leftarrow> br_ReadByte Read r;
     if err \<noteq> None then Some (r, x, if Suc n < 10 \<and> err = Some EOF then Some ErrUnexpectedEOF else err)
     else if unat b < 0x80
     then if n = 0 \<and> unat b > 1 then Some (r, x, Some ErrOverflow)
       else Some (r, u64 (x OR push_bit s (unat b)), None)
     else ReadUvarint_loop Read n r (u64 (x OR push_bit s (unat (b AND 0x7f)))) (s + 7)
   }"

definition ReadUvarint :: "'r Read \<Rightarrow> 'r bufio_Reader \<Rightarrow> ('r bufio_Reader \<times> nat \<times> go_error option) option" where
  "ReadUvarint Read r = ReadUvarint_loop Read 10 r 0 0"

lemma ReadUvarint_Suc: "ReadUvarint Read r = ReadUvarint_loop Read (Suc 9) r 0 0"
proof -
  have "(10 :: nat) = Suc 9" by simp
  then show ?thesis unfolding ReadUvarint_def by (simp only:)
qed

lemma or_push_bit: "x < 2 ^ s \<Longrightarrow> x OR push_bit s v = x + v * 2 ^ s" for x v :: nat
proof -
  assume x: "x < 2 ^ s"
  have "x AND push_bit s v = 0"
  proof (rule bit_eqI)
    fix n
    have "\<not> bit x n" if "s \<le> n"
    proof -
      have "x < 2 ^ n" using x that by (meson less_le_trans one_le_numeral power_increasing)
      then show ?thesis by (simp add: bit_iff_odd)
    qed
    then show "bit (x AND push_bit s v) n \<longleftrightarrow> bit (0 :: nat) n" by (auto simp: bit_and_iff bit_push_bit_iff)
  qed
  then have "x OR push_bit s v = x + push_bit s v" by (simp add: disjunctive_add_eq_or)
  then show ?thesis by (simp add: push_bit_eq_mult)
qed

context reliable_reader
begin

lemma ReadUvarint_loop_ok:
  assumes "br_ok rest valid sz b" "br_stream rest b = put_uvarint v @ t" "v < 2 ^ (7 * n)" "0 < n" "x < 2 ^ s" "s + 7 * n \<le> 63"
  shows "\<exists>b'. ReadUvarint_loop Read (Suc n) b x s = Some (b', x + v * 2 ^ s, None) \<and> br_ok rest valid sz b' \<and> br_stream rest b' = t"
  using assms
proof (induction n arbitrary: b v x s)
  case (Suc n)
  obtain b1 where b1: "br_ReadByte Read b = Some (b1, case br_stream rest b of [] \<Rightarrow> 0 | y # ys \<Rightarrow> y,
      if br_stream rest b = [] then Some EOF else None)" "br_ok rest valid sz b1" "br_stream rest b1 = drop 1 (br_stream rest b)"
    using ReadByte_ok [OF Suc.prems(1)] by metis
  have or: "u64 (x OR push_bit s y) = x + y * 2 ^ s" if "y < 2 ^ (7 * Suc n)" for y :: nat
  proof -
    have "Suc y * 2 ^ s \<le> 2 ^ (7 * Suc n) * 2 ^ s" using that by (intro mult_le_mono1) simp
    also have "\<dots> = (2 :: nat) ^ (s + 7 * Suc n)" by (simp add: power_add)
    also have "\<dots> \<le> 2 ^ 63" using Suc.prems(6) by (intro power_increasing) simp_all
    finally have "x + y * 2 ^ s < 2 ^ 64" using Suc.prems(5) by simp
    then show ?thesis using Suc.prems(5) by (simp only: or_push_bit u64_id)
  qed
  show ?case
  proof (cases "v < 128")
    case True
    then have p: "put_uvarint v = [of_nat v]" by (subst put_uvarint.simps) simp
    have u: "unat (of_nat v :: byte) = v" using True by (simp add: unat_of_nat)
    note or [OF Suc.prems(3)]
    then show ?thesis using b1 Suc.prems(2) True u by (simp add: p)
  next
    case False
    let ?c = "of_nat v OR 0x80 :: byte"
    have p: "put_uvarint v = ?c # put_uvarint (v div 128)" using False by (subst put_uvarint.simps) simp
    have low: "unat (?c AND 0x7f) = v mod 128"
    proof -
      have "?c AND 0x7f = of_nat v AND (0x7f :: byte)" by (simp add: word_ao_dist)
      also have "\<dots> = of_nat v AND mask 7" by (simp add: mask_eq_exp_minus_1)
      also have "\<dots> = of_nat (v mod 128)" using take_bit_of_nat [of 7 v, where ?'a = "8 word"]
        by (simp add: take_bit_eq_mask [symmetric] take_bit_eq_mod [of _ v])
      finally show ?thesis by (simp add: unat_of_nat)
    qed
    have high: "\<not> unat ?c < 128"
    proof -
      have "0x80 \<le> ?c" by (rule le_word_or1)
      then show ?thesis by (simp add: word_le_nat_alt)
    qed
    have n: "0 < n" using Suc.prems(3) False by (cases n) auto
    have "v < 2 ^ (7 * n) * 128" using Suc.prems(3) by (simp add: power_add mult.commute)
    then have v': "v div 128 < 2 ^ (7 * n)" by (rule less_mult_imp_div_less)
    let ?x = "x + v mod 128 * 2 ^ s"
    have "v mod 128 < 2 ^ (7 * Suc n)" using Suc.prems(3) by (meson le_less_trans mod_less_eq_dividend)
    note x = or [OF this]
    have "Suc (v mod 128) * 2 ^ s \<le> 128 * 2 ^ s" by (rule mult_le_mono1) (simp add: Suc_leI)
    then have "v mod 128 * 2 ^ s + 2 ^ s \<le> 128 * 2 ^ s" by (simp only: mult_Suc add.commute)
    moreover have "(2 :: nat) ^ (s + 7) = 128 * 2 ^ s" by (simp add: power_add)
    ultimately have x': "?x < 2 ^ (s + 7)" using Suc.prems(5) by linarith
    from Suc.IH [OF b1(2), of "v div 128" ?x "s + 7"] v' n x' Suc.prems(2,6) b1(3)
    obtain b2 where b2: "ReadUvarint_loop Read (Suc n) b1 ?x (s + 7) = Some (b2, ?x + v div 128 * 2 ^ (s + 7), None)"
      "br_ok rest valid sz b2" "br_stream rest b2 = t" by (auto simp: p)
    have "v div 128 * 2 ^ (s + 7) = v div 128 * 128 * 2 ^ s" by (simp add: power_add)
    moreover have "v * 2 ^ s = (v mod 128 + v div 128 * 128) * 2 ^ s" by (simp only: mod_div_mult_eq)
    ultimately have "?x + v div 128 * 2 ^ (s + 7) = x + v * 2 ^ s" by (simp only: add_mult_distrib add.assoc)
    then show ?thesis
      using b1(1) b2 Suc.prems(2) low high x by (simp add: p del: ReadUvarint_loop.simps add: ReadUvarint_loop.simps(2) [of Read "Suc n"])
  qed
qed simp

lemma ReadUvarint_ok:
  assumes "br_ok rest valid sz b" "br_stream rest b = put_uvarint v @ t" "v < 2 ^ 63"
  obtains b' where "ReadUvarint Read b = Some (b', v, None)" "br_ok rest valid sz b'" "br_stream rest b' = t"
proof -
  have "v < 2 ^ (7 * 9)" "(0 :: nat) < 9" "(0 :: nat) < 2 ^ 0" "0 + 7 * 9 \<le> (63 :: nat)" using assms(3) by simp_all
  from ReadUvarint_loop_ok [OF assms(1,2) this] obtain b' where
    "ReadUvarint_loop Read (Suc 9) b 0 0 = Some (b', 0 + v * 2 ^ 0, None)" "br_ok rest valid sz b'" "br_stream rest b' = t" by blast
  then show thesis by (intro that) (simp_all only: ReadUvarint_Suc power_0 mult_1_right add_0)
qed

lemma ReadUvarint_end:
  assumes "br_ok rest valid sz b" "br_stream rest b = []"
  obtains b' x where "ReadUvarint Read b = Some (b', x, Some EOF)" "br_ok rest valid sz b'" "br_stream rest b' = []"
proof -
  obtain b1 where b1: "br_ReadByte Read b = Some (b1, 0, Some EOF)" "br_ok rest valid sz b1" "br_stream rest b1 = []"
    using ReadByte_ok [OF assms(1)] unfolding assms(2) by auto
  have "ReadUvarint_loop Read (Suc 9) b 0 0 = Some (b1, 0, Some EOF)"
    unfolding ReadUvarint_loop.simps b1(1) by simp
  then show thesis using that b1(2,3) by (simp only: ReadUvarint_Suc)
qed

end

section \<open>Readers over files\<close>

text \<open>\<open>io.TeeReader\<close> into a digest.\<close>

definition tee_Read :: "'r Read \<Rightarrow> ('r \<times> 32 word) Read" where
  "tee_Read Read rc p = (case rc of (r, crc) \<Rightarrow> do {
     (r, q, n, err) \<leftarrow> Read r p;
     Some ((r, if n > 0 then crc32_Update crc (take n q) else crc), q, n, err)
   })"

text \<open>The digest of a reader with sum \<open>K\<close>, wherever the reading has come to.\<close>

definition tee_valid :: "('r \<Rightarrow> bytes) \<Rightarrow> ('r \<Rightarrow> bool) \<Rightarrow> 32 word \<Rightarrow> 'r \<times> 32 word \<Rightarrow> bool" where
  "tee_valid rest valid K rc \<longleftrightarrow> valid (fst rc) \<and> crc32_Update (snd rc) (rest (fst rc)) = K"

context reliable_reader
begin

lemma tee: "reliable_reader (tee_Read Read) (\<lambda>rc. rest (fst rc)) (tee_valid rest valid K)"
proof (unfold_locales, goal_cases)
  case (1 rc p)
  then have v: "valid (fst rc)" by (simp add: tee_valid_def)
  from Read_ok [OF v 1(2)] obtain r' q m e where
    r: "Read (fst rc) p = Some (r', q, m, e)" "valid r'" "length q = length p" "m \<le> length p" "rest (fst rc) = take m q @ rest r'"
      "e = Some EOF \<longrightarrow> rest r' = []" by blast
  have "tee_Read Read rc p = Some ((r', crc32_Update (snd rc) (take m q)), q, m, e)"
    using r(1) by (cases "m = 0") (simp_all add: tee_Read_def case_prod_beta)
  with r 1(1) show ?case by (simp add: tee_valid_def crc32_Update_append)
next
  case (2 rc p rc' q m e)
  then obtain r' where r: "Read (fst rc) p = Some (r', q, m, e)"
    by (auto simp: tee_Read_def case_prod_beta split: bind_splits)
  have "valid (fst rc)" using 2(1) by (simp add: tee_valid_def)
  from Read_live [OF this 2(2) r] show ?case .
qed

end

text \<open>\<open>internal/util/simple_reader_at_reader.go\<close>\<close>

record SimpleReaderAtReader =
  simple_r :: ReaderAt
  simple_off :: int

definition NewSimpleReaderAtReader :: "ReaderAt \<Rightarrow> int \<Rightarrow> SimpleReaderAtReader" where
  "NewSimpleReaderAtReader r off = \<lparr>simple_r = r, simple_off = off\<rparr>"

definition SimpleReaderAtReader_Read :: "SimpleReaderAtReader Read" where
  "SimpleReaderAtReader_Read r b = do {
     (q, n, err) \<leftarrow> simple_r r b (simple_off r);
     Some (if n > 0 then r\<lparr>simple_off := s64 (simple_off r + n)\<rparr> else r, q, nat n, err)
   }"

definition simple_rest :: "bytes \<Rightarrow> SimpleReaderAtReader \<Rightarrow> bytes" where
  "simple_rest f r = drop (nat (simple_off r)) f"

definition simple_valid :: "ReaderAt \<Rightarrow> bytes \<Rightarrow> SimpleReaderAtReader \<Rightarrow> bool" where
  "simple_valid R f r \<longleftrightarrow> simple_r r = R \<and> 0 \<le> simple_off r \<and> nat (simple_off r) \<le> length f \<and> length f \<le> max_off"

text \<open>A section inside a file.\<close>

definition part_rest :: "bytes \<Rightarrow> SectionReader \<Rightarrow> bytes" where
  "part_rest f s = take (nat (sec_limit s - sec_off s)) (drop (nat (sec_off s)) f)"

definition part_valid :: "ReaderAt \<Rightarrow> bytes \<Rightarrow> SectionReader \<Rightarrow> bool" where
  "part_valid R f s \<longleftrightarrow> sec_r s = R \<and> 0 \<le> sec_off s \<and> sec_limit s \<le> int (length f)"

context reader_at
begin

lemma read_any:
  assumes "k \<le> length f"
  obtains q e where "R p (int k) = Some (q, int (min (length p) (length f - k)), e)" "length q = length p"
    "take (min (length p) (length f - k)) q = take (length p) (drop k f)" "e = None \<or> e = Some EOF"
    "e = Some EOF \<longrightarrow> length f \<le> k + length p" "length f < k + length p \<longrightarrow> e = Some EOF"
proof (cases "k + length p \<le> length f")
  case True
  from read_inside [OF this] obtain e where e: "R p (int k) = Some (take (length p) (drop k f), int (length p), e)"
    "e = None \<or> e = Some EOF \<and> k + length p = length f" by blast
  show ?thesis by (rule that [of "take (length p) (drop k f)" e]) (use True e in auto)
next
  case False
  then have lt: "length f < k + length p" by simp
  from read_past [OF assms lt] obtain q where q: "R p (int k) = Some (q, int (length f - k), Some EOF)"
    "take (length f - k) q = drop k f" "length q = length p" by blast
  have "min (length p) (length f - k) = length f - k" using lt by linarith
  then show ?thesis by (intro that [of q "Some EOF"]) (use lt q in auto)
qed

end

sublocale reader_at \<subseteq> simple: reliable_reader SimpleReaderAtReader_Read "simple_rest f" "simple_valid R f"
proof (unfold_locales, goal_cases)
  case (1 r p)
  define k where "k = nat (simple_off r)"
  have r: "simple_r r = R" "simple_off r = int k" "k \<le> length f" "length f \<le> max_off"
    using 1(1) by (auto simp: simple_valid_def k_def)
  let ?n = "min (length p) (length f - k)"
  obtain q e where q: "R p (int k) = Some (q, int ?n, e)" "length q = length p" "take ?n q = take (length p) (drop k f)"
    "e = Some EOF \<longrightarrow> length f \<le> k + length p" using read_any [OF r(3), of p] by metis
  have kn: "k + ?n \<le> length f" using r(3) by simp
  have "k + ?n \<le> max_off" using kn r(4) by linarith
  then have "int (k + ?n) \<le> int max_off" by (simp only: of_nat_le_iff)
  moreover have "int max_off < 2 ^ 63" by simp
  ultimately have s: "s64 (int k + int ?n) = int (k + ?n)" by (simp only: of_nat_add) (intro s64_id; linarith)
  let ?r = "r\<lparr>simple_off := int (k + ?n)\<rparr>"
  have "SimpleReaderAtReader_Read r p = Some (?r, q, ?n, e)"
  proof (cases "?n = 0")
    case True
    then have "r = ?r" using r(2) by simp
    with q(1) r True show ?thesis by (simp add: SimpleReaderAtReader_Read_def del: of_nat_min)
  next
    case False
    with q(1) r s show ?thesis by (simp add: SimpleReaderAtReader_Read_def del: of_nat_min)
  qed
  moreover have "simple_rest f r = take ?n q @ simple_rest f ?r"
  proof -
    have "drop (k + ?n) f = drop (length p) (drop k f)" by (simp add: min_def add.commute)
    then show ?thesis unfolding simple_rest_def q(3) using r(2) by (simp del: of_nat_min of_nat_add drop_drop)
  qed
  moreover have "simple_valid R f ?r" using r kn by (simp add: simple_valid_def)
  moreover have "e = Some EOF \<longrightarrow> simple_rest f ?r = []" using q(4) by (auto simp: simple_rest_def min_def)
  ultimately show ?case using q(2) by (metis min.cobounded1)
next
  case (2 r p r' q m e)
  define k where "k = nat (simple_off r)"
  have r: "simple_r r = R" "simple_off r = int k" "k \<le> length f" using 2(1) by (auto simp: simple_valid_def k_def)
  let ?n = "min (length p) (length f - k)"
  obtain q' e' where q: "R p (int k) = Some (q', int ?n, e')" "e' = None \<or> e' = Some EOF" "length f < k + length p \<longrightarrow> e' = Some EOF"
    using read_any [OF r(3), of p] by metis
  have "e = e'" "m = ?n" using 2(3) q(1) r by (auto simp: SimpleReaderAtReader_Read_def split: if_splits)
  with q(2,3) 2(2) r(3) show ?case by (auto simp: min_def split: if_splits)
qed

context reader_at
begin

lemma part_read:
  assumes "part_valid R f s" "p \<noteq> []"
    and "k = nat (sec_off s)" "n = nat (sec_limit s - sec_off s)" "l = min (length p) n"
  shows "n = 0 \<and> SectionReader_Read s p = Some (s, p, 0, Some EOF) \<or>
    0 < n \<and> (\<exists>e. SectionReader_Read s p = Some (s\<lparr>sec_off := int (k + l)\<rparr>, take l (drop k f) @ drop l p, l, e) \<and>
      (e = None \<or> e = Some EOF \<and> l = n)) \<and> k + n \<le> length f"
proof (cases "n = 0")
  case True
  with assms(4) show ?thesis by (simp add: SectionReader_Read_def)
next
  case False
  have s: "sec_r s = R" "sec_off s = int k" "sec_limit s = int (k + n)" "k + n \<le> length f"
    using assms(1,3,4) False by (auto simp: part_valid_def)
  have tl: "length (take l p) = l" using assms(5) by simp
  have "k + length (take l p) \<le> length f" using s(4) assms(5) by simp
  from read_inside [OF this] obtain e where e: "R (take l p) (int k) = Some (take l (drop k f), int l, e)"
    "e = None \<or> e = Some EOF \<and> k + l = length f" unfolding tl by blast
  have "(if int (length p) > sec_limit s - sec_off s then nat (sec_limit s - sec_off s) else length p) = l"
    using s assms(5) by auto
  then have "SectionReader_Read s p = Some (s\<lparr>sec_off := int (k + l)\<rparr>, take l (drop k f) @ drop l p, l, e)"
    using False s e(1) by (simp add: SectionReader_Read_def Let_def)
  moreover have "e = None \<or> e = Some EOF \<and> l = n" using e(2) s(4) assms(5) by auto
  ultimately show ?thesis using False s(4) by blast
qed

end

sublocale reader_at \<subseteq> part: reliable_reader SectionReader_Read "part_rest f" "part_valid R f"
proof (unfold_locales, goal_cases)
  case (1 s p)
  define n where "n = nat (sec_limit s - sec_off s)"
  define k where "k = nat (sec_off s)"
  define l where "l = min (length p) n"
  have rs: "part_rest f s = take n (drop k f)" by (simp add: part_rest_def n_def k_def)
  note pr = part_read [OF 1 k_def n_def l_def]
  show ?case
  proof (cases "n = 0")
    case True
    with pr 1(1) rs show ?thesis by auto
  next
    case False
    let ?s = "s\<lparr>sec_off := int (k + l)\<rparr>"
    from False pr obtain e where r: "0 < n" "SectionReader_Read s p = Some (?s, take l (drop k f) @ drop l p, l, e)"
      "e = None \<or> e = Some EOF \<and> l = n" "k + n \<le> length f" by blast
    have o: "sec_off s = int k" "sec_limit s = int (k + n)" using 1(1) r(1) by (auto simp: part_valid_def n_def k_def)
    have len: "length (take l (drop k f)) = l" using r(4) by (simp add: l_def)
    have "nat (sec_limit s - int (k + l)) = n - l" unfolding o(2) by linarith
    then have "part_rest f ?s = take (n - l) (drop l (drop k f))" by (simp add: part_rest_def add.commute del: of_nat_add)
    moreover have "take n (drop k f) = take l (drop k f) @ take (n - l) (drop l (drop k f))"
      by (metis l_def le_add_diff_inverse min.cobounded2 take_add)
    moreover have "part_valid R f ?s" using 1(1) by (simp add: part_valid_def)
    ultimately show ?thesis using r rs len by (auto simp: l_def)
  qed
next
  case (2 s p s' q m e)
  define n where "n = nat (sec_limit s - sec_off s)"
  define l where "l = min (length p) n"
  have "0 < n \<longrightarrow> 0 < l" using 2(2) by (simp add: l_def)
  with part_read [OF 2(1,2) refl n_def l_def] 2(3) show ?case by auto
qed

interpretation os_simple: reliable_reader SimpleReaderAtReader_Read "simple_rest f" "simple_valid (file_ReadAt f) f" for f
  by (rule os_file.simple.reliable_reader_axioms)

end
