(* ===== verification/Third_Party.thy ===== *)
theory Third_Party
  imports Go_Prelude
begin

text \<open>
  The packages the sources call but the repository does not hold: the radix tree and the 256-bit
  bitmap of \<open>akmistry/go-util\<close> and the bit set of \<open>bits-and-blooms/bitset\<close>. Each is a record of
  operations, which the definitions that use the package take as an argument, and a locale with
  the documented behaviour the sources rely on. A reference implementation of each shows that
  the laws can be met; the witnesses run on it.

  An iteration \<open>Ascend(func(i Item) bool)\<close> is given by the items it would visit, in order; the
  caller runs its callback over them with \<open>visit\<close>, which stops where the callback returns false.
\<close>

fun visit :: "('i \<Rightarrow> 's \<Rightarrow> 's \<times> bool) \<Rightarrow> 'i list \<Rightarrow> 's \<Rightarrow> 's" where
  "visit f [] s = s"
| "visit f (i # is) s = (case f i s of (s', True) \<Rightarrow> visit f is s' | (s', False) \<Rightarrow> s')"

lemma find_unique: "x \<in> set xs \<Longrightarrow> (\<And>y. y \<in> set xs \<Longrightarrow> P y \<longleftrightarrow> x = y) \<Longrightarrow> find P xs = Some x"
  by (induction xs) auto

section \<open>radix.Tree\<close>

record ('t, 'i) radix_ops =
  rt_empty :: 't
  rt_Ascend :: "'t \<Rightarrow> 'i list"
  rt_Descend :: "'t \<Rightarrow> 'i list"
  rt_AscendGreaterOrEqualI :: "'t \<Rightarrow> nat \<Rightarrow> 'i list"
  rt_DescendLessOrEqualI :: "'t \<Rightarrow> nat \<Rightarrow> 'i list"
  rt_ReplaceOrInsert :: "'t \<Rightarrow> 'i \<Rightarrow> 't \<times> 'i option"
  rt_Delete :: "'t \<Rightarrow> 'i \<Rightarrow> 't \<times> 'i option"

text \<open>\<open>Key\<close> is the method the tree orders its items by, \<open>ok\<close> the package's own invariant.\<close>

locale radix_tree =
  fixes T :: "('t, 'i) radix_ops"
    and Key :: "'i \<Rightarrow> nat"
    and ok :: "'t \<Rightarrow> bool"
  assumes ok_empty: "ok (rt_empty T)"
    and items_empty: "rt_Ascend T (rt_empty T) = []"
    and items_sorted: "ok t \<Longrightarrow> sorted_wrt (<) (map Key (rt_Ascend T t))"
    and descend: "ok t \<Longrightarrow> rt_Descend T t = rev (rt_Ascend T t)"
    and ascend_ge: "ok t \<Longrightarrow>
      rt_AscendGreaterOrEqualI T t k = filter (\<lambda>i. k \<le> Key i) (rt_Ascend T t)"
    and descend_le: "ok t \<Longrightarrow>
      rt_DescendLessOrEqualI T t k = rev (filter (\<lambda>i. Key i \<le> k) (rt_Ascend T t))"
    and insert_ok: "ok t \<Longrightarrow> ok (fst (rt_ReplaceOrInsert T t i))"
    and insert_items: "ok t \<Longrightarrow> set (rt_Ascend T (fst (rt_ReplaceOrInsert T t i))) =
      insert i {j \<in> set (rt_Ascend T t). Key j \<noteq> Key i}"
    and insert_old: "ok t \<Longrightarrow>
      snd (rt_ReplaceOrInsert T t i) = find (\<lambda>j. Key j = Key i) (rt_Ascend T t)"
    and delete_ok: "ok t \<Longrightarrow> ok (fst (rt_Delete T t i))"
    and delete_items: "ok t \<Longrightarrow> set (rt_Ascend T (fst (rt_Delete T t i))) =
      {j \<in> set (rt_Ascend T t). Key j \<noteq> Key i}"
    and delete_old: "ok t \<Longrightarrow>
      snd (rt_Delete T t i) = find (\<lambda>j. Key j = Key i) (rt_Ascend T t)"
begin

lemma items_distinct: "ok t \<Longrightarrow> distinct (rt_Ascend T t)"
  using items_sorted [of t] by (simp add: strict_sorted_iff distinct_map)

lemma key_inj: "ok t \<Longrightarrow> i \<in> set (rt_Ascend T t) \<Longrightarrow> j \<in> set (rt_Ascend T t) \<Longrightarrow>
  Key i = Key j \<Longrightarrow> i = j"
  using items_sorted [of t] by (auto simp: strict_sorted_iff distinct_map dest: inj_onD)

lemma find_key: "ok t \<Longrightarrow> i \<in> set (rt_Ascend T t) \<Longrightarrow>
  find (\<lambda>j. Key j = Key i) (rt_Ascend T t) = Some i"
  by (rule find_unique) (auto dest: key_inj)

lemma find_key_None: "(\<And>j. j \<in> set (rt_Ascend T t) \<Longrightarrow> Key j \<noteq> k) \<Longrightarrow>
  find (\<lambda>j. Key j = k) (rt_Ascend T t) = None"
  by (auto simp: find_None_iff)

lemmas tree_laws = ok_empty items_empty insert_ok insert_items insert_old
  delete_ok delete_items delete_old descend ascend_ge descend_le

end

text \<open>Reference implementation: the items in a list, in key order.\<close>

fun list_put :: "('i \<Rightarrow> nat) \<Rightarrow> 'i \<Rightarrow> 'i list \<Rightarrow> 'i list" where
  "list_put K x [] = [x]"
| "list_put K x (y # ys) =
     (if K x < K y then x # y # ys
      else if K x = K y then x # ys
      else y # list_put K x ys)"

definition list_tree :: "('i \<Rightarrow> nat) \<Rightarrow> ('i list, 'i) radix_ops" where
  "list_tree K = \<lparr>
     rt_empty = [],
     rt_Ascend = (\<lambda>t. t),
     rt_Descend = rev,
     rt_AscendGreaterOrEqualI = (\<lambda>t k. filter (\<lambda>i. k \<le> K i) t),
     rt_DescendLessOrEqualI = (\<lambda>t k. rev (filter (\<lambda>i. K i \<le> k) t)),
     rt_ReplaceOrInsert = (\<lambda>t i. (list_put K i t, find (\<lambda>j. K j = K i) t)),
     rt_Delete = (\<lambda>t i. (filter (\<lambda>j. K j \<noteq> K i) t, find (\<lambda>j. K j = K i) t))\<rparr>"

definition list_tree_ok :: "('i \<Rightarrow> nat) \<Rightarrow> 'i list \<Rightarrow> bool" where
  "list_tree_ok K t \<longleftrightarrow> sorted_wrt (<) (map K t)"

lemma set_list_put: "sorted_wrt (<) (map K t) \<Longrightarrow>
  set (list_put K x t) = insert x {y \<in> set t. K y \<noteq> K x}"
  by (induction t) auto

lemma sorted_list_put: "sorted_wrt (<) (map K t) \<Longrightarrow> sorted_wrt (<) (map K (list_put K x t))"
  by (induction t) (auto simp: set_list_put)

lemma sorted_map_filter: "sorted_wrt (<) (map K t) \<Longrightarrow> sorted_wrt (<) (map K (filter P t))"
  by (induction t) auto

lemmas list_tree_simps = list_tree_def list_tree_ok_def

interpretation list_tree: radix_tree "list_tree K" K "list_tree_ok K" for K
proof (unfold_locales, goal_cases)
  case 1 show ?case by (simp add: list_tree_simps)
next
  case 2 show ?case by (simp add: list_tree_simps)
next
  case (3 t) then show ?case by (simp add: list_tree_simps)
next
  case (4 t) show ?case by (simp add: list_tree_simps)
next
  case (5 t) show ?case by (simp add: list_tree_simps)
next
  case (6 t) show ?case by (simp add: list_tree_simps)
next
  case (7 t i) then show ?case by (simp add: list_tree_simps sorted_list_put)
next
  case (8 t i) then show ?case by (simp add: list_tree_simps set_list_put)
next
  case (9 t) show ?case by (simp add: list_tree_simps)
next
  case (10 t) then show ?case by (simp add: list_tree_simps sorted_map_filter)
next
  case (11 t) show ?case by (simp add: list_tree_simps)
next
  case (12 t) show ?case by (simp add: list_tree_simps)
qed

section \<open>bitmap.Bitmap256\<close>

text \<open>The finders return an index below 256 when they find one and 256 or more otherwise, which
  is what the callers test.\<close>

record 'b bitmap256_ops =
  bm_zero :: 'b
  bm_Empty :: "'b \<Rightarrow> bool"
  bm_Full :: "'b \<Rightarrow> bool"
  bm_Get :: "'b \<Rightarrow> nat \<Rightarrow> bool"
  bm_Set :: "'b \<Rightarrow> nat \<Rightarrow> 'b"
  bm_FindFirstSet :: "'b \<Rightarrow> nat"
  bm_FindNextSet :: "'b \<Rightarrow> nat \<Rightarrow> nat"
  bm_FindFirstClear :: "'b \<Rightarrow> nat"
  bm_FindNextClear :: "'b \<Rightarrow> nat \<Rightarrow> nat"

text \<open>\<open>first_in P lo hi n\<close>: \<open>n\<close> is the first index in \<open>lo ..< hi\<close> with \<open>P\<close>, or \<open>hi \<le> n\<close> when
  there is none.\<close>

definition first_in :: "(nat \<Rightarrow> bool) \<Rightarrow> nat \<Rightarrow> nat \<Rightarrow> nat \<Rightarrow> bool" where
  "first_in P lo hi n \<longleftrightarrow>
     (\<forall>i. lo \<le> i \<longrightarrow> i < hi \<longrightarrow> i < n \<longrightarrow> \<not> P i) \<and> (n < hi \<longrightarrow> lo \<le> n \<and> P n)"

locale bitmap256 =
  fixes B :: "'b bitmap256_ops"
  assumes bm_get_zero: "i < 256 \<Longrightarrow> \<not> bm_Get B (bm_zero B) i"
    and bm_get_set: "i < 256 \<Longrightarrow> j < 256 \<Longrightarrow> bm_Get B (bm_Set B b i) j \<longleftrightarrow> j = i \<or> bm_Get B b j"
    and bm_empty: "bm_Empty B b \<longleftrightarrow> (\<forall>i<256. \<not> bm_Get B b i)"
    and bm_full: "bm_Full B b \<longleftrightarrow> (\<forall>i<256. bm_Get B b i)"
    and bm_first_set: "first_in (bm_Get B b) 0 256 (bm_FindFirstSet B b)"
    and bm_next_set: "i < 256 \<Longrightarrow> first_in (bm_Get B b) i 256 (bm_FindNextSet B b i)"
    and bm_first_clear: "first_in (\<lambda>k. \<not> bm_Get B b k) 0 256 (bm_FindFirstClear B b)"
    and bm_next_clear: "i < 256 \<Longrightarrow> first_in (\<lambda>k. \<not> bm_Get B b k) i 256 (bm_FindNextClear B b i)"

text \<open>Reference implementation: the list of the set indices, and a search upwards.\<close>

definition find_from :: "(nat \<Rightarrow> bool) \<Rightarrow> nat \<Rightarrow> nat \<Rightarrow> nat" where
  "find_from P lo hi = (case find P [lo..<hi] of Some n \<Rightarrow> n | None \<Rightarrow> hi)"

definition list_bitmap :: "nat list bitmap256_ops" where
  "list_bitmap = \<lparr>
     bm_zero = [],
     bm_Empty = (\<lambda>b. list_all (\<lambda>i. i \<notin> set b) [0..<256]),
     bm_Full = (\<lambda>b. list_all (\<lambda>i. i \<in> set b) [0..<256]),
     bm_Get = (\<lambda>b i. i \<in> set b),
     bm_Set = (\<lambda>b i. i # b),
     bm_FindFirstSet = (\<lambda>b. find_from (\<lambda>i. i \<in> set b) 0 256),
     bm_FindNextSet = (\<lambda>b i. find_from (\<lambda>k. k \<in> set b) i 256),
     bm_FindFirstClear = (\<lambda>b. find_from (\<lambda>i. i \<notin> set b) 0 256),
     bm_FindNextClear = (\<lambda>b i. find_from (\<lambda>k. k \<notin> set b) i 256)\<rparr>"

lemma find_upt_Some: "find P [lo..<hi] = Some n \<Longrightarrow>
  lo \<le> n \<and> n < hi \<and> P n \<and> (\<forall>i. lo \<le> i \<longrightarrow> i < n \<longrightarrow> \<not> P i)"
proof (induction "hi - lo" arbitrary: lo)
  case (Suc d)
  then have lt: "lo < hi" and d: "d = hi - Suc lo" by simp_all
  show ?case
  proof (cases "P lo")
    case True
    with Suc.prems lt show ?thesis by (simp add: upt_conv_Cons)
  next
    case False
    with Suc.prems lt have "find P [Suc lo..<hi] = Some n" by (simp add: upt_conv_Cons)
    from Suc.hyps(1) [OF d this] False show ?thesis
      by (metis Suc_leD Suc_le_eq order_le_less)
  qed
qed simp

lemma first_in_find_from: "first_in P lo hi (find_from P lo hi)"
  by (auto simp: first_in_def find_from_def find_None_iff split: option.splits dest!: find_upt_Some)

interpretation list_bitmap: bitmap256 list_bitmap
  by unfold_locales (auto simp: list_bitmap_def first_in_find_from list_all_iff)

section \<open>bitset.BitSet\<close>

text \<open>\<open>NextSet\<close> and \<open>NextClear\<close> return the index and whether they found one; \<open>NextClear\<close> looks
  below the length only. \<open>Set\<close> extends the set to hold its index.\<close>

record 's bitset_ops =
  bs_zero :: 's
  bs_New :: "nat \<Rightarrow> 's"
  bs_Len :: "'s \<Rightarrow> nat"
  bs_Test :: "'s \<Rightarrow> nat \<Rightarrow> bool"
  bs_Set :: "'s \<Rightarrow> nat \<Rightarrow> 's"
  bs_Clear :: "'s \<Rightarrow> nat \<Rightarrow> 's"
  bs_SetAll :: "'s \<Rightarrow> 's"
  bs_NextSet :: "'s \<Rightarrow> nat \<Rightarrow> nat \<times> bool"
  bs_NextClear :: "'s \<Rightarrow> nat \<Rightarrow> nat \<times> bool"

locale bitset =
  fixes S :: "'s bitset_ops"
  assumes bs_len_zero: "bs_Len S (bs_zero S) = 0"
    and bs_len_new: "bs_Len S (bs_New S n) = n"
    and bs_test_new: "\<not> bs_Test S (bs_New S n) i"
    and bs_test_len: "bs_Test S s i \<Longrightarrow> i < bs_Len S s"
    and bs_len_set: "bs_Len S (bs_Set S s i) = max (bs_Len S s) (Suc i)"
    and bs_test_set: "bs_Test S (bs_Set S s i) j \<longleftrightarrow> j = i \<or> bs_Test S s j"
    and bs_len_clear: "bs_Len S (bs_Clear S s i) = bs_Len S s"
    and bs_test_clear: "bs_Test S (bs_Clear S s i) j \<longleftrightarrow> j \<noteq> i \<and> bs_Test S s j"
    and bs_len_setall: "bs_Len S (bs_SetAll S s) = bs_Len S s"
    and bs_test_setall: "bs_Test S (bs_SetAll S s) j \<longleftrightarrow> j < bs_Len S s"
    and bs_next_set_found: "snd (bs_NextSet S s i) \<longleftrightarrow> (\<exists>j\<ge>i. bs_Test S s j)"
    and bs_next_set: "snd (bs_NextSet S s i) \<Longrightarrow>
      fst (bs_NextSet S s i) = (LEAST j. i \<le> j \<and> bs_Test S s j)"
    and bs_next_clear_found: "snd (bs_NextClear S s i) \<longleftrightarrow>
      (\<exists>j\<ge>i. j < bs_Len S s \<and> \<not> bs_Test S s j)"
    and bs_next_clear: "snd (bs_NextClear S s i) \<Longrightarrow>
      fst (bs_NextClear S s i) = (LEAST j. i \<le> j \<and> j < bs_Len S s \<and> \<not> bs_Test S s j)"
begin

lemma bs_test_zero: "\<not> bs_Test S (bs_zero S) i"
  using bs_test_len [of "bs_zero S" i] by (auto simp: bs_len_zero)

lemma NextSet_Some:
  assumes "bs_NextSet S s i = (n, True)"
  shows "i \<le> n \<and> bs_Test S s n \<and> (\<forall>j. i \<le> j \<longrightarrow> j < n \<longrightarrow> \<not> bs_Test S s j)"
proof -
  let ?P = "\<lambda>j. i \<le> j \<and> bs_Test S s j"
  from assms obtain j where j: "?P j"
    using bs_next_set_found [of s i] by auto
  have n: "n = Least ?P" using bs_next_set [of s i] assms by simp
  from Least_first [of ?P, OF j n] show ?thesis by auto
qed

lemma NextSet_None: "bs_NextSet S s i = (n, False) \<Longrightarrow> i \<le> j \<Longrightarrow> \<not> bs_Test S s j"
  using bs_next_set_found [of s i] by auto

lemma NextClear_Some:
  assumes "bs_NextClear S s i = (n, True)"
  shows "i \<le> n \<and> \<not> bs_Test S s n \<and> (\<forall>j. i \<le> j \<longrightarrow> j < n \<longrightarrow> bs_Test S s j)"
proof -
  let ?P = "\<lambda>j. i \<le> j \<and> j < bs_Len S s \<and> \<not> bs_Test S s j"
  from assms obtain j where j: "?P j"
    using bs_next_clear_found [of s i] by auto
  have n: "n = Least ?P" using bs_next_clear [of s i] assms by simp
  from Least_first [of ?P, OF j n] show ?thesis by auto
qed

lemma NextClear_None: "bs_NextClear S s i = (n, False) \<Longrightarrow> i \<le> j \<Longrightarrow> j < bs_Len S s \<Longrightarrow> bs_Test S s j"
  using bs_next_clear_found [of s i] by auto

end

text \<open>Reference implementation: the length and the list of the set indices.\<close>

definition list_bitset :: "(nat \<times> nat list) bitset_ops" where
  "list_bitset = \<lparr>
     bs_zero = (0, []),
     bs_New = (\<lambda>n. (n, [])),
     bs_Len = fst,
     bs_Test = (\<lambda>(n, s) i. i < n \<and> i \<in> set s),
     bs_Set = (\<lambda>(n, s) i. (max n (Suc i), i # filter (\<lambda>j. j < n) s)),
     bs_Clear = (\<lambda>(n, s) i. (n, filter (\<lambda>j. j \<noteq> i) s)),
     bs_SetAll = (\<lambda>(n, s). (n, [0..<n])),
     bs_NextSet = (\<lambda>(n, s) i. (find_from (\<lambda>j. j \<in> set s) i n,
       list_ex (\<lambda>j. i \<le> j \<and> j < n) s)),
     bs_NextClear = (\<lambda>(n, s) i. (find_from (\<lambda>j. j \<notin> set s) i n,
       list_ex (\<lambda>j. j \<notin> set s) [i..<n]))\<rparr>"

lemma first_in_Least:
  assumes "first_in P lo hi n" and "lo \<le> j" "j < hi" "P j"
  shows "(LEAST j. lo \<le> j \<and> j < hi \<and> P j) = n"
proof (rule Least_equality)
  have "n \<le> j" using assms unfolding first_in_def by (meson not_le)
  then show "lo \<le> n \<and> n < hi \<and> P n" using assms unfolding first_in_def by simp
qed (use assms in \<open>unfold first_in_def, meson not_le\<close>)

interpretation list_bitset: bitset list_bitset
proof (unfold_locales, goal_cases)
  case (12 s i)
  let ?P = "\<lambda>j. j \<in> set (snd s)"
  from 12 obtain j where "i \<le> j" "j < fst s" "?P j"
    by (auto simp: list_bitset_def list_ex_iff split: prod.splits)
  from first_in_Least [where P = ?P, OF first_in_find_from this] show ?case
    by (cases s) (simp add: list_bitset_def)
next
  case (14 s i)
  let ?P = "\<lambda>j. j \<notin> set (snd s)"
  from 14 obtain j where "i \<le> j" "j < fst s" "?P j"
    by (auto simp: list_bitset_def list_ex_iff split: prod.splits)
  moreover have "(\<lambda>j. i \<le> j \<and> j < fst s \<and> \<not> (j < fst s \<and> j \<in> set (snd s))) =
      (\<lambda>j. i \<le> j \<and> j < fst s \<and> ?P j)"
    by auto
  ultimately show ?case
    using first_in_Least [where P = ?P, OF first_in_find_from, of i j "fst s"]
    by (cases s) (simp add: list_bitset_def)
qed (auto simp: list_bitset_def list_ex_iff split: prod.splits)

section \<open>bufferpool.Buffer\<close>

text \<open>A pooled byte buffer: \<open>AvailableBuffer\<close> gives its spare capacity, which holds what was left
  there, and the other operations are those of a byte queue.\<close>

record 'bf bufferpool_ops =
  bp_GetBuffer :: "nat \<Rightarrow> 'bf"
  bp_AvailableBuffer :: "'bf \<Rightarrow> bytes"
  bp_Write :: "'bf \<Rightarrow> bytes \<Rightarrow> 'bf"
  bp_Next :: "'bf \<Rightarrow> nat \<Rightarrow> 'bf"
  bp_Read :: "'bf \<Rightarrow> nat \<Rightarrow> bytes \<times> go_error option"

locale bufferpool =
  fixes P :: "'bf bufferpool_ops" and cont :: "'bf \<Rightarrow> bytes"
  assumes bp_get: "cont (bp_GetBuffer P n) = []"
    and bp_capacity: "n \<le> length (bp_AvailableBuffer P (bp_GetBuffer P n))"
    and bp_write: "cont (bp_Write P b xs) = cont b @ xs"
    and bp_next: "cont (bp_Next P b n) = drop n (cont b)"
    and bp_read: "cont b \<noteq> [] \<Longrightarrow> bp_Read P b n = (take n (cont b), None)"
    and bp_read_empty: "cont b = [] \<Longrightarrow> 0 < n \<Longrightarrow> bp_Read P b n = ([], Some EOF)"

text \<open>Reference implementation: the spare bytes and the queue.\<close>

definition list_pool :: "(bytes \<times> bytes) bufferpool_ops" where
  "list_pool = \<lparr>
     bp_GetBuffer = (\<lambda>n. (replicate n 0, [])),
     bp_AvailableBuffer = fst,
     bp_Write = (\<lambda>(spare, q) xs. (drop (length xs) spare, q @ xs)),
     bp_Next = (\<lambda>(spare, q) n. (spare, drop n q)),
     bp_Read = (\<lambda>(spare, q) n. if q = [] \<and> 0 < n then ([], Some EOF) else (take n q, None))\<rparr>"

interpretation list_pool: bufferpool list_pool snd
  by unfold_locales (auto simp: list_pool_def split: prod.splits)

section \<open>\<open>google.golang.org/protobuf/proto\<close>\<close>

text \<open>A message type with its codec. What is relied on: a marshalled message, which is always below
  two gigabytes, unmarshals to itself.\<close>

record 'm proto_ops =
  proto_Marshal :: "'m \<Rightarrow> go_error + bytes"
  proto_Unmarshal :: "bytes \<Rightarrow> go_error + 'm"

locale proto_message =
  fixes P :: "('m, 'z) proto_ops_scheme" and wf :: "'m \<Rightarrow> bool"
  assumes marshal_roundtrip: "wf m \<Longrightarrow> \<exists>b. proto_Marshal P m = Inr b \<and> length b < 2 ^ 31 \<and> proto_Unmarshal P b = Inr m"

text \<open>\<open>MarshalOptions\<close> with \<open>Size\<close>, the length of the marshalled message.\<close>

record 'm proto_sized_ops = "'m proto_ops" +
  proto_Size :: "'m \<Rightarrow> nat"

locale proto_sized = proto_message P wf
  for P :: "'m proto_sized_ops" and wf :: "'m \<Rightarrow> bool" +
  assumes size_marshal: "proto_Marshal P m = Inr b \<Longrightarrow> proto_Size P m = length b"

section \<open>\<open>github.com/akmistry/go-util/io\<close>\<close>

text \<open>\<open>WriteMany\<close> writes its buffers one after the other and stops at the first error.\<close>

locale write_many =
  fixes Wr :: "'w \<Rightarrow> bytes \<Rightarrow> ('w \<times> nat \<times> go_error option) option"
    and WriteMany :: "'w \<Rightarrow> bytes list \<Rightarrow> ('w \<times> nat \<times> go_error option) option"
  assumes many_Nil: "WriteMany w [] = Some (w, 0, None)"
    and many_Cons: "WriteMany w (p # ps) = do {
        (w, n, err) \<leftarrow> Wr w p;
        if err \<noteq> None then Some (w, n, err)
        else do { (w, m, err) \<leftarrow> WriteMany w ps; Some (w, n + m, err) }
      }"

fun write_all :: "('w \<Rightarrow> bytes \<Rightarrow> ('w \<times> nat \<times> go_error option) option) \<Rightarrow> 'w \<Rightarrow> bytes list \<Rightarrow>
    ('w \<times> nat \<times> go_error option) option" where
  "write_all Wr w [] = Some (w, 0, None)"
| "write_all Wr w (p # ps) = do {
     (w, n, err) \<leftarrow> Wr w p;
     if err \<noteq> None then Some (w, n, err)
     else do { (w, m, err) \<leftarrow> write_all Wr w ps; Some (w, n + m, err) }
   }"

interpretation write_all: write_many Wr "write_all Wr" for Wr
  by unfold_locales (simp_all cong: if_cong)

end
