(* ===== verification/Range_Map.thy ===== *)
theory Range_Map
  imports Third_Party
begin

text \<open>
  \<open>internal/rangemap/range_map.go\<close>: the types \<open>Range\<close> and \<open>RangeValue\<close>, and the interface
  \<open>RangeMap\<close> as a locale. A range map promises a partial map from keys to values: \<open>Add\<close> overwrites
  an interval of it, \<open>Get\<close>, \<open>NextKey\<close>, \<open>NextEmpty\<close>, \<open>Begin\<close> and \<open>End\<close> read it, and \<open>Iterate\<close>
  hands out its maximal runs in order.
\<close>

record Range =
  Offset :: nat
  Length :: nat

record 'v RangeValue = Range +
  Value :: 'v

definition Range_Key :: "'z Range_scheme \<Rightarrow> nat" where
  "Range_Key r = Offset r"

definition Range_End :: "'z Range_scheme \<Rightarrow> nat" where
  "Range_End r = u64 (Offset r + Length r)"

definition Range_Contains :: "'z Range_scheme \<Rightarrow> nat \<Rightarrow> bool" where
  "Range_Contains r off \<longleftrightarrow> off \<ge> Offset r \<and> off < u64 (Offset r + Length r)"

definition Range_Overlaps :: "'z Range_scheme \<Rightarrow> 'y Range_scheme \<Rightarrow> bool" where
  "Range_Overlaps r other \<longleftrightarrow> Range_Contains r (Offset other) \<or> Range_Contains other (Offset r)"

section \<open>What a list of ranges stands for\<close>

text \<open>\<open>key_limit\<close> is the bound the callers keep: their offsets are non-negative \<open>int64\<close> values.\<close>

abbreviation key_limit :: nat where
  "key_limit \<equiv> 2 ^ 63"

abbreviation rend :: "'z Range_scheme \<Rightarrow> nat" where
  "rend r \<equiv> Offset r + Length r"

definition good_range :: "'z Range_scheme \<Rightarrow> bool" where
  "good_range r \<longleftrightarrow> 0 < Length r \<and> rend r \<le> key_limit"

definition inside :: "nat \<Rightarrow> 'z Range_scheme \<Rightarrow> bool" where
  "inside k r \<longleftrightarrow> Offset r \<le> k \<and> k < rend r"

definition separate :: "'z Range_scheme set \<Rightarrow> bool" where
  "separate S \<longleftrightarrow> (\<forall>a\<in>S. \<forall>b\<in>S. a \<noteq> b \<longrightarrow> rend a \<le> Offset b \<or> rend b \<le> Offset a)"

definition cover :: "'v RangeValue list \<Rightarrow> nat \<rightharpoonup> 'v" where
  "cover rs k = map_option Value (find (inside k) rs)"

definition add_range :: "nat \<Rightarrow> nat \<Rightarrow> 'v \<Rightarrow> (nat \<rightharpoonup> 'v) \<Rightarrow> (nat \<rightharpoonup> 'v)" where
  "add_range off len v m = (\<lambda>k. if off \<le> k \<and> k < off + len then Some v else m k)"

text \<open>The maximal runs of \<open>m\<close> at and after \<open>start\<close>, in key order.\<close>

definition is_runs :: "(nat \<rightharpoonup> 'v) \<Rightarrow> nat \<Rightarrow> 'v RangeValue list \<Rightarrow> bool" where
  "is_runs m start rs \<longleftrightarrow>
     sorted_wrt (\<lambda>a b. rend a \<le> Offset b) rs \<and>
     successively (\<lambda>a b. \<not> (rend a = Offset b \<and> Value a = Value b)) rs \<and>
     (\<forall>r\<in>set rs. 0 < Length r) \<and>
     (\<forall>k. cover rs k = (if start \<le> k then m k else None))"

lemma Range_Contains_inside [bound_simps]: "good_range r \<Longrightarrow> Range_Contains r k \<longleftrightarrow> inside k r"
  by (simp add: Range_Contains_def inside_def good_range_def u64_id)

lemma Range_End_rend [bound_simps]: "good_range r \<Longrightarrow> Range_End r = rend r"
  by (simp add: Range_End_def good_range_def u64_id)

lemma separate_inside: "separate S \<Longrightarrow> a \<in> S \<Longrightarrow> b \<in> S \<Longrightarrow> inside k a \<Longrightarrow> inside k b \<Longrightarrow> a = b"
  unfolding separate_def inside_def by fastforce

lemma cover_Some:
  assumes "separate (set rs)"
  shows "cover rs k = Some v \<longleftrightarrow> (\<exists>r\<in>set rs. inside k r \<and> Value r = v)"
proof -
  have "cover rs k = Some (Value r)" if "r \<in> set rs" "inside k r" for r
    using find_unique [of r rs "inside k"] separate_inside [OF assms] that
    by (auto simp: cover_def)
  then show ?thesis
    by (fastforce simp: cover_def find_Some_iff)
qed

lemma cover_None: "cover rs k = None \<longleftrightarrow> (\<forall>r\<in>set rs. \<not> inside k r)"
  by (auto simp: cover_def find_None_iff)

lemma cover_Cons: "cover (r # rs) k = (if inside k r then Some (Value r) else cover rs k)"
  by (simp add: cover_def)

lemma sorted_separate:
  assumes "sorted_wrt (\<lambda>a b. rend a \<le> Offset b) rs"
  shows "separate (set rs)"
proof (unfold separate_def, intro ballI impI)
  fix a b assume "a \<in> set rs" "b \<in> set rs" and ne: "a \<noteq> b"
  then obtain i j where ij: "i < length rs" "rs ! i = a" "j < length rs" "rs ! j = b"
    by (auto simp: in_set_conv_nth)
  with ne have "i < j \<or> j < i" by (metis linorder_neqE_nat)
  with ij assms show "rend a \<le> Offset b \<or> rend b \<le> Offset a"
    by (auto simp: sorted_wrt_iff_nth_less)
qed

lemma separate_sorted:
  assumes "sorted_wrt (<) (map Offset rs)" "separate (set rs)" "\<forall>r\<in>set rs. 0 < Length r"
  shows "sorted_wrt (\<lambda>a b. rend a \<le> Offset b) rs"
proof -
  have "rend a \<le> Offset b" if "a \<in> set rs" "b \<in> set rs" "Offset a < Offset b" for a b
  proof -
    from that assms(2) have "rend a \<le> Offset b \<or> rend b \<le> Offset a"
      unfolding separate_def by (metis less_irrefl)
    with that show ?thesis by auto
  qed
  with assms(1) show ?thesis
    by (auto simp: sorted_wrt_map sorted_wrt_iff_nth_less)
qed

text \<open>A map has only one list of maximal runs, so any two range maps with the same content iterate
  alike.\<close>

lemma runs_head:
  assumes "sorted_wrt (\<lambda>a b. rend a \<le> Offset b) (a # as)" "\<forall>r\<in>set (a # as). 0 < Length r"
  shows "cover (a # as) k \<noteq> None \<Longrightarrow> Offset a \<le> k" "cover (a # as) (Offset a) = Some (Value a)"
    and "cover as k = (if inside k a then None else cover (a # as) k)"
proof -
  show "cover (a # as) k \<noteq> None \<Longrightarrow> Offset a \<le> k"
    using assms by (auto simp: cover_None inside_def)
  show "cover (a # as) (Offset a) = Some (Value a)"
    using assms by (simp add: cover_def inside_def)
  have "cover as k = None" if "inside k a"
    using that assms by (fastforce simp: cover_None inside_def)
  then show "cover as k = (if inside k a then None else cover (a # as) k)"
    by (simp add: cover_def)
qed

lemma runs_head_end:
  assumes a: "sorted_wrt (\<lambda>a b. rend a \<le> Offset b) (a # as)" "\<forall>r\<in>set (a # as). 0 < Length r"
    "successively (\<lambda>a b. \<not> (rend a = Offset b \<and> Value a = Value b)) (a # as)"
  shows "cover (a # as) (rend a) \<noteq> Some (Value a)"
proof
  assume "cover (a # as) (rend a) = Some (Value a)"
  then obtain x where x: "x \<in> set (a # as)" "inside (rend a) x" "Value x = Value a"
    unfolding cover_Some [OF sorted_separate [OF a(1)]] by blast
  then have "x \<in> set as" by (auto simp: inside_def)
  with a(1) x have ox: "Offset x = rend a" by (fastforce simp: inside_def)
  obtain c cs where c: "as = c # cs" using \<open>x \<in> set as\<close> by (cases as) auto
  have "x = c"
  proof (rule ccontr)
    assume "x \<noteq> c"
    then have "rend c \<le> Offset x" using a(1) c \<open>x \<in> set as\<close> by auto
    moreover have "rend a \<le> Offset c" "0 < Length c" using a(1,2) c by auto
    ultimately show False using ox by simp
  qed
  with a(3) c ox x(3) show False by simp
qed

lemma runs_unique:
  assumes "sorted_wrt (\<lambda>a b. rend a \<le> Offset b) rs" "\<forall>r\<in>set rs. 0 < Length r"
    "successively (\<lambda>a b. \<not> (rend a = Offset b \<and> Value a = Value b)) rs"
    and "sorted_wrt (\<lambda>a b. rend a \<le> Offset b) rs'" "\<forall>r\<in>set rs'. 0 < Length r"
    "successively (\<lambda>a b. \<not> (rend a = Offset b \<and> Value a = Value b)) rs'"
    and "cover rs = cover rs'"
  shows "rs = rs'"
  using assms
proof (induction rs arbitrary: rs')
  case Nil
  then have none: "cover rs' k = None" for k by (metis cover_None empty_iff list.set(1))
  show ?case
  proof (cases rs')
    case (Cons b bs)
    then show ?thesis using runs_head(2) [of b bs] Nil.prems(4,5) none [of "Offset b"] by simp
  qed simp
next
  case (Cons a as)
  have "rs' \<noteq> []"
    using Cons.prems(7) runs_head(2) [OF Cons.prems(1,2)] by (metis cover_None empty_iff list.set(1) option.distinct(1))
  then obtain b bs where b: "rs' = b # bs" by (cases rs') auto
  note pa = Cons.prems(1-3) and pb = Cons.prems(4-6) [unfolded b] and cov = Cons.prems(7) [unfolded b]
  have off: "Offset a = Offset b"
    using runs_head(1,2) [OF pa(1,2)] runs_head(1,2) [OF pb(1,2)] cov
    by (metis option.distinct(1) order_antisym)
  moreover have val: "Value a = Value b"
    using runs_head(2) [OF pa(1,2)] runs_head(2) [OF pb(1,2)] cov off by simp
  moreover have "Length a = Length b"
  proof (rule ccontr)
    assume "Length a \<noteq> Length b"
    then consider "inside (rend a) b" | "inside (rend b) a"
      using off by (auto simp: inside_def) (metis linorder_neqE_nat)
    then show False
      using runs_head_end [OF pa] runs_head_end [OF pb] cov val by cases (metis cover_Cons)+
  qed
  ultimately have ab: "a = b" by simp
  have "cover as k = cover bs k" for k
    unfolding runs_head(3) [OF pa(1,2)] runs_head(3) [OF pb(1,2)] cov using ab by simp
  then have "cover as = cover bs" ..
  moreover have "successively (\<lambda>a b. \<not> (rend a = Offset b \<and> Value a = Value b)) as"
    "successively (\<lambda>a b. \<not> (rend a = Offset b \<and> Value a = Value b)) bs"
    using pa(3) pb(3) by (auto simp: successively_Cons)
  ultimately have "as = bs" using Cons.IH [of bs] pa(1,2) pb(1,2) by simp
  with ab b show ?case by simp
qed

lemma is_runs_unique: "is_runs m start rs \<Longrightarrow> is_runs m start rs' \<Longrightarrow> rs = rs'"
  unfolding is_runs_def by (intro runs_unique) auto

section \<open>The interface\<close>

text \<open>A run of \<open>Add\<close> calls, as the block map and the log recovery make them.\<close>

fun add_all :: "('m \<Rightarrow> nat \<Rightarrow> nat \<Rightarrow> 'v \<Rightarrow> 'm option) \<Rightarrow> (nat \<times> nat \<times> 'v) list \<Rightarrow> 'm \<Rightarrow> 'm option" where
  "add_all Add [] m = Some m"
| "add_all Add ((off, len, v) # ws) m = Option.bind (Add m off len v) (add_all Add ws)"

abbreviation writes_ok :: "(nat \<times> nat \<times> 'v) list \<Rightarrow> bool" where
  "writes_ok ws \<equiv> \<forall>(off, len, v)\<in>set ws. off + len \<le> key_limit"

abbreviation apply_writes :: "(nat \<times> nat \<times> 'v) list \<Rightarrow> (nat \<rightharpoonup> 'v) \<Rightarrow> (nat \<rightharpoonup> 'v)" where
  "apply_writes ws \<equiv> fold (\<lambda>(off, len, v). add_range off len v) ws"

locale range_map =
  fixes Add :: "'m \<Rightarrow> nat \<Rightarrow> nat \<Rightarrow> 'v \<Rightarrow> 'm option"
    and Get :: "'m \<Rightarrow> nat \<Rightarrow> 'v option"
    and Begin :: "'m \<Rightarrow> (nat \<times> bool) option"
    and End :: "'m \<Rightarrow> nat option"
    and NextKey :: "'m \<Rightarrow> nat \<Rightarrow> (nat \<times> bool) option"
    and NextEmpty :: "'m \<Rightarrow> nat \<Rightarrow> nat option"
    and Runs :: "'m \<Rightarrow> nat \<Rightarrow> 'v RangeValue list option"
    and invar :: "'m \<Rightarrow> bool"
    and abs :: "'m \<Rightarrow> nat \<rightharpoonup> 'v"
  assumes bounded: "invar m \<Longrightarrow> abs m k = Some v \<Longrightarrow> k < key_limit"
    and Add_ok: "invar m \<Longrightarrow> off + len \<le> key_limit \<Longrightarrow>
      \<exists>m'. Add m off len v = Some m' \<and> invar m' \<and> abs m' = add_range off len v (abs m)"
    and Get_abs: "invar m \<Longrightarrow> Get m k = abs m k"
    and Begin_ok: "invar m \<Longrightarrow> Begin m =
      Some (if abs m = Map.empty then (0, False) else (LEAST k. abs m k \<noteq> None, True))"
    and End_ok: "invar m \<Longrightarrow> \<exists>e. End m = Some e \<and> (\<forall>k. abs m k \<noteq> None \<longrightarrow> k < e) \<and>
      (0 < e \<longrightarrow> abs m (e - 1) \<noteq> None)"
    and NextKey_ok: "invar m \<Longrightarrow> k < key_limit \<Longrightarrow> NextKey m k =
      Some (if \<exists>j\<ge>k. abs m j \<noteq> None then (LEAST j. k \<le> j \<and> abs m j \<noteq> None, True) else (0, False))"
    and NextEmpty_ok: "invar m \<Longrightarrow> k < key_limit \<Longrightarrow>
      NextEmpty m k = Some (LEAST j. k \<le> j \<and> abs m j = None)"
    and Runs_ok: "invar m \<Longrightarrow> start < key_limit \<Longrightarrow>
      \<exists>rs. Runs m start = Some rs \<and> is_runs (abs m) start rs"
begin

lemma add_all_ok:
  assumes "invar m" "writes_ok ws"
  shows "\<exists>m'. add_all Add ws m = Some m' \<and> invar m' \<and>
    abs m' = apply_writes ws (abs m)"
  using assms
proof (induction ws arbitrary: m)
  case (Cons w ws)
  obtain off len v where w: "w = (off, len, v)" by (cases w)
  with Cons.prems obtain m1 where m1: "Add m off len v = Some m1" "invar m1"
    "abs m1 = add_range off len v (abs m)" using Add_ok [of m off len v] by auto
  from Cons.IH [OF m1(2)] Cons.prems(2) m1 w show ?case by auto
qed simp

lemma Get_after_Add:
  assumes "invar m" "off + len \<le> key_limit" "Add m off len v = Some m'"
  shows "Get m' k = (if off \<le> k \<and> k < off + len then Some v else Get m k)"
proof -
  from Add_ok [OF assms(1,2), of v] assms(3) have "invar m'" "abs m' = add_range off len v (abs m)" by auto
  then show ?thesis using assms(1) by (simp add: Get_abs add_range_def)
qed

lemma End_unique:
  assumes "invar m" "\<forall>k. abs m k \<noteq> None \<longrightarrow> k < e" "0 < e \<longrightarrow> abs m (e - 1) \<noteq> None"
  shows "End m = Some e"
proof -
  from End_ok [OF assms(1)] obtain e' where e': "End m = Some e'" "\<forall>k. abs m k \<noteq> None \<longrightarrow> k < e'"
    "0 < e' \<longrightarrow> abs m (e' - 1) \<noteq> None" by blast
  have "e' = e"
  proof (rule antisym)
    show "e' \<le> e" using e'(3) assms(2) by (cases e') auto
    show "e \<le> e'" using assms(3) e'(2) by (cases e) auto
  qed
  with e'(1) show ?thesis by simp
qed

lemma Runs_unique: "invar m \<Longrightarrow> start < key_limit \<Longrightarrow> is_runs (abs m) start rs \<Longrightarrow> Runs m start = Some rs"
  using Runs_ok [of m start] is_runs_unique [of "abs m" start] by blast

end

text \<open>Two implementations of the interface with the same content answer every query alike.\<close>

locale range_map_pair =
  a: range_map Add1 Get1 Begin1 End1 NextKey1 NextEmpty1 Runs1 invar1 abs1 +
  b: range_map Add2 Get2 Begin2 End2 NextKey2 NextEmpty2 Runs2 invar2 abs2
  for Add1 :: "'m \<Rightarrow> nat \<Rightarrow> nat \<Rightarrow> 'v \<Rightarrow> 'm option" and Get1 Begin1 End1 NextKey1 NextEmpty1 Runs1 invar1 abs1
    and Add2 :: "'n \<Rightarrow> nat \<Rightarrow> nat \<Rightarrow> 'v \<Rightarrow> 'n option" and Get2 Begin2 End2 NextKey2 NextEmpty2 Runs2 invar2 abs2
begin

lemma same_answers:
  assumes "invar1 m" "invar2 n" "abs1 m = abs2 n"
  shows "Get1 m k = Get2 n k" "Begin1 m = Begin2 n" "End1 m = End2 n"
    and "k < key_limit \<Longrightarrow> NextKey1 m k = NextKey2 n k"
    and "k < key_limit \<Longrightarrow> NextEmpty1 m k = NextEmpty2 n k"
    and "k < key_limit \<Longrightarrow> Runs1 m k = Runs2 n k"
proof -
  show "Get1 m k = Get2 n k" "Begin1 m = Begin2 n"
    using assms by (simp_all add: a.Get_abs b.Get_abs a.Begin_ok b.Begin_ok)
  show "End1 m = End2 n" using b.End_ok [OF assms(2)] a.End_unique [OF assms(1)] assms(3) by metis
  assume k: "k < key_limit"
  show "NextKey1 m k = NextKey2 n k" "NextEmpty1 m k = NextEmpty2 n k"
    unfolding a.NextKey_ok [OF assms(1) k] b.NextKey_ok [OF assms(2) k]
      a.NextEmpty_ok [OF assms(1) k] b.NextEmpty_ok [OF assms(2) k] assms(3) by (rule refl)+
  show "Runs1 m k = Runs2 n k"
    using a.Runs_ok [OF assms(1) k] b.Runs_unique [OF assms(2) k] assms(3) by metis
qed

lemma same_after_adds:
  assumes "invar1 m" "invar2 n" "abs1 m = abs2 n" "writes_ok ws"
  shows "\<exists>m' n'. add_all Add1 ws m = Some m' \<and> add_all Add2 ws n = Some n' \<and>
    invar1 m' \<and> invar2 n' \<and> abs1 m' = abs2 n'"
  using a.add_all_ok [OF assms(1,4)] b.add_all_ok [OF assms(2,4)] assms(3) by metis

end

end
