(* ===== verification/Extent_Range_Map.thy ===== *)
theory Extent_Range_Map
  imports Range_Map
begin

text \<open>
  \<open>internal/rangemap/extent_range_map.go\<close>: a range map kept as disjoint extents in a radix tree
  ordered by their offset. The tree operations \<open>T\<close> are a parameter. The tree holds pointers, and
  \<open>Remove\<close> truncates an item in place; the model stores the items themselves and writes the
  truncated item back under its (unchanged) key.
\<close>

section \<open>Operations\<close>

record 't ExtentRangeMap =
  tree :: 't

definition ExtentRangeMap_Begin ::
    "('t, 'v RangeValue) radix_ops \<Rightarrow> 't ExtentRangeMap \<Rightarrow> nat \<times> bool" where
  "ExtentRangeMap_Begin T m =
     visit (\<lambda>ie _. ((Offset ie, True), False)) (rt_Ascend T (tree m)) (0, False)"

definition ExtentRangeMap_End ::
    "('t, 'v RangeValue) radix_ops \<Rightarrow> 't ExtentRangeMap \<Rightarrow> nat" where
  "ExtentRangeMap_End T m =
     visit (\<lambda>ie _. (u64 (Offset ie + Length ie), False)) (rt_Descend T (tree m)) 0"

definition ExtentRangeMap_getByteRange ::
    "('t, 'v RangeValue) radix_ops \<Rightarrow> 't ExtentRangeMap \<Rightarrow> nat \<Rightarrow> nat \<Rightarrow> 'v RangeValue list" where
  "ExtentRangeMap_getByteRange T m start len =
     (let end = u64 (start + len); r = \<lparr>Offset = start, Length = len\<rparr> in
      visit (\<lambda>ie items.
          if Offset ie = end then (items, True)
          else if \<not> Range_Overlaps r ie then (items, False)
          else (items @ [ie], True))
        (rt_DescendLessOrEqualI T (tree m) end) [])"

definition ExtentRangeMap_Get ::
    "('t, 'v RangeValue) radix_ops \<Rightarrow> 't ExtentRangeMap \<Rightarrow> nat \<Rightarrow> 'v option" where
  "ExtentRangeMap_Get T m offset =
     visit (\<lambda>ie s. (if Range_Contains ie offset then Some (Value ie) else s, False))
       (rt_DescendLessOrEqualI T (tree m) offset) None"

definition ExtentRangeMap_GetWithRange ::
    "('t, 'v RangeValue) radix_ops \<Rightarrow> 't ExtentRangeMap \<Rightarrow> nat \<Rightarrow> 'v RangeValue option" where
  "ExtentRangeMap_GetWithRange T m offset =
     visit (\<lambda>ie s. (if Range_Contains ie offset then Some ie else s, False))
       (rt_DescendLessOrEqualI T (tree m) offset) None"

definition ExtentRangeMap_NextKey ::
    "('t, 'v RangeValue) radix_ops \<Rightarrow> 't ExtentRangeMap \<Rightarrow> nat \<Rightarrow> nat \<times> bool" where
  "ExtentRangeMap_NextKey T m offset =
     (if ExtentRangeMap_Get T m offset \<noteq> None then (offset, True)
      else visit (\<lambda>ie _. ((Offset ie, True), False))
        (rt_AscendGreaterOrEqualI T (tree m) offset) (0, False))"

definition ExtentRangeMap_NextEmpty ::
    "('t, 'v RangeValue) radix_ops \<Rightarrow> 't ExtentRangeMap \<Rightarrow> nat \<Rightarrow> nat" where
  "ExtentRangeMap_NextEmpty T m offset =
     (let next = visit (\<lambda>ie n. (if Range_Contains ie offset then u64 (Offset ie + Length ie) else n, False))
        (rt_DescendLessOrEqualI T (tree m) offset) offset
      in if next = offset then next
         else visit (\<lambda>ie n. if \<not> Range_Contains ie n then (n, False)
              else (u64 (Offset ie + Length ie), True))
            (rt_AscendGreaterOrEqualI T (tree m) next) next)"

text \<open>\<open>ReplaceOrInsert\<close> of an item whose key must be new: finding an old entry is a panic.\<close>

definition tree_insert_new ::
    "('t, 'v RangeValue) radix_ops \<Rightarrow> 't \<Rightarrow> 'v RangeValue \<Rightarrow> 't option" where
  "tree_insert_new T t item =
     (case rt_ReplaceOrInsert T t item of (t', None) \<Rightarrow> Some t' | (_, Some _) \<Rightarrow> None)"

definition tree_delete_item ::
    "('t, 'v RangeValue) radix_ops \<Rightarrow> 't \<Rightarrow> 'v RangeValue \<Rightarrow> 't option" where
  "tree_delete_item T t item =
     (case rt_Delete T t item of (t', old) \<Rightarrow> if old = Some item then Some t' else None)"

definition ExtentRangeMap_Remove_item ::
    "('t, 'v RangeValue) radix_ops \<Rightarrow> nat \<Rightarrow> nat \<Rightarrow> 'v RangeValue \<Rightarrow> 't \<Rightarrow> 't option" where
  "ExtentRangeMap_Remove_item T offset end ie t =
     (let ieEnd = u64 (Offset ie + Length ie);
          endItem = \<lparr>Offset = end, Length = ieEnd - end, Value = Value ie\<rparr>
      in if Offset ie < offset then do {
           t \<leftarrow> (if ieEnd > end then tree_insert_new T t endItem else Some t);
           Some (fst (rt_ReplaceOrInsert T t (ie\<lparr>Length := offset - Offset ie\<rparr>)))
         }
         else do {
           t \<leftarrow> (if ieEnd > end then tree_insert_new T t endItem else Some t);
           tree_delete_item T t ie
         })"

primrec ExtentRangeMap_Remove_loop ::
    "('t, 'v RangeValue) radix_ops \<Rightarrow> nat \<Rightarrow> nat \<Rightarrow> 'v RangeValue list \<Rightarrow> 't \<Rightarrow> 't option" where
  "ExtentRangeMap_Remove_loop T offset end [] t = Some t"
| "ExtentRangeMap_Remove_loop T offset end (ie # overlaps) t =
     do {
       t \<leftarrow> ExtentRangeMap_Remove_item T offset end ie t;
       ExtentRangeMap_Remove_loop T offset end overlaps t
     }"

definition ExtentRangeMap_Remove ::
    "('t, 'v RangeValue) radix_ops \<Rightarrow> 't ExtentRangeMap \<Rightarrow> nat \<Rightarrow> nat \<Rightarrow> 't ExtentRangeMap option" where
  "ExtentRangeMap_Remove T m offset len =
     (if len = 0 then Some m
      else do {
        let end = u64 (offset + len);
        let overlaps = ExtentRangeMap_getByteRange T m offset len;
        t \<leftarrow> ExtentRangeMap_Remove_loop T offset end overlaps (tree m);
        Some (m\<lparr>tree := t\<rparr>)
      })"

definition ExtentRangeMap_Add ::
    "('t, 'v RangeValue) radix_ops \<Rightarrow> 't ExtentRangeMap \<Rightarrow> nat \<Rightarrow> nat \<Rightarrow> 'v \<Rightarrow> 't ExtentRangeMap option" where
  "ExtentRangeMap_Add T m offset len value =
     (if len = 0 then Some m
      else do {
        let newItem = \<lparr>Offset = offset, Length = len, Value = value\<rparr>;
        m \<leftarrow> ExtentRangeMap_Remove T m offset len;
        t \<leftarrow> tree_insert_new T (tree m) newItem;
        Some (m\<lparr>tree := t\<rparr>)
      })"

text \<open>\<open>zero\<close> is the zero value of the value type, \<open>iter\<close> the callback with the state it closes over.\<close>

definition ExtentRangeMap_Iterate_step ::
    "nat \<Rightarrow> ('v RangeValue \<Rightarrow> 's \<Rightarrow> 's \<times> bool) \<Rightarrow> 'v RangeValue \<Rightarrow>
     'v RangeValue \<times> 's \<Rightarrow> ('v RangeValue \<times> 's) \<times> bool" where
  "ExtentRangeMap_Iterate_step start iter ie = (\<lambda>(r, s).
     if Offset ie < start then
       ((\<lparr>Offset = start, Length = u64 (Offset ie + Length ie) - start, Value = Value ie\<rparr>, s), True)
     else if Value r = Value ie \<and> Offset ie = u64 (Offset r + Length r) then
       ((r\<lparr>Length := u64 (Length r + Length ie)\<rparr>, s), True)
     else if Length r > 0 then
       (case iter r s of
          (s', False) \<Rightarrow> ((r\<lparr>Length := 0\<rparr>, s'), False)
        | (s', True) \<Rightarrow> ((ie, s'), True))
     else ((ie, s), True))"

definition ExtentRangeMap_Iterate ::
    "('t, 'v RangeValue) radix_ops \<Rightarrow> 'v \<Rightarrow> 't ExtentRangeMap \<Rightarrow> nat \<Rightarrow>
     ('v RangeValue \<Rightarrow> 's \<Rightarrow> 's \<times> bool) \<Rightarrow> 's \<Rightarrow> 's" where
  "ExtentRangeMap_Iterate T zero m start iter s =
     (let first = (if start > 0 then
            visit (\<lambda>ie f. (if Range_Contains ie start then Offset ie else f, False))
              (rt_DescendLessOrEqualI T (tree m) start) start
          else start);
          (r, s) = visit (ExtentRangeMap_Iterate_step start iter)
            (rt_AscendGreaterOrEqualI T (tree m) first)
            (\<lparr>Offset = 0, Length = 0, Value = zero\<rparr>, s)
      in if Length r > 0 then fst (iter r s) else s)"

definition ExtentRangeMap_empty :: "('t, 'v RangeValue) radix_ops \<Rightarrow> 't ExtentRangeMap" where
  "ExtentRangeMap_empty T = \<lparr>tree = rt_empty T\<rparr>"

section \<open>Invariant and abstraction\<close>

definition extents_ok :: "'v RangeValue set \<Rightarrow> bool" where
  "extents_ok S \<longleftrightarrow> separate S \<and> (\<forall>r\<in>S. good_range r)"

definition extent_inv ::
    "('t, 'v RangeValue) radix_ops \<Rightarrow> ('t \<Rightarrow> bool) \<Rightarrow> 't ExtentRangeMap \<Rightarrow> bool" where
  "extent_inv T ok m \<longleftrightarrow> ok (tree m) \<and> extents_ok (set (rt_Ascend T (tree m)))"

definition extent_abs :: "('t, 'v RangeValue) radix_ops \<Rightarrow> 't ExtentRangeMap \<Rightarrow> nat \<rightharpoonup> 'v" where
  "extent_abs T m = cover (rt_Ascend T (tree m))"

definition extent_runs ::
    "('t, 'v RangeValue) radix_ops \<Rightarrow> 'v \<Rightarrow> 't ExtentRangeMap \<Rightarrow> nat \<Rightarrow> 'v RangeValue list" where
  "extent_runs T zero m start = ExtentRangeMap_Iterate T zero m start (\<lambda>r acc. (acc @ [r], True)) []"

section \<open>Set-level facts\<close>

lemma extents_okD: "extents_ok S \<Longrightarrow> r \<in> S \<Longrightarrow> 0 < Length r \<and> rend r \<le> key_limit"
  by (simp add: extents_ok_def good_range_def)

lemma separateD: "separate S \<Longrightarrow> a \<in> S \<Longrightarrow> b \<in> S \<Longrightarrow> a \<noteq> b \<Longrightarrow> rend a \<le> Offset b \<or> rend b \<le> Offset a"
  by (simp add: separate_def)

lemma separate_insert: "separate (insert x S) \<longleftrightarrow>
  separate S \<and> (\<forall>y\<in>S. y \<noteq> x \<longrightarrow> rend x \<le> Offset y \<or> rend y \<le> Offset x)"
  by (auto simp: separate_def)

lemma separate_refine:
  assumes "separate S" "x \<in> S" "separate P" "\<forall>p\<in>P. Offset x \<le> Offset p \<and> rend p \<le> rend x"
  shows "separate ((S - {x}) \<union> P)"
proof (unfold separate_def, intro ballI impI)
  fix a b assume a: "a \<in> (S - {x}) \<union> P" and b: "b \<in> (S - {x}) \<union> P" and ne: "a \<noteq> b"
  have old: "rend c \<le> Offset p \<or> rend p \<le> Offset c" if "c \<in> S - {x}" "p \<in> P" for c p
  proof -
    from that assms have "rend c \<le> Offset x \<or> rend x \<le> Offset c"
      using separateD [of S c x] by auto
    with that assms(4) show ?thesis by (meson order_trans)
  qed
  from a b show "rend a \<le> Offset b \<or> rend b \<le> Offset a"
    using separateD [OF assms(1), of a b] separateD [OF assms(3), of a b] ne old [of a b] old [of b a]
    by auto
qed

text \<open>The parts of an extent outside \<open>offset ..< end\<close>.\<close>

definition pieces :: "nat \<Rightarrow> nat \<Rightarrow> 'v RangeValue \<Rightarrow> 'v RangeValue set" where
  "pieces offset end ie =
     (if Offset ie < offset then {ie\<lparr>Length := offset - Offset ie\<rparr>} else {}) \<union>
     (if end < rend ie then {\<lparr>Offset = end, Length = rend ie - end, Value = Value ie\<rparr>} else {})"

definition overlapping :: "nat \<Rightarrow> nat \<Rightarrow> 'z Range_scheme \<Rightarrow> bool" where
  "overlapping offset end i \<longleftrightarrow> Offset i < end \<and> offset < rend i"

lemma pieces_facts:
  assumes "good_range ie" "overlapping offset end ie" "offset < end"
  shows "separate (pieces offset end ie)"
    and "p \<in> pieces offset end ie \<Longrightarrow> good_range p \<and> Offset ie \<le> Offset p \<and> rend p \<le> rend ie"
    and "p \<in> pieces offset end ie \<Longrightarrow> \<not> overlapping offset end p"
    and "(\<exists>p\<in>pieces offset end ie. inside k p \<and> Value p = v) \<longleftrightarrow>
      inside k ie \<and> Value ie = v \<and> (k < offset \<or> end \<le> k)"
  using assms
  by (auto simp: pieces_def separate_def overlapping_def good_range_def inside_def split: if_splits)

lemma extents_ok_refine:
  assumes "extents_ok S" "ie \<in> S" "overlapping offset end ie" "offset < end"
  shows "extents_ok ((S - {ie}) \<union> pieces offset end ie)"
proof -
  from assms have good: "good_range ie" by (simp add: extents_ok_def)
  note pf = pieces_facts [OF good assms(3,4)]
  show ?thesis
    using assms separate_refine [of S ie "pieces offset end ie"] pf(1,2)
    by (auto simp: extents_ok_def)
qed

section \<open>Lookup in the tree\<close>

lemma visit_first: "visit (\<lambda>i s. (g i s, False)) xs s = (case xs of [] \<Rightarrow> s | x # _ \<Rightarrow> g x s)"
  by (cases xs) auto

lemma hd_rev_filter:
  assumes "sorted_wrt (\<lambda>a b. rend a \<le> Offset b) xs" "\<forall>r\<in>set xs. good_range r"
  shows "(case rev (filter (\<lambda>i. Offset i \<le> k) xs) of [] \<Rightarrow> None
      | x # _ \<Rightarrow> if inside k x then Some x else None) = find (inside k) xs"
  using assms
proof (induction xs)
  case (Cons y ys)
  then have IH: "(case rev (filter (\<lambda>i. Offset i \<le> k) ys) of [] \<Rightarrow> None
      | x # _ \<Rightarrow> if inside k x then Some x else None) = find (inside k) ys" by simp
  show ?case
  proof (cases "inside k y")
    case True
    with Cons.prems have "filter (\<lambda>i. Offset i \<le> k) ys = []"
      by (fastforce simp: inside_def filter_empty_conv)
    with True show ?thesis by (simp add: inside_def)
  next
    case False
    with IH show ?thesis by (auto split: list.splits)
  qed
qed simp

locale extent_tree = radix_tree T Range_Key ok
  for T :: "('t, 'v RangeValue) radix_ops" and ok :: "'t \<Rightarrow> bool" +
  fixes zero :: 'v
begin

lemma items_sorted_wrt:
  assumes "extent_inv T ok m"
  shows "sorted_wrt (\<lambda>a b. rend a \<le> Offset b) (rt_Ascend T (tree m))"
  using assms items_sorted [of "tree m"]
  by (intro separate_sorted)
    (auto simp: extent_inv_def extents_ok_def good_range_def Range_Key_def [abs_def])

lemma invD:
  assumes "extent_inv T ok m"
  shows "ok (tree m)" and "separate (set (rt_Ascend T (tree m)))"
    and "\<forall>r\<in>set (rt_Ascend T (tree m)). good_range r"
  using assms by (auto simp: extent_inv_def extents_ok_def)

lemma GetWithRange_find:
  assumes "extent_inv T ok m"
  shows "ExtentRangeMap_GetWithRange T m k = find (inside k) (rt_Ascend T (tree m))"
proof -
  let ?L = "rev (filter (\<lambda>i. Offset i \<le> k) (rt_Ascend T (tree m)))"
  note inv = invD [OF assms]
  have "ExtentRangeMap_GetWithRange T m k =
      (case ?L of [] \<Rightarrow> None | x # _ \<Rightarrow> if Range_Contains x k then Some x else None)"
    using inv(1) by (simp add: ExtentRangeMap_GetWithRange_def visit_first descend_le Range_Key_def)
  also have "\<dots> = (case ?L of [] \<Rightarrow> None | x # _ \<Rightarrow> if inside k x then Some x else None)"
  proof (cases ?L)
    case (Cons x xs)
    then have "x \<in> set ?L" by simp
    with inv(3) have "good_range x" by simp
    with Cons show ?thesis by (simp add: Range_Contains_inside)
  qed simp
  also have "\<dots> = find (inside k) (rt_Ascend T (tree m))"
    by (rule hd_rev_filter [OF items_sorted_wrt [OF assms] inv(3)])
  finally show ?thesis .
qed

lemma Get_GetWithRange:
  "ExtentRangeMap_Get T m k = map_option Value (ExtentRangeMap_GetWithRange T m k)"
  by (auto simp: ExtentRangeMap_Get_def ExtentRangeMap_GetWithRange_def visit_first
      split: list.splits)

lemma Get_extent_abs: "extent_inv T ok m \<Longrightarrow> ExtentRangeMap_Get T m k = extent_abs T m k"
  by (simp add: Get_GetWithRange GetWithRange_find extent_abs_def cover_def)

lemma extent_abs_Some: "extent_inv T ok m \<Longrightarrow>
  extent_abs T m k = Some v \<longleftrightarrow> (\<exists>r\<in>set (rt_Ascend T (tree m)). inside k r \<and> Value r = v)"
  by (simp add: extent_abs_def cover_Some invD)

lemma extent_abs_None: "extent_abs T m k = None \<longleftrightarrow> (\<forall>r\<in>set (rt_Ascend T (tree m)). \<not> inside k r)"
  by (simp add: extent_abs_def cover_None)

lemma extent_abs_ne: "extent_abs T m k \<noteq> None \<longleftrightarrow> (\<exists>r\<in>set (rt_Ascend T (tree m)). inside k r)"
  unfolding extent_abs_None by simp

end

section \<open>Searching for the next key and the next hole\<close>

lemma first_after:
  assumes "sorted_wrt (\<lambda>a b. rend a \<le> Offset b) xs" "\<forall>r\<in>set xs. good_range r"
    and "filter (\<lambda>i. k \<le> Offset i) xs = y # ys"
    and "j \<ge> k" "r \<in> set xs" "inside j r" "\<forall>r\<in>set xs. \<not> inside k r"
  shows "Offset y \<le> j"
proof -
  have "k \<le> Offset r"
    using assms(4-7) by (fastforce simp: inside_def)
  with assms(5) have "r \<in> set (filter (\<lambda>i. k \<le> Offset i) xs)" by simp
  then have "r \<in> set (y # ys)" unfolding assms(3) .
  moreover have "sorted_wrt (\<lambda>a b. rend a \<le> Offset b) (y # ys)"
    using assms(1,3) sorted_wrt_filter by metis
  ultimately have "Offset y \<le> Offset r" by auto
  then show ?thesis using assms(6) by (simp add: inside_def)
qed

text \<open>Following adjacent extents from \<open>n\<close> on ends at the first key no later extent holds.\<close>

definition follow :: "'v RangeValue \<Rightarrow> nat \<Rightarrow> nat \<times> bool" where
  "follow ie n = (if \<not> Range_Contains ie n then (n, False) else (u64 (Offset ie + Length ie), True))"

lemma follow_extents:
  assumes "sorted_wrt (\<lambda>a b. rend a \<le> Offset b) xs" "\<forall>r\<in>set xs. good_range r"
    and "\<forall>r\<in>set xs. n \<le> Offset r"
  shows "n \<le> visit follow xs n" and "\<forall>r\<in>set xs. \<not> inside (visit follow xs n) r"
    and "n \<le> j \<Longrightarrow> j < visit follow xs n \<Longrightarrow> \<exists>r\<in>set xs. inside j r"
proof -
  let ?Q = "\<lambda>xs n. n \<le> visit follow xs n \<and> (\<forall>r\<in>set xs. \<not> inside (visit follow xs n) r) \<and>
    (\<forall>j. n \<le> j \<longrightarrow> j < visit follow xs n \<longrightarrow> (\<exists>r\<in>set xs. inside j r))"
  have "?Q xs n"
    using assms
  proof (induction xs arbitrary: n)
    case (Cons y ys)
    have good: "good_range y" using Cons.prems by simp
    show ?case
    proof (cases "inside n y")
      case True
      have y: "Offset y = n" "n < rend y" using True Cons.prems by (auto simp: inside_def)
      have v: "visit follow (y # ys) n = visit follow ys (rend y)"
        using good True by (simp add: follow_def Range_Contains_inside good_range_def u64_id)
      have IH: "?Q ys (rend y)" using Cons.prems by (intro Cons.IH) auto
      have "\<not> inside (visit follow ys (rend y)) y" using IH by (auto simp: inside_def)
      moreover have "\<exists>r\<in>set (y # ys). inside j r" if "n \<le> j" "j < visit follow ys (rend y)" for j
        using IH that y by (cases "j < rend y") (auto simp: inside_def)
      ultimately show ?thesis unfolding v using IH y by auto
    next
      case False
      have "\<forall>r\<in>set ys. \<not> inside n r"
        using Cons.prems False good by (fastforce simp: inside_def good_range_def)
      with False good show ?thesis by (simp add: follow_def Range_Contains_inside)
    qed
  qed simp
  then show "n \<le> visit follow xs n" and "\<forall>r\<in>set xs. \<not> inside (visit follow xs n) r"
    and "n \<le> j \<Longrightarrow> j < visit follow xs n \<Longrightarrow> \<exists>r\<in>set xs. inside j r"
    by blast+
qed

context extent_tree
begin

lemma NextKey_extent:
  assumes "extent_inv T ok m"
  shows "ExtentRangeMap_NextKey T m k =
    (if \<exists>j\<ge>k. extent_abs T m j \<noteq> None then (LEAST j. k \<le> j \<and> extent_abs T m j \<noteq> None, True)
     else (0, False))"
proof (cases "extent_abs T m k = None")
  case False
  then have "(LEAST j. k \<le> j \<and> extent_abs T m j \<noteq> None) = k"
    by (intro Least_equality) auto
  with False show ?thesis
    using Get_extent_abs [OF assms, of k] by (auto simp: ExtentRangeMap_NextKey_def)
next
  case True
  let ?L = "filter (\<lambda>i. k \<le> Offset i) (rt_Ascend T (tree m))"
  note inv = invD [OF assms] and sorted = items_sorted_wrt [OF assms]
  have nk: "ExtentRangeMap_NextKey T m k = (case ?L of [] \<Rightarrow> (0, False) | y # _ \<Rightarrow> (Offset y, True))"
    using True Get_extent_abs [OF assms, of k] inv(1)
    by (simp add: ExtentRangeMap_NextKey_def visit_first ascend_ge Range_Key_def)
  have none: "\<forall>r\<in>set (rt_Ascend T (tree m)). \<not> inside k r"
    using True extent_abs_None by blast
  show ?thesis
  proof (cases ?L)
    case Nil
    then have "\<not> (\<exists>j\<ge>k. extent_abs T m j \<noteq> None)"
      using none unfolding extent_abs_ne inside_def filter_empty_conv by fastforce
    with Nil nk show ?thesis by simp
  next
    case (Cons y ys)
    then have "y \<in> set ?L" by simp
    then have y: "y \<in> set (rt_Ascend T (tree m))" "k \<le> Offset y" by auto
    then have iy: "extent_abs T m (Offset y) \<noteq> None"
      using inv(3) unfolding extent_abs_ne by (auto simp: inside_def good_range_def intro!: bexI [of _ y])
    have "(LEAST j. k \<le> j \<and> extent_abs T m j \<noteq> None) = Offset y"
    proof (rule Least_equality)
      fix j assume "k \<le> j \<and> extent_abs T m j \<noteq> None"
      then show "Offset y \<le> j"
        unfolding extent_abs_ne using first_after [OF sorted inv(3) Cons _ _ _ none] by blast
    qed (use y(2) iy in simp)
    with Cons nk y(2) iy show ?thesis by auto
  qed
qed

lemma NextEmpty_extent:
  assumes "extent_inv T ok m"
  shows "ExtentRangeMap_NextEmpty T m k = (LEAST j. k \<le> j \<and> extent_abs T m j = None)"
proof -
  let ?I = "rt_Ascend T (tree m)"
  note inv = invD [OF assms] and sorted = items_sorted_wrt [OF assms]
  have first: "visit (\<lambda>ie n. (if Range_Contains ie k then u64 (Offset ie + Length ie) else n, False))
        (rt_DescendLessOrEqualI T (tree m) k) k =
      (case ExtentRangeMap_GetWithRange T m k of None \<Rightarrow> k | Some r \<Rightarrow> u64 (rend r))"
    by (auto simp: ExtentRangeMap_GetWithRange_def visit_first split: list.splits)
  show ?thesis
  proof (cases "find (inside k) ?I")
    case None
    then have "extent_abs T m k = None" by (simp add: extent_abs_def cover_def)
    then have "(LEAST j. k \<le> j \<and> extent_abs T m j = None) = k" by (intro Least_equality) auto
    with None first show ?thesis
      by (simp add: ExtentRangeMap_NextEmpty_def GetWithRange_find [OF assms])
  next
    case (Some r)
    then have r: "r \<in> set ?I" "inside k r" by (auto simp: find_Some_iff)
    then have u: "u64 (rend r) = rend r" and lt: "k < rend r"
      using inv(3) by (auto simp: good_range_def u64_id inside_def)
    let ?L = "filter (\<lambda>i. rend r \<le> Offset i) ?I"
    let ?e = "visit follow ?L (rend r)"
    have ne: "ExtentRangeMap_NextEmpty T m k = ?e"
      using first Some u lt inv(1)
      by (simp add: ExtentRangeMap_NextEmpty_def GetWithRange_find [OF assms] ascend_ge Range_Key_def
          follow_def [abs_def] Let_def)
    have L: "sorted_wrt (\<lambda>a b. rend a \<le> Offset b) ?L" "\<forall>r\<in>set ?L. good_range r"
        "\<forall>q\<in>set ?L. rend r \<le> Offset q"
      using sorted inv(3) by (auto intro: sorted_wrt_filter)
    note fe = follow_extents [OF L]
    have before: "rend q \<le> rend r" if "q \<in> set ?I" "\<not> rend r \<le> Offset q" for q
      using separateD [OF inv(2) that(1) r(1)] that inv(3) r(1) by (fastforce simp: good_range_def)
    have "extent_abs T m ?e = None"
      unfolding extent_abs_None using fe(1,2) before by (fastforce simp: inside_def)
    moreover have "extent_abs T m j \<noteq> None" if "k \<le> j" "j < ?e" for j
    proof (cases "j < rend r")
      case True
      with r that have "inside j r" by (simp add: inside_def)
      with r show ?thesis unfolding extent_abs_ne by blast
    next
      case False
      with fe(3) [of j] that show ?thesis unfolding extent_abs_ne by auto
    qed
    ultimately have "(LEAST j. k \<le> j \<and> extent_abs T m j = None) = ?e"
      using fe(1) lt by (intro Least_from) auto
    with ne show ?thesis by simp
  qed
qed

lemma Begin_extent:
  assumes "extent_inv T ok m"
  shows "ExtentRangeMap_Begin T m =
    (if extent_abs T m = Map.empty then (0, False) else (LEAST k. extent_abs T m k \<noteq> None, True))"
proof (cases "rt_Ascend T (tree m)")
  case Nil
  then have "extent_abs T m = Map.empty" by (simp add: extent_abs_def cover_def fun_eq_iff)
  with Nil show ?thesis by (simp add: ExtentRangeMap_Begin_def)
next
  case (Cons y ys)
  note inv = invD [OF assms] and sorted = items_sorted_wrt [OF assms]
  have iy: "extent_abs T m (Offset y) \<noteq> None"
    using inv(3) Cons unfolding extent_abs_ne by (auto simp: inside_def good_range_def)
  have "(LEAST k. extent_abs T m k \<noteq> None) = Offset y"
  proof (rule Least_equality)
    fix k assume "extent_abs T m k \<noteq> None"
    then show "Offset y \<le> k"
      using sorted Cons unfolding extent_abs_ne by (fastforce simp: inside_def)
  qed (rule iy)
  with Cons iy show ?thesis by (auto simp: ExtentRangeMap_Begin_def)
qed

lemma End_extent:
  assumes "extent_inv T ok m"
  shows "extent_abs T m k \<noteq> None \<Longrightarrow> k < ExtentRangeMap_End T m"
    and "0 < ExtentRangeMap_End T m \<Longrightarrow> extent_abs T m (ExtentRangeMap_End T m - 1) \<noteq> None"
proof -
  note inv = invD [OF assms] and sorted = items_sorted_wrt [OF assms]
  let ?I = "rt_Ascend T (tree m)"
  have "(extent_abs T m k \<noteq> None \<longrightarrow> k < ExtentRangeMap_End T m) \<and>
    (0 < ExtentRangeMap_End T m \<longrightarrow> extent_abs T m (ExtentRangeMap_End T m - 1) \<noteq> None)"
  proof (cases ?I rule: rev_cases)
    case Nil
    then show ?thesis
      using inv(1) by (simp add: extent_abs_def cover_def ExtentRangeMap_End_def descend)
  next
    case (snoc ys y)
    then have y: "y \<in> set ?I" by simp
    with inv(3) have g: "0 < Length y" "u64 (rend y) = rend y"
      by (auto simp: good_range_def u64_id)
    have e: "ExtentRangeMap_End T m = rend y"
      using inv(1) snoc g by (simp add: ExtentRangeMap_End_def descend)
    have "rend q \<le> rend y" if "q \<in> set ?I" for q
      using sorted snoc that by (auto simp: sorted_wrt_append)
    then have "extent_abs T m k \<noteq> None \<longrightarrow> k < rend y"
      unfolding extent_abs_ne by (fastforce simp: inside_def)
    moreover have "extent_abs T m (rend y - 1) \<noteq> None"
      unfolding extent_abs_ne using y g by (auto simp: inside_def intro!: bexI [of _ y])
    ultimately show ?thesis unfolding e by simp
  qed
  then show "extent_abs T m k \<noteq> None \<Longrightarrow> k < ExtentRangeMap_End T m"
    and "0 < ExtentRangeMap_End T m \<Longrightarrow> extent_abs T m (ExtentRangeMap_End T m - 1) \<noteq> None"
    by blast+
qed

end

section \<open>Removing and adding\<close>

text \<open>The extents collected by \<open>getByteRange\<close> are those that overlap the range, last first.\<close>

lemma collect_overlaps:
  assumes "sorted_wrt (\<lambda>a b. rend b \<le> Offset a) xs" "\<forall>r\<in>set xs. good_range r \<and> Offset r \<le> end"
    and "start < end" "end = start + len" "end \<le> key_limit"
  shows "visit (\<lambda>ie items. if Offset ie = end then (items, True)
       else if \<not> Range_Overlaps \<lparr>Offset = start, Length = len\<rparr> ie then (items, False)
       else (items @ [ie], True)) xs acc = acc @ filter (overlapping start end) xs"
  using assms(1,2)
proof (induction xs arbitrary: acc)
  case (Cons y ys)
  have g: "good_range y" "Offset y \<le> end" using Cons.prems by auto
  have ov: "Range_Overlaps \<lparr>Offset = start, Length = len\<rparr> y \<longleftrightarrow> overlapping start end y"
    if "Offset y < end"
    using that g assms(3-5)
    by (auto simp: Range_Overlaps_def Range_Contains_def overlapping_def good_range_def u64_id)
  show ?case
  proof (cases "Offset y < end")
    case True
    show ?thesis
    proof (cases "overlapping start end y")
      case no: False
      then have "filter (overlapping start end) ys = []"
        using True Cons.prems g by (fastforce simp: overlapping_def good_range_def filter_empty_conv)
      with True no ov show ?thesis by simp
    qed (use True ov Cons in auto)
  next
    case False
    then have "Offset y = end" "\<not> overlapping start end y" using g by (auto simp: overlapping_def)
    with Cons show ?thesis by simp
  qed
qed simp

context extent_tree
begin

lemma getByteRange_extent:
  assumes "extent_inv T ok m" "0 < len" "start + len \<le> key_limit"
  shows "ExtentRangeMap_getByteRange T m start len =
    rev (filter (overlapping start (start + len)) (rt_Ascend T (tree m)))"
proof -
  let ?e = "start + len"
  let ?L = "rev (filter (\<lambda>i. Offset i \<le> ?e) (rt_Ascend T (tree m)))"
  note inv = invD [OF assms(1)] and sorted = items_sorted_wrt [OF assms(1)]
  have u: "u64 ?e = ?e" using assms(3) by (simp add: u64_id)
  have "sorted_wrt (\<lambda>a b. rend b \<le> Offset a) ?L"
    using sorted by (simp add: sorted_wrt_rev sorted_wrt_filter)
  then have "ExtentRangeMap_getByteRange T m start len = [] @ filter (overlapping start ?e) ?L"
    unfolding ExtentRangeMap_getByteRange_def Let_def u descend_le [OF inv(1)] Range_Key_def
    using assms(2,3) inv(3) by (intro collect_overlaps) auto
  also have "\<dots> = rev (filter (overlapping start ?e) (rt_Ascend T (tree m)))"
    by (simp add: rev_filter [symmetric]) (rule filter_cong, auto simp: overlapping_def)
  finally show ?thesis .
qed

lemma insert_new_ok:
  assumes "ok t" "\<forall>j\<in>set (rt_Ascend T t). Offset j \<noteq> Offset i"
  shows "\<exists>t'. tree_insert_new T t i = Some t' \<and> ok t' \<and>
    set (rt_Ascend T t') = insert i (set (rt_Ascend T t))"
proof -
  have "snd (rt_ReplaceOrInsert T t i) = None"
    using assms by (simp add: insert_old find_None_iff Range_Key_def)
  moreover have "{j \<in> set (rt_Ascend T t). Range_Key j \<noteq> Range_Key i} = set (rt_Ascend T t)"
    using assms(2) by (auto simp: Range_Key_def)
  ultimately show ?thesis
    using insert_ok [OF assms(1), of i] insert_items [OF assms(1), of i]
    by (cases "rt_ReplaceOrInsert T t i") (auto simp: tree_insert_new_def)
qed

lemma delete_item_ok:
  assumes "ok t" "i \<in> set (rt_Ascend T t)"
  shows "\<exists>t'. tree_delete_item T t i = Some t' \<and> ok t' \<and>
    set (rt_Ascend T t') = set (rt_Ascend T t) - {i}"
proof -
  have "snd (rt_Delete T t i) = Some i"
    using assms by (simp add: delete_old find_key)
  moreover have "{j \<in> set (rt_Ascend T t). Range_Key j \<noteq> Range_Key i} = set (rt_Ascend T t) - {i}"
    using assms key_inj [OF assms(1)] by auto
  ultimately show ?thesis
    using delete_ok [OF assms(1), of i] delete_items [OF assms(1), of i]
    by (cases "rt_Delete T t i") (auto simp: tree_delete_item_def)
qed

lemma truncate_ok:
  assumes "ok t" "i \<in> set (rt_Ascend T t)"
  shows "ok (fst (rt_ReplaceOrInsert T t (i\<lparr>Length := l\<rparr>)))"
    and "set (rt_Ascend T (fst (rt_ReplaceOrInsert T t (i\<lparr>Length := l\<rparr>)))) =
      insert (i\<lparr>Length := l\<rparr>) (set (rt_Ascend T t) - {i})"
proof -
  have "{j \<in> set (rt_Ascend T t). Range_Key j \<noteq> Range_Key (i\<lparr>Length := l\<rparr>)} = set (rt_Ascend T t) - {i}"
    using assms key_inj [OF assms(1)] by (auto simp: Range_Key_def)
  then show "set (rt_Ascend T (fst (rt_ReplaceOrInsert T t (i\<lparr>Length := l\<rparr>)))) =
      insert (i\<lparr>Length := l\<rparr>) (set (rt_Ascend T t) - {i})"
    using insert_items [OF assms(1), of "i\<lparr>Length := l\<rparr>"] by simp
qed (rule insert_ok [OF assms(1)])

lemma Remove_item_ok:
  assumes t: "ok t" "extents_ok (set (rt_Ascend T t))"
    and ie: "ie \<in> set (rt_Ascend T t)" "overlapping offset end ie" "offset < end"
  shows "\<exists>t'. ExtentRangeMap_Remove_item T offset end ie t = Some t' \<and> ok t' \<and>
    set (rt_Ascend T t') = (set (rt_Ascend T t) - {ie}) \<union> pieces offset end ie"
proof -
  let ?S = "set (rt_Ascend T t)"
  let ?endItem = "\<lparr>Offset = end, Length = rend ie - end, Value = Value ie\<rparr>"
  from t ie have g: "good_range ie" by (simp add: extents_ok_def)
  then have u: "u64 (rend ie) = rend ie" by (simp add: good_range_def u64_id)
  have lt: "Offset ie < end" using ie(2) by (simp add: overlapping_def)
  have fresh: "\<forall>j\<in>?S. Offset j \<noteq> Offset ?endItem" if "end < rend ie"
    using t(2) ie(1) that lt separateD [of ?S _ ie] extents_okD [OF t(2)]
    unfolding extents_ok_def by fastforce
  define t1 where "t1 = (if rend ie > end then tree_insert_new T t ?endItem else Some t)"
  have "\<exists>t'. t1 = Some t' \<and> ok t' \<and>
      set (rt_Ascend T t') = (if end < rend ie then {?endItem} else {}) \<union> ?S"
    using insert_new_ok [OF t(1) fresh] t(1) unfolding t1_def by auto
  then obtain t' where t': "t1 = Some t'" "ok t'"
      "set (rt_Ascend T t') = (if end < rend ie then {?endItem} else {}) \<union> ?S" by auto
  have ie': "ie \<in> set (rt_Ascend T t')" using t' ie by simp
  have ne: "?endItem \<noteq> ie" using lt by (metis RangeValue.select_convs(1) Range.select_convs(1) less_irrefl)
  show ?thesis
  proof (cases "Offset ie < offset")
    case True
    then have "ExtentRangeMap_Remove_item T offset end ie t =
        Some (fst (rt_ReplaceOrInsert T t' (ie\<lparr>Length := offset - Offset ie\<rparr>)))"
      using t'(1) by (simp add: ExtentRangeMap_Remove_item_def u t1_def)
    with True ne truncate_ok [OF t'(2) ie', of "offset - Offset ie"] t'(3) show ?thesis
      by (auto simp: pieces_def)
  next
    case False
    then have "ExtentRangeMap_Remove_item T offset end ie t = tree_delete_item T t' ie"
      using t'(1) by (simp add: ExtentRangeMap_Remove_item_def u t1_def)
    with False ne delete_item_ok [OF t'(2) ie'] t'(3) show ?thesis
      by (auto simp: pieces_def)
  qed
qed

lemma Remove_loop_ok:
  assumes "ok t" "extents_ok (set (rt_Ascend T t))" "offset < end"
    and "set os \<subseteq> set (rt_Ascend T t)" "distinct os" "\<forall>o'\<in>set os. overlapping offset end o'"
  shows "\<exists>t'. ExtentRangeMap_Remove_loop T offset end os t = Some t' \<and> ok t' \<and>
    extents_ok (set (rt_Ascend T t')) \<and>
    set (rt_Ascend T t') = (set (rt_Ascend T t) - set os) \<union> (\<Union>o'\<in>set os. pieces offset end o')"
  using assms
proof (induction os arbitrary: t)
  case (Cons ie os)
  let ?S = "set (rt_Ascend T t)"
  have ie: "ie \<in> ?S" "overlapping offset end ie" "offset < end" using Cons.prems by auto
  from Remove_item_ok [OF Cons.prems(1,2) ie] obtain t1
    where t1: "ExtentRangeMap_Remove_item T offset end ie t = Some t1" "ok t1"
      "set (rt_Ascend T t1) = (?S - {ie}) \<union> pieces offset end ie" by blast
  have ext: "extents_ok (set (rt_Ascend T t1))"
    unfolding t1(3) using extents_ok_refine [OF Cons.prems(2) ie] .
  have g: "good_range ie" using Cons.prems(2) ie(1) by (simp add: extents_ok_def)
  have disj: "pieces offset end ie \<inter> set os = {}"
    using pieces_facts(3) [OF g ie(2,3)] Cons.prems(6) by auto
  have "set os \<subseteq> set (rt_Ascend T t1)" using Cons.prems t1(3) by auto
  from Cons.IH [OF t1(2) ext ie(3) this] Cons.prems obtain t2
    where "ExtentRangeMap_Remove_loop T offset end os t1 = Some t2" "ok t2"
      "extents_ok (set (rt_Ascend T t2))"
      "set (rt_Ascend T t2) = (set (rt_Ascend T t1) - set os) \<union> (\<Union>o'\<in>set os. pieces offset end o')"
    by auto
  with t1 disj show ?case by auto
qed simp

text \<open>What \<open>Remove\<close> leaves: no extent meets the range, and outside it nothing changed.\<close>

lemma Remove_extent:
  assumes "extent_inv T ok m" "off + len \<le> key_limit"
  shows "\<exists>m'. ExtentRangeMap_Remove T m off len = Some m' \<and> extent_inv T ok m' \<and>
    (0 < len \<longrightarrow> (\<forall>r\<in>set (rt_Ascend T (tree m')). \<not> overlapping off (off + len) r)) \<and>
    extent_abs T m' = (\<lambda>k. if off \<le> k \<and> k < off + len then None else extent_abs T m k)"
proof (cases "len = 0")
  case True
  with assms show ?thesis by (auto simp: ExtentRangeMap_Remove_def fun_eq_iff)
next
  case False
  let ?e = "off + len" and ?S = "set (rt_Ascend T (tree m))"
  let ?os = "rev (filter (overlapping off ?e) (rt_Ascend T (tree m)))"
  note inv = invD [OF assms(1)]
  have eok: "extents_ok ?S" using assms(1) by (simp add: extent_inv_def)
  have lt: "off < ?e" using False by simp
  have os: "set ?os \<subseteq> ?S" "distinct ?os" "\<forall>o'\<in>set ?os. overlapping off ?e o'"
    using items_distinct [OF inv(1)] by simp_all
  obtain t
    where t: "ExtentRangeMap_Remove_loop T off ?e ?os (tree m) = Some t" "ok t"
      "extents_ok (set (rt_Ascend T t))"
      "set (rt_Ascend T t) = (?S - set ?os) \<union> (\<Union>o'\<in>set ?os. pieces off ?e o')"
    using Remove_loop_ok [OF inv(1) eok lt os] by (elim exE conjE) (rule that)
  let ?m = "m\<lparr>tree := t\<rparr>"
  have R: "ExtentRangeMap_Remove T m off len = Some ?m"
    using t(1) False assms(2) getByteRange_extent [OF assms(1), of len off]
    by (simp add: ExtentRangeMap_Remove_def u64_id)
  have im: "extent_inv T ok ?m" using t(2,3) by (simp add: extent_inv_def)
  have g: "\<And>r. r \<in> ?S \<Longrightarrow> good_range r" using inv(3) by blast
  have no: "\<forall>r\<in>set (rt_Ascend T t). \<not> overlapping off ?e r"
    unfolding t(4) using pieces_facts(3) [OF g _ lt] by fastforce
  have "(\<exists>r\<in>set (rt_Ascend T t). inside k r \<and> Value r = v) \<longleftrightarrow>
      (k < off \<or> ?e \<le> k) \<and> (\<exists>r\<in>?S. inside k r \<and> Value r = v)" for k v
  proof -
    have "(\<exists>r\<in>set (rt_Ascend T t). inside k r \<and> Value r = v) \<longleftrightarrow>
        (\<exists>r\<in>?S. \<not> overlapping off ?e r \<and> inside k r \<and> Value r = v) \<or>
        (\<exists>r\<in>?S. overlapping off ?e r \<and> (\<exists>p\<in>pieces off ?e r. inside k p \<and> Value p = v))"
      unfolding t(4) by auto
    also have "\<dots> \<longleftrightarrow> (k < off \<or> ?e \<le> k) \<and> (\<exists>r\<in>?S. inside k r \<and> Value r = v)"
      using pieces_facts(4) [OF g _ lt, of _ k v] by (fastforce simp: overlapping_def inside_def)
    finally show ?thesis .
  qed
  then have S: "extent_abs T ?m k = Some v \<longleftrightarrow>
      (k < off \<or> ?e \<le> k) \<and> extent_abs T m k = Some v" for k v
    by (simp add: extent_abs_Some [OF im] extent_abs_Some [OF assms(1)])
  have "extent_abs T ?m = (\<lambda>k. if off \<le> k \<and> k < ?e then None else extent_abs T m k)"
    by (intro ext option_eqI) (auto simp: S)
  with R im no show ?thesis by auto
qed

lemma Add_extent:
  assumes "extent_inv T ok m" "off + len \<le> key_limit"
  shows "\<exists>m'. ExtentRangeMap_Add T m off len v = Some m' \<and> extent_inv T ok m' \<and>
    extent_abs T m' = add_range off len v (extent_abs T m)"
proof (cases "len = 0")
  case True
  with assms show ?thesis by (auto simp: ExtentRangeMap_Add_def add_range_def fun_eq_iff)
next
  case False
  let ?new = "\<lparr>Offset = off, Length = len, Value = v\<rparr>"
  from Remove_extent [OF assms] False obtain m1
    where m1: "ExtentRangeMap_Remove T m off len = Some m1" "extent_inv T ok m1"
      "\<forall>r\<in>set (rt_Ascend T (tree m1)). \<not> overlapping off (off + len) r"
      "extent_abs T m1 = (\<lambda>k. if off \<le> k \<and> k < off + len then None else extent_abs T m k)"
    by auto
  note inv = invD [OF m1(2)]
  have "\<forall>j\<in>set (rt_Ascend T (tree m1)). Offset j \<noteq> Offset ?new"
    using m1(3) inv(3) False by (fastforce simp: overlapping_def good_range_def)
  from insert_new_ok [OF inv(1) this] obtain t
    where t: "tree_insert_new T (tree m1) ?new = Some t" "ok t"
      "set (rt_Ascend T t) = insert ?new (set (rt_Ascend T (tree m1)))" by auto
  let ?m = "m1\<lparr>tree := t\<rparr>"
  have A: "ExtentRangeMap_Add T m off len v = Some ?m"
    using False m1(1) t(1) by (simp add: ExtentRangeMap_Add_def)
  have im: "extent_inv T ok ?m"
    using t(2,3) inv(2,3) m1(3) False assms(2)
    by (auto simp: extent_inv_def extents_ok_def separate_insert good_range_def overlapping_def not_less)
  have "extent_abs T ?m k = Some w \<longleftrightarrow> add_range off len v (extent_abs T m) k = Some w" for k w
  proof -
    have "extent_abs T ?m k = Some w \<longleftrightarrow> (inside k ?new \<and> v = w) \<or> extent_abs T m1 k = Some w"
      unfolding extent_abs_Some [OF im] extent_abs_Some [OF m1(2)] using t(3) by auto
    then show ?thesis unfolding m1(4) by (auto simp: inside_def add_range_def)
  qed
  then have "extent_abs T ?m = add_range off len v (extent_abs T m)"
    by (intro ext option_eqI)
  with A im show ?thesis by blast
qed

end

section \<open>Iteration\<close>

fun coalesce :: "'v RangeValue \<Rightarrow> 'v RangeValue list \<Rightarrow> 'v RangeValue list" where
  "coalesce r [] = (if Length r > 0 then [r] else [])"
| "coalesce r (ie # xs) =
     (if Value r = Value ie \<and> Offset ie = rend r then coalesce (r\<lparr>Length := Length r + Length ie\<rparr>) xs
      else if Length r > 0 then r # coalesce ie xs
      else coalesce ie xs)"

definition clip :: "nat \<Rightarrow> 'v RangeValue \<Rightarrow> 'v RangeValue" where
  "clip start r = \<lparr>Offset = start, Length = rend r - start, Value = Value r\<rparr>"

definition clipped :: "nat \<Rightarrow> 'v RangeValue list \<Rightarrow> 'v RangeValue list" where
  "clipped start xs =
     (case find (inside start) xs of None \<Rightarrow> [] | Some x \<Rightarrow> if Offset x < start then [clip start x] else [])
     @ filter (\<lambda>i. start \<le> Offset i) xs"

lemma visit_collect: "visit (\<lambda>r acc. (acc @ [r], True)) xs acc = acc @ xs"
  by (induction xs arbitrary: acc) auto

lemma visit_coalesce:
  assumes "\<forall>ie\<in>set xs. start \<le> Offset ie \<and> good_range ie" "rend r \<le> key_limit"
  shows "(case visit (ExtentRangeMap_Iterate_step start iter) xs (r, s) of
      (r', s') \<Rightarrow> if Length r' > 0 then fst (iter r' s') else s') = visit iter (coalesce r xs) s"
  using assms
proof (induction xs arbitrary: r s)
  case Nil
  then show ?case by (auto split: prod.splits bool.splits)
next
  case (Cons ie xs)
  have g: "start \<le> Offset ie" "rend ie \<le> key_limit" "u64 (rend r) = rend r"
    using Cons.prems by (auto simp: good_range_def u64_id)
  show ?case
  proof (cases "Value r = Value ie \<and> Offset ie = rend r")
    case True
    then have u: "u64 (Length r + Length ie) = Length r + Length ie"
      using g by (simp add: u64_id)
    have "rend (r\<lparr>Length := Length r + Length ie\<rparr>) \<le> key_limit" using True g by simp
    from Cons.IH [OF _ this, of s] Cons.prems(1) True g u show ?thesis
      by (simp add: ExtentRangeMap_Iterate_step_def)
  next
    case False
    have IH: "(case visit (ExtentRangeMap_Iterate_step start iter) xs (ie, s') of
        (r', s') \<Rightarrow> if Length r' > 0 then fst (iter r' s') else s') = visit iter (coalesce ie xs) s'" for s'
      using Cons.IH [of ie s'] Cons.prems(1) g(2) by simp
    obtain s' b where "iter r s = (s', b)" by fastforce
    moreover from this False g(1,3) have "ExtentRangeMap_Iterate_step start iter ie (r, s) =
        (if Length r > 0 then if b then ((ie, s'), True) else ((r\<lparr>Length := 0\<rparr>, s'), False)
         else ((ie, s), True))"
      by (auto simp: ExtentRangeMap_Iterate_step_def)
    ultimately show ?thesis
      using False IH [of s] IH [of s'] by (cases b) auto
  qed
qed

lemma coalesce_runs:
  assumes "sorted_wrt (\<lambda>a b. rend a \<le> Offset b) (r # xs)" "\<forall>q\<in>set (r # xs). 0 < Length q"
  shows "(\<exists>q qs. coalesce r xs = q # qs \<and> Offset q = Offset r \<and> Value q = Value r) \<and>
    sorted_wrt (\<lambda>a b. rend a \<le> Offset b) (coalesce r xs) \<and>
    successively (\<lambda>a b. \<not> (rend a = Offset b \<and> Value a = Value b)) (coalesce r xs) \<and>
    (\<forall>q\<in>set (coalesce r xs). 0 < Length q \<and> Offset r \<le> Offset q) \<and>
    cover (coalesce r xs) = cover (r # xs)"
  using assms
proof (induction xs arbitrary: r)
  case (Cons ie xs)
  show ?case
  proof (cases "Value r = Value ie \<and> Offset ie = rend r")
    case True
    let ?r = "r\<lparr>Length := Length r + Length ie\<rparr>"
    have cov: "cover (?r # xs) = cover (r # ie # xs)"
      using True by (auto simp: cover_Cons inside_def fun_eq_iff)
    have prems: "sorted_wrt (\<lambda>a b. rend a \<le> Offset b) (?r # xs)" "\<forall>q\<in>set (?r # xs). 0 < Length q"
      using Cons.prems True by auto
    have "coalesce r (ie # xs) = coalesce ?r xs" using True by simp
    with Cons.IH [OF prems] show ?thesis unfolding cov by simp
  next
    case False
    have "sorted_wrt (\<lambda>a b. rend a \<le> Offset b) (ie # xs)" "\<forall>q\<in>set (ie # xs). 0 < Length q"
      and r: "0 < Length r" "rend r \<le> Offset ie"
      using Cons.prems by auto
    note IH = Cons.IH [OF this(1,2)]
    from IH obtain q qs where q: "coalesce ie xs = q # qs" "Offset q = Offset ie" "Value q = Value ie"
      by blast
    from False r IH show ?thesis
      by (auto simp: q fun_eq_iff cover_Cons)
  qed
qed simp

lemma filter_from:
  assumes "sorted_wrt (\<lambda>a b. rend a \<le> Offset b) xs" "\<forall>q\<in>set xs. good_range q"
    and "x \<in> set xs" "inside start x" "Offset x < start"
  shows "filter (\<lambda>i. Offset x \<le> Offset i) xs = x # filter (\<lambda>i. start \<le> Offset i) xs"
  using assms
proof (induction xs)
  case (Cons y ys)
  show ?case
  proof (cases "y = x")
    case True
    have "filter (\<lambda>i. Offset x \<le> Offset i) ys = ys" "filter (\<lambda>i. start \<le> Offset i) ys = ys"
      using Cons.prems True by (force simp: filter_id_conv inside_def)+
    with True Cons.prems show ?thesis by simp
  next
    case False
    with Cons.prems have "rend y \<le> Offset x" "0 < Length y" by (auto simp: good_range_def)
    then have "\<not> Offset x \<le> Offset y" by simp
    with False Cons show ?thesis by simp
  qed
qed simp

lemma find_SomeD: "find P xs = Some x \<Longrightarrow> x \<in> set xs \<and> P x"
  by (auto simp: find_Some_iff)

lemma clipped_sorted:
  assumes "sorted_wrt (\<lambda>a b. rend a \<le> Offset b) xs" "\<forall>q\<in>set xs. good_range q"
  shows "sorted_wrt (\<lambda>a b. rend a \<le> Offset b) (clipped start xs)"
    and "\<forall>q\<in>set (clipped start xs). start \<le> Offset q \<and> good_range q"
proof -
  have fs: "sorted_wrt (\<lambda>a b. rend a \<le> Offset b) (filter (\<lambda>i. start \<le> Offset i) xs)"
    using assms(1) by (rule sorted_wrt_filter)
  have after: "rend x \<le> Offset q"
    if "x \<in> set xs" "inside start x" "Offset x < start" "q \<in> set xs" "start \<le> Offset q" for x q
    using that separateD [OF sorted_separate [OF assms(1)], of x q] assms(2)
    by (fastforce simp: inside_def good_range_def)
  show "sorted_wrt (\<lambda>a b. rend a \<le> Offset b) (clipped start xs)"
    using fs after find_SomeD [of "inside start" xs]
    by (cases "find (inside start) xs") (auto simp: clipped_def clip_def inside_def)
  show "\<forall>q\<in>set (clipped start xs). start \<le> Offset q \<and> good_range q"
    using assms(2) find_SomeD [of "inside start" xs]
    by (cases "find (inside start) xs") (auto simp: clipped_def clip_def inside_def good_range_def)
qed

lemma cover_clipped:
  assumes "sorted_wrt (\<lambda>a b. rend a \<le> Offset b) xs" "\<forall>q\<in>set xs. good_range q"
  shows "cover (clipped start xs) k = (if start \<le> k then cover xs k else None)"
proof (rule option_eqI)
  fix v
  note sep = sorted_separate [OF assms(1)] sorted_separate [OF clipped_sorted(1) [OF assms]]
  have lo: "start \<le> k" if "inside k r" "start \<le> Offset r" for r :: "'a RangeValue"
    using that by (simp add: inside_def)
  show "cover (clipped start xs) k = Some v \<longleftrightarrow> (if start \<le> k then cover xs k else None) = Some v"
  proof (cases "find (inside start) xs")
    case None
    then have "\<forall>r\<in>set xs. \<not> inside start r" by (simp add: find_None_iff)
    then have other: "start \<le> Offset r" if "r \<in> set xs" "inside k r" "start \<le> k" for r
      using that by (fastforce simp: inside_def)
    have "cover (clipped start xs) k = Some v \<longleftrightarrow>
        (\<exists>r\<in>set xs. start \<le> Offset r \<and> inside k r \<and> Value r = v)"
      unfolding cover_Some [OF sep(2)] using None by (auto simp: clipped_def)
    also have "\<dots> \<longleftrightarrow> start \<le> k \<and> (\<exists>r\<in>set xs. inside k r \<and> Value r = v)"
      using other lo by blast
    finally show ?thesis by (auto simp: cover_Some [OF sep(1)])
  next
    case (Some x)
    then have x: "x \<in> set xs" "inside start x" by (auto simp: find_Some_iff)
    have other: "start \<le> Offset r" if "r \<in> set xs" "inside k r" "start \<le> k" "r \<noteq> x" for r
      using separateD [OF sep(1) that(1) x(1) that(4)] that x(2) by (fastforce simp: inside_def)
    have "cover (clipped start xs) k = Some v \<longleftrightarrow>
        (\<exists>r\<in>set xs. start \<le> Offset r \<and> inside k r \<and> Value r = v) \<or>
        (Offset x < start \<and> start \<le> k \<and> inside k x \<and> Value x = v)"
      unfolding cover_Some [OF sep(2)] using Some x(2) by (auto simp: clipped_def clip_def inside_def)
    also have "\<dots> \<longleftrightarrow> start \<le> k \<and> (\<exists>r\<in>set xs. inside k r \<and> Value r = v)"
      using other lo x(1) leI by blast
    finally show ?thesis by (auto simp: cover_Some [OF sep(1)])
  qed
qed

context extent_tree
begin

lemma Iterate_visit:
  assumes "extent_inv T ok m" "start < key_limit"
  shows "ExtentRangeMap_Iterate T zero m start iter s =
    visit iter (case clipped start (rt_Ascend T (tree m)) of [] \<Rightarrow> [] | y # ys \<Rightarrow> coalesce y ys) s"
proof -
  let ?I = "rt_Ascend T (tree m)" and ?r0 = "\<lparr>Offset = 0, Length = 0, Value = zero\<rparr>"
  let ?run = "\<lambda>L r. case visit (ExtentRangeMap_Iterate_step start iter) L (r, s) of
      (r', s') \<Rightarrow> if Length r' > 0 then fst (iter r' s') else s'"
  note inv = invD [OF assms(1)] and sorted = items_sorted_wrt [OF assms(1)]
  note cl = clipped_sorted(2) [OF sorted inv(3), of start]
  have first: "(if start > 0 then visit (\<lambda>ie f. (if Range_Contains ie start then Offset ie else f, False))
              (rt_DescendLessOrEqualI T (tree m) start) start else start) =
      (case find (inside start) ?I of None \<Rightarrow> start | Some x \<Rightarrow> Offset x)"
    unfolding GetWithRange_find [OF assms(1), symmetric]
    by (auto simp: ExtentRangeMap_GetWithRange_def visit_first Range_Contains_def split: list.splits)
  have it: "ExtentRangeMap_Iterate T zero m start iter s = ?run (filter (\<lambda>i.
      (case find (inside start) ?I of None \<Rightarrow> start | Some x \<Rightarrow> Offset x) \<le> Offset i) ?I) ?r0"
    unfolding ExtentRangeMap_Iterate_def first Let_def ascend_ge [OF inv(1)] Range_Key_def
    by (simp add: case_prod_unfold)
  have c0: "coalesce ?r0 L = (case L of [] \<Rightarrow> [] | y # ys \<Rightarrow> coalesce y ys)" for L
  proof (cases L)
    case (Cons a l)
    then show ?thesis by (cases a) auto
  qed simp
  show ?thesis
  proof (cases "\<exists>x. find (inside start) ?I = Some x \<and> Offset x < start")
    case True
    then obtain x where x: "find (inside start) ?I = Some x" "Offset x < start" by blast
    then have xi: "x \<in> set ?I" "inside start x" by (auto simp: find_Some_iff)
    have L: "filter (\<lambda>i. Offset x \<le> Offset i) ?I = x # filter (\<lambda>i. start \<le> Offset i) ?I"
      using filter_from [OF sorted inv(3) xi x(2)] .
    have u: "u64 (rend x) = rend x" using xi(1) inv(3) by (auto simp: good_range_def u64_id)
    have c: "clipped start ?I = clip start x # filter (\<lambda>i. start \<le> Offset i) ?I"
      using x by (simp add: clipped_def)
    have "?run (filter (\<lambda>i. Offset x \<le> Offset i) ?I) ?r0 =
        ?run (filter (\<lambda>i. start \<le> Offset i) ?I) (clip start x)"
      unfolding L using x(2) by (simp add: ExtentRangeMap_Iterate_step_def u clip_def)
    also have "\<dots> = visit iter (coalesce (clip start x) (filter (\<lambda>i. start \<le> Offset i) ?I)) s"
      using cl unfolding c by (intro visit_coalesce) (auto simp: good_range_def)
    finally show ?thesis unfolding it c using x by simp
  next
    case False
    then have c: "clipped start ?I = filter (\<lambda>i. start \<le> Offset i) ?I"
      by (auto simp: clipped_def split: option.splits)
    have "(case find (inside start) ?I of None \<Rightarrow> start | Some x \<Rightarrow> Offset x) = start"
      using False find_SomeD [of "inside start" ?I]
      by (cases "find (inside start) ?I") (auto simp: inside_def)
    then show ?thesis
      unfolding it c [symmetric] c0 [symmetric] using cl c by (simp add: visit_coalesce)
  qed
qed

lemma runs_extent:
  assumes "extent_inv T ok m" "start < key_limit"
  shows "is_runs (extent_abs T m) start (extent_runs T zero m start)"
proof -
  let ?c = "clipped start (rt_Ascend T (tree m))"
  note inv = invD [OF assms(1)] and sorted = items_sorted_wrt [OF assms(1)]
  note cl = clipped_sorted [OF sorted inv(3), of start]
  have runs: "extent_runs T zero m start = (case ?c of [] \<Rightarrow> [] | y # ys \<Rightarrow> coalesce y ys)"
    unfolding extent_runs_def Iterate_visit [OF assms] by (simp add: visit_collect)
  have cov: "cover ?c k = (if start \<le> k then extent_abs T m k else None)" for k
    unfolding extent_abs_def by (rule cover_clipped [OF sorted inv(3)])
  show ?thesis
  proof (cases ?c)
    case Nil
    then show ?thesis unfolding runs using cov by (simp add: is_runs_def cover_def)
  next
    case (Cons y ys)
    have "\<forall>q\<in>set (y # ys). 0 < Length q" using cl(2) Cons by (auto simp: good_range_def)
    from coalesce_runs [OF _ this] cl(1) Cons cov show ?thesis
      unfolding runs is_runs_def by simp
  qed
qed

lemma Iterate_runs:
  assumes "extent_inv T ok m" "start < key_limit"
  shows "ExtentRangeMap_Iterate T zero m start iter s = visit iter (extent_runs T zero m start) s"
  unfolding extent_runs_def Iterate_visit [OF assms] by (simp add: visit_collect)

lemma extent_bounded: "extent_inv T ok m \<Longrightarrow> extent_abs T m k = Some v \<Longrightarrow> k < key_limit"
  using invD(3) [of m] by (auto simp: extent_abs_Some inside_def good_range_def)

lemma empty_extent: "extent_inv T ok (ExtentRangeMap_empty T)"
  "extent_abs T (ExtentRangeMap_empty T) = Map.empty"
  by (simp_all add: extent_inv_def ExtentRangeMap_empty_def ok_empty items_empty extents_ok_def
      separate_def extent_abs_def cover_def fun_eq_iff)

end

sublocale extent_tree \<subseteq> erm: range_map "ExtentRangeMap_Add T" "ExtentRangeMap_Get T"
    "\<lambda>m. Some (ExtentRangeMap_Begin T m)" "\<lambda>m. Some (ExtentRangeMap_End T m)"
    "\<lambda>m k. Some (ExtentRangeMap_NextKey T m k)" "\<lambda>m k. Some (ExtentRangeMap_NextEmpty T m k)"
    "\<lambda>m k. Some (extent_runs T zero m k)" "extent_inv T ok" "extent_abs T"
proof (unfold_locales, goal_cases)
  case 1 then show ?case by (rule extent_bounded)
next
  case 2 then show ?case by (rule Add_extent)
next
  case 3 then show ?case by (rule Get_extent_abs)
next
  case 4 then show ?case by (rule arg_cong [OF Begin_extent])
next
  case (5 m)
  show ?case by (intro exI conjI allI impI, rule refl) (fact End_extent [OF 5])+
next
  case 6 show ?case by (rule arg_cong [OF NextKey_extent]) fact
next
  case 7 show ?case by (rule arg_cong [OF NextEmpty_extent]) fact
next
  case 8 then show ?case by (simp add: runs_extent)
qed

context extent_tree
begin

lemmas extent_range_map = erm.range_map_axioms

end

interpretation list_extents: extent_tree "list_tree Range_Key" "list_tree_ok Range_Key" zero for zero
  by unfold_locales

section \<open>Properties\<close>

text \<open>C17. \<open>Add\<close> of a range of keys never panics, keeps the extents non-empty and disjoint, and
  overwrites exactly the keys of the range: \<open>Get\<close> answers the new value there and its old answer
  everywhere else.\<close>

theorem extent_Add_overwrites:
  assumes "radix_tree T Range_Key ok" "extent_inv T ok m" "off + len \<le> key_limit"
  shows "\<exists>m'. ExtentRangeMap_Add T m off len v = Some m' \<and> extent_inv T ok m' \<and>
    (\<forall>k. ExtentRangeMap_Get T m' k =
      (if off \<le> k \<and> k < off + len then Some v else ExtentRangeMap_Get T m k))"
proof -
  have T: "extent_tree T ok" using assms(1) by (simp add: extent_tree_def)
  from extent_tree.Add_extent [OF T assms(2,3), of v] obtain m' where
    m': "ExtentRangeMap_Add T m off len v = Some m'" "extent_inv T ok m'"
      "extent_abs T m' = add_range off len v (extent_abs T m)" by blast
  then show ?thesis
    using extent_tree.Get_extent_abs [OF T] assms(2) by (auto simp: add_range_def)
qed

theorem extent_Add_overwrites_witness:
  "\<exists>m'. ExtentRangeMap_Add (list_tree Range_Key)
      \<lparr>tree = [\<lparr>Offset = 0, Length = 10, Value = (1 :: nat)\<rparr>, \<lparr>Offset = 20, Length = 4, Value = 2\<rparr>]\<rparr> 8 14 7 = Some m' \<and>
    extent_inv (list_tree Range_Key) (list_tree_ok Range_Key) m' \<and>
    ExtentRangeMap_Get (list_tree Range_Key) m' 7 = Some 1 \<and>
    ExtentRangeMap_Get (list_tree Range_Key) m' 21 = Some 7 \<and>
    ExtentRangeMap_Get (list_tree Range_Key) m' 22 = Some 2"
  using extent_Add_overwrites [where T = "list_tree Range_Key" and ok = "list_tree_ok Range_Key"
      and m = "\<lparr>tree = [\<lparr>Offset = 0, Length = 10, Value = (1 :: nat)\<rparr>, \<lparr>Offset = 20, Length = 4, Value = 2\<rparr>]\<rparr>"
      and off = 8 and len = 14 and v = 7, OF list_tree.radix_tree_axioms]
  by (force simp: extent_inv_def extents_ok_def separate_def good_range_def list_tree_simps Range_Key_def
      ExtentRangeMap_Get_def Range_Contains_def u64_def)

text \<open>C18. \<open>Remove\<close> deletes exactly the keys of its range, splitting or trimming the extents that
  cross its ends; it never panics.\<close>

theorem extent_Remove_deletes:
  assumes "radix_tree T Range_Key ok" "extent_inv T ok m" "off + len \<le> key_limit"
  shows "\<exists>m'. ExtentRangeMap_Remove T m off len = Some m' \<and> extent_inv T ok m' \<and>
    (\<forall>k. ExtentRangeMap_Get T m' k =
      (if off \<le> k \<and> k < off + len then None else ExtentRangeMap_Get T m k))"
proof -
  have T: "extent_tree T ok" using assms(1) by (simp add: extent_tree_def)
  from extent_tree.Remove_extent [OF T assms(2,3)] obtain m' where
    m': "ExtentRangeMap_Remove T m off len = Some m'" "extent_inv T ok m'"
      "extent_abs T m' = (\<lambda>k. if off \<le> k \<and> k < off + len then None else extent_abs T m k)" by blast
  then show ?thesis
    using extent_tree.Get_extent_abs [OF T] assms(2) by auto
qed

theorem extent_Remove_deletes_witness:
  "\<exists>m'. ExtentRangeMap_Remove (list_tree Range_Key)
      \<lparr>tree = [\<lparr>Offset = 0, Length = 10, Value = (1 :: nat)\<rparr>]\<rparr> 3 4 = Some m' \<and>
    ExtentRangeMap_Get (list_tree Range_Key) m' 2 = Some 1 \<and>
    ExtentRangeMap_Get (list_tree Range_Key) m' 5 = None \<and>
    ExtentRangeMap_Get (list_tree Range_Key) m' 7 = Some 1"
  using extent_Remove_deletes [where T = "list_tree Range_Key" and ok = "list_tree_ok Range_Key"
      and m = "\<lparr>tree = [\<lparr>Offset = 0, Length = 10, Value = (1 :: nat)\<rparr>]\<rparr>"
      and off = 3 and len = 4, OF list_tree.radix_tree_axioms]
  by (force simp: extent_inv_def extents_ok_def separate_def good_range_def list_tree_simps Range_Key_def
      ExtentRangeMap_Get_def Range_Contains_def u64_def)

text \<open>C19. The scans: \<open>NextKey\<close> returns the first present key at or after its argument and
  \<open>NextEmpty\<close> the first absent one, across the gaps and the adjacent extents.\<close>

theorem extent_scans:
  assumes "radix_tree T Range_Key ok" "extent_inv T ok m"
  shows "ExtentRangeMap_NextKey T m k =
      (if \<exists>j\<ge>k. ExtentRangeMap_Get T m j \<noteq> None
       then (LEAST j. k \<le> j \<and> ExtentRangeMap_Get T m j \<noteq> None, True) else (0, False)) \<and>
    ExtentRangeMap_NextEmpty T m k = (LEAST j. k \<le> j \<and> ExtentRangeMap_Get T m j = None)"
proof -
  have T: "extent_tree T ok" using assms(1) by (simp add: extent_tree_def)
  show ?thesis
    unfolding extent_tree.Get_extent_abs [OF T assms(2)]
    by (intro conjI extent_tree.NextKey_extent [OF T assms(2)] extent_tree.NextEmpty_extent [OF T assms(2)])
qed

theorem extent_scans_witness:
  "ExtentRangeMap_NextEmpty (list_tree Range_Key)
      \<lparr>tree = [\<lparr>Offset = 2, Length = 3, Value = (1 :: nat)\<rparr>, \<lparr>Offset = 5, Length = 1, Value = 4\<rparr>]\<rparr> 3 =
    (LEAST j. 3 \<le> j \<and> ExtentRangeMap_Get (list_tree Range_Key)
      \<lparr>tree = [\<lparr>Offset = 2, Length = 3, Value = (1 :: nat)\<rparr>, \<lparr>Offset = 5, Length = 1, Value = 4\<rparr>]\<rparr> j = None) \<and>
   ExtentRangeMap_NextEmpty (list_tree Range_Key)
      \<lparr>tree = [\<lparr>Offset = 2, Length = 3, Value = (1 :: nat)\<rparr>, \<lparr>Offset = 5, Length = 1, Value = 4\<rparr>]\<rparr> 3 = 6"
  using extent_scans [where T = "list_tree Range_Key" and ok = "list_tree_ok Range_Key"
      and m = "\<lparr>tree = [\<lparr>Offset = 2, Length = 3, Value = (1 :: nat)\<rparr>, \<lparr>Offset = 5, Length = 1, Value = 4\<rparr>]\<rparr>"
      and k = 3, OF list_tree.radix_tree_axioms]
  by (simp add: extent_inv_def extents_ok_def separate_def good_range_def list_tree_simps Range_Key_def
      ExtentRangeMap_NextEmpty_def Range_Contains_def u64_def Let_def)

text \<open>\<open>Iterate\<close> calls back, in key order and until told to stop, with the maximal runs of
  equal values at and after \<open>start\<close>: adjacent extents of one value arrive as one range, and
  together the ranges hold exactly the keys from \<open>start\<close> on.\<close>

theorem extent_Iterate_runs:
  assumes "radix_tree T Range_Key ok" "extent_inv T ok m" "start < key_limit"
  shows "\<exists>rs. is_runs (ExtentRangeMap_Get T m) start rs \<and>
    ExtentRangeMap_Iterate T zero m start iter s = visit iter rs s"
proof -
  have T: "extent_tree T ok" using assms(1) by (simp add: extent_tree_def)
  have "ExtentRangeMap_Get T m = extent_abs T m"
    by (rule ext) (rule extent_tree.Get_extent_abs [OF T assms(2)])
  then show ?thesis
    using extent_tree.Iterate_runs [OF T assms(2,3)] extent_tree.runs_extent [OF T assms(2,3)] by metis
qed

theorem extent_Iterate_runs_witness:
  "\<exists>rs. is_runs (ExtentRangeMap_Get (list_tree Range_Key)
        \<lparr>tree = [\<lparr>Offset = 2, Length = 3, Value = (1 :: nat)\<rparr>, \<lparr>Offset = 5, Length = 1, Value = 1\<rparr>]\<rparr>) 3 rs \<and>
    ExtentRangeMap_Iterate (list_tree Range_Key) 0
      \<lparr>tree = [\<lparr>Offset = 2, Length = 3, Value = (1 :: nat)\<rparr>, \<lparr>Offset = 5, Length = 1, Value = 1\<rparr>]\<rparr> 3
      (\<lambda>r n. (n + Length r, True)) 0 = visit (\<lambda>r n. (n + Length r, True)) rs 0"
  by (rule extent_Iterate_runs [where ok = "list_tree_ok Range_Key", OF list_tree.radix_tree_axioms])
    (simp_all add: extent_inv_def extents_ok_def separate_def good_range_def list_tree_simps Range_Key_def)

end
