(* ===== verification/Wal_Writer.thy ===== *)
theory Wal_Writer
  imports Go_Bufio Extent_Range_Map
begin

text \<open>
  \<open>internal/wal/consts.go\<close>, \<open>internal/wal/writer.go\<close> and \<open>internal/wal/readable_log.go\<close>: the write-ahead log. Each
  write is appended to the log as an entry with a checksum and entered in an index from device offsets to
  places in the log.

  The locks make each operation atomic: \<open>WriteAt\<close> and \<open>Trim\<close> take the index lock before they release the
  write lock, so the index is updated in the order of the log. The model passes the state of the writer
  through one call at a time. The index holds pointers to records; the model holds the records. A
  record that equals an older one covers the same range, so it has replaced it, and comparing records
  is comparing pointers. A recycled \<open>logEntry\<close> keeps stale bytes after its header, which are never
  read; the model takes zeros.
\<close>

section \<open>Constants and entries\<close>

definition MaxWriteSize :: nat where "MaxWriteSize = 2 ^ 22"
definition entryTypeData :: byte where "entryTypeData = 0"
definition entryTypeTrim :: byte where "entryTypeTrim = 1"
definition entryTypeFooter :: byte where "entryTypeFooter = 2"
definition entryTypeMask :: byte where "entryTypeMask = 0x0F"
definition entryBaseSize :: nat where "entryBaseSize = 8"

definition HeaderMagic :: bytes where
  "HeaderMagic = map (\<lambda>c. of_nat (of_char c)) ''lblog'' @ [0x31, 0x41, 0x59]"

definition FooterMagic :: bytes where
  "FooterMagic = map (\<lambda>c. of_nat (of_char c)) ''footer'' @ [0x31, 0x41]"

definition maxHeaderLen :: nat where "maxHeaderLen = 32"

record wal_Header =
  wh_Version :: nat
  wh_BlockSize :: nat
  wh_Align :: nat
  wh_ChecksumType :: nat

definition Header_CRC32IEEE :: nat where "Header_CRC32IEEE = 1"

record IndexEntry =
  ix_Type :: nat
  ix_Offset :: nat
  ix_Length :: nat
  ix_LogOffset :: nat

definition IndexEntry_WRITE :: nat where "IndexEntry_WRITE = 1"
definition IndexEntry_TRIM :: nat where "IndexEntry_TRIM = 2"

record logRecord =
  lr_logOffset :: int
  lr_offset :: int
  lr_length :: int
  lr_zero :: bool

record logEntry =
  headerSize :: nat
  headerBuf :: bytes
  le_data :: bytes
  readOff :: nat

definition logEntry_Len :: "logEntry \<Rightarrow> nat" where
  "logEntry_Len e = headerSize e + length (le_data e)"

definition logEntry_WriteTo :: "('w \<Rightarrow> bytes \<Rightarrow> ('w \<times> nat \<times> go_error option) option) \<Rightarrow> logEntry \<Rightarrow> 'w \<Rightarrow>
    ('w \<times> nat \<times> go_error option) option" where
  "logEntry_WriteTo Wr e w = do {
     (w, headerN, err) \<leftarrow> Wr w (take (headerSize e) (headerBuf e));
     if err \<noteq> None \<or> le_data e = [] then Some (w, headerN, err)
     else do {
       (w, dataN, err) \<leftarrow> Wr w (le_data e);
       Some (w, headerN + dataN, err)
     }
   }"

definition logEntry_Read :: "logEntry Read" where
  "logEntry_Read e b = do {
     let h = (if readOff e < headerSize e then take (length b) (take (headerSize e - readOff e) (drop (readOff e) (headerBuf e))) else []);
     let headerN = length h;
     let e = e\<lparr>readOff := readOff e + headerN\<rparr>;
     d \<leftarrow> (if le_data e \<noteq> [] \<and> headerN < length b
           then if readOff e < headerSize e \<or> readOff e - headerSize e > length (le_data e) then None
             else Some (take (length b - headerN) (drop (readOff e - headerSize e) (le_data e)))
           else Some []);
     let dataN = length d;
     let e = e\<lparr>readOff := readOff e + dataN\<rparr>;
     Some (e, h @ d @ drop (headerN + dataN) b, headerN + dataN, if readOff e = logEntry_Len e then Some EOF else None)
   }"

section \<open>The writer\<close>

text \<open>The library code a writer calls: the codecs of its messages, \<open>iou.WriteMany\<close>, the log file (with its
  \<open>ReadFrom\<close>, if it has one) and the tree of the index.\<close>

record ('w, 't) wal_lib =
  wl_header :: "wal_Header proto_ops"
  wl_entry :: "IndexEntry proto_sized_ops"
  wl_WriteMany :: "'w \<Rightarrow> bytes list \<Rightarrow> ('w \<times> nat \<times> go_error option) option"
  wl_Write :: "'w Write"
  wl_rf :: "('w, logEntry) ReadFrom option"
  wl_tree :: "('t, logRecord RangeValue) radix_ops"

text \<open>\<open>ww_nil\<close> says that the field \<open>w\<close> is nil; \<open>ww_w\<close> is the log file all the same.\<close>

record ('w, 't) wal_Writer =
  ww_w :: 'w
  ww_nil :: bool
  ww_offset :: int
  ww_end :: int
  ww_header :: wal_Header
  ww_headerErr :: "go_error option"
  ww_headerOnce :: bool
  ww_index :: "'t ExtentRangeMap"

definition wal_NewWriter :: "('w, 't) wal_lib \<Rightarrow> 'w \<Rightarrow> ('w, 't) wal_Writer" where
  "wal_NewWriter L w = \<lparr>ww_w = w, ww_nil = False, ww_offset = 0, ww_end = 0,
     ww_header = \<lparr>wh_Version = 0, wh_BlockSize = 0, wh_Align = 0, wh_ChecksumType = 0\<rparr>,
     ww_headerErr = None, ww_headerOnce = False, ww_index = ExtentRangeMap_empty (wl_tree L)\<rparr>"

definition wal_header :: wal_Header where
  "wal_header = \<lparr>wh_Version = 1, wh_BlockSize = 1, wh_Align = 1, wh_ChecksumType = Header_CRC32IEEE\<rparr>"

definition writeHeader :: "('w, 't) wal_lib \<Rightarrow> ('w, 't) wal_Writer \<Rightarrow> (('w, 't) wal_Writer \<times> go_error option) option" where
  "writeHeader L w =
     (if ww_headerOnce w then Some (w, ww_headerErr w)
      else let w = w\<lparr>ww_headerOnce := True\<rparr>
        in if ww_nil w then Some (w\<lparr>ww_headerErr := Some ErrWriterClosed\<rparr>, Some ErrWriterClosed)
           else let w = w\<lparr>ww_header := wal_header\<rparr>
             in case proto_Marshal (wl_header L) wal_header of
                  Inl err \<Rightarrow> Some (w\<lparr>ww_headerErr := Some err\<rparr>, Some err)
                | Inr buf \<Rightarrow> do {
                    (f, written, err) \<leftarrow> wl_WriteMany L (ww_w w) [HeaderMagic, le_bytes 4 (uint32 (int (length buf))), buf];
                    Some (w\<lparr>ww_w := f, ww_offset := int written, ww_headerErr := err\<rparr>, err)
                  })"

text \<open>The packet size takes four bytes; the type is written over the fourth.\<close>

definition entry_rest :: "byte \<Rightarrow> int \<Rightarrow> int \<Rightarrow> bytes" where
  "entry_rest pType offset len =
     (let packetSize = int entryBaseSize + (if pType = entryTypeData then 8 + len else if pType = entryTypeTrim then 8 + 8 else 0)
      in (le_bytes 4 (uint32 packetSize)) [3 := pType AND entryTypeMask] @
         (if pType = entryTypeData then le_bytes 8 (uint64 offset)
          else if pType = entryTypeTrim then le_bytes 8 (uint64 offset) @ le_bytes 8 (uint64 len)
          else []))"

definition makeLogEntry :: "byte \<Rightarrow> int \<Rightarrow> int \<Rightarrow> bytes \<Rightarrow> logEntry \<times> nat" where
  "makeLogEntry pType offset len data =
     (let headerSize = entryBaseSize + (if pType = entryTypeData then 8 else if pType = entryTypeTrim then 8 + 8 else 0);
          rest = entry_rest pType offset len;
          crc = crc32_Update (crc32_Update 0 rest) data;
          buf = le_bytes 4 (unat crc) @ rest
      in (\<lparr>headerSize = headerSize, headerBuf = buf @ replicate (maxHeaderLen - length buf) 0, le_data = data, readOff = 0\<rparr>, headerSize))"

definition writeLogEntry :: "('w, 't) wal_lib \<Rightarrow> 'w \<Rightarrow> logEntry \<Rightarrow> ('w \<times> go_error option) option" where
  "writeLogEntry L w e =
     (case wl_rf L of
        Some rf \<Rightarrow> do { (w, _, _, err) \<leftarrow> rf w e; Some (w, err) }
      | None \<Rightarrow> do { (w, _, err) \<leftarrow> logEntry_WriteTo (\<lambda>w p. Some (wl_Write L w p)) e w; Some (w, err) })"

definition wal_WriteAt :: "('w, 't) wal_lib \<Rightarrow> ('w, 't) wal_Writer \<Rightarrow> bytes \<Rightarrow> int \<Rightarrow>
    (('w, 't) wal_Writer \<times> int \<times> go_error option) option" where
  "wal_WriteAt L w p off =
     (if p = [] then Some (w, 0, None)
      else if length p > MaxWriteSize then Some (w, 0, Some ErrWriteTooBig)
      else do {
        (w, err) \<leftarrow> writeHeader L w;
        if err \<noteq> None then Some (w, 0, err)
        else do {
          let (entryBuf, entryHeaderSize) = makeLogEntry entryTypeData off (int (length p)) p;
          let entrySize = logEntry_Len entryBuf;
          if ww_nil w then Some (w, 0, Some ErrWriterClosed)
          else do {
            (f, err) \<leftarrow> writeLogEntry L (ww_w w) entryBuf;
            let w = w\<lparr>ww_w := f\<rparr>;
            if err \<noteq> None then Some (w, 0, err)
            else do {
              let lr = \<lparr>lr_logOffset = s64 (ww_offset w + int entryHeaderSize), lr_offset = off, lr_length = int (length p), lr_zero = False\<rparr>;
              let w = w\<lparr>ww_offset := s64 (ww_offset w + int entrySize)\<rparr>;
              index \<leftarrow> ExtentRangeMap_Add (wl_tree L) (ww_index w) (uint64 off) (length p) lr;
              let e = s64 (off + int (length p));
              Some (w\<lparr>ww_index := index, ww_end := (if e > ww_end w then e else ww_end w)\<rparr>, int (length p), None)
            }
          }
        }
      })"

definition wal_Trim :: "('w, 't) wal_lib \<Rightarrow> ('w, 't) wal_Writer \<Rightarrow> int \<Rightarrow> int \<Rightarrow>
    (('w, 't) wal_Writer \<times> go_error option) option" where
  "wal_Trim L w off len =
     (if len = 0 then Some (w, None)
      else do {
        (w, err) \<leftarrow> writeHeader L w;
        if err \<noteq> None then Some (w, err)
        else do {
          let (entryBuf, _) = makeLogEntry entryTypeTrim off len [];
          let entrySize = logEntry_Len entryBuf;
          let lr = \<lparr>lr_logOffset = 0, lr_offset = off, lr_length = len, lr_zero = True\<rparr>;
          if ww_nil w then Some (w, Some ErrWriterClosed)
          else do {
            (f, err) \<leftarrow> writeLogEntry L (ww_w w) entryBuf;
            let w = w\<lparr>ww_w := f\<rparr>;
            if err \<noteq> None then Some (w, err)
            else do {
              let w = w\<lparr>ww_offset := s64 (ww_offset w + int entrySize)\<rparr>;
              index \<leftarrow> ExtentRangeMap_Add (wl_tree L) (ww_index w) (uint64 off) (uint64 len) lr;
              let e = s64 (off + len);
              Some (w\<lparr>ww_index := index, ww_end := (if e > ww_end w then e else ww_end w)\<rparr>, None)
            }
          }
        }
      })"

text \<open>The footer. The callback of \<open>Iterate\<close> closes over the buffered writer, the size and checksum of the footer and the
  error; the outer \<^const>\<open>None\<close> of its state is a panic.\<close>

definition footer_entry :: "logRecord RangeValue \<Rightarrow> IndexEntry" where
  "footer_entry mr =
     (if lr_zero (Value mr)
      then \<lparr>ix_Type = IndexEntry_TRIM, ix_Offset = Offset mr, ix_Length = Length mr, ix_LogOffset = 0\<rparr>
      else \<lparr>ix_Type = IndexEntry_WRITE, ix_Offset = Offset mr, ix_Length = Length mr,
             ix_LogOffset = u64 (uint64 (lr_logOffset (Value mr)) + uint64 (int (Offset mr) - int (uint64 (lr_offset (Value mr)))))\<rparr>)"

type_synonym 'w footer_state = "('w bufio_Writer \<times> nat \<times> 32 word \<times> go_error option) option"

definition footer_step :: "('w, 't) wal_lib \<Rightarrow> logRecord RangeValue \<Rightarrow> 'w footer_state \<Rightarrow> 'w footer_state \<times> bool" where
  "footer_step L mr st =
     (case st of None \<Rightarrow> (None, False)
      | Some (bw, footerSize, crc, _) \<Rightarrow>
          (case proto_Marshal (wl_entry L) (footer_entry mr) of
             Inl err \<Rightarrow> (Some (bw, footerSize, crc, Some err), False)
           | Inr m \<Rightarrow>
               let buf = put_uvarint (proto_Size (wl_entry L) (footer_entry mr)) @ m; crc = crc32_Update crc buf
               in case bw_Write (wl_Write L) bw buf of
                    None \<Rightarrow> (None, False)
                  | Some (bw, n, err) \<Rightarrow>
                      if err \<noteq> None then (Some (bw, footerSize, crc, err), False)
                      else (Some (bw, footerSize + n, crc, None), True)))"

definition bufio_defaultBufSize :: nat where "bufio_defaultBufSize = 4096"

definition CloseWriter :: "('w, 't) wal_lib \<Rightarrow> ('w, 't) wal_Writer \<Rightarrow> (('w, 't) wal_Writer \<times> go_error option) option" where
  "CloseWriter L w =
     (if ww_nil w then Some (w, Some ErrWriterClosed)
      else if ww_offset w = 0 then Some (w, None)
      else do {
        let bw = bufio_NewWriterSize (ww_w w) bufio_defaultBufSize;
        let w = w\<lparr>ww_nil := True\<rparr>;
        let (entryBuf, _) = makeLogEntry entryTypeFooter 0 0 [];
        (bw, _, err) \<leftarrow> logEntry_WriteTo (bw_Write (wl_Write L)) entryBuf bw;
        if err \<noteq> None then Some (w\<lparr>ww_w := bw_wr bw\<rparr>, err)
        else do {
          (bw, footerSize, crc, err) \<leftarrow> ExtentRangeMap_Iterate (wl_tree L)
            \<lparr>lr_logOffset = 0, lr_offset = 0, lr_length = 0, lr_zero = False\<rparr> (ww_index w) 0 (footer_step L) (Some (bw, 0, 0, None));
          if err \<noteq> None then Some (w\<lparr>ww_w := bw_wr bw\<rparr>, err)
          else do {
            (bw, _, err) \<leftarrow> bw_Write (wl_Write L) bw
              (le_bytes 4 (uint32 (int footerSize)) @ le_bytes 4 (unat crc) @ FooterMagic);
            if err \<noteq> None then Some (w\<lparr>ww_w := bw_wr bw\<rparr>, err)
            else case bw_Flush (wl_Write L) bw of (bw, err) \<Rightarrow> Some (w\<lparr>ww_w := bw_wr bw\<rparr>, err)
          }
        }
      })"

definition wal_Size :: "('w, 't) wal_Writer \<Rightarrow> int" where
  "wal_Size w = ww_end w"

definition LogSize :: "('w, 't) wal_Writer \<Rightarrow> int" where
  "LogSize w = ww_offset w"

text \<open>Scanning and reading through the index. The writer and the reader of a log have the same code for it.\<close>

definition index_NextData :: "('t, logRecord RangeValue) radix_ops \<Rightarrow> 't ExtentRangeMap \<Rightarrow> int \<Rightarrow> (int \<times> go_error option) option" where
  "index_NextData T m off =
     (case ExtentRangeMap_NextKey T m (uint64 off) of
        (n, ok) \<Rightarrow> if \<not> ok then Some (0, Some EOF) else Some (int64 n, None))"

definition index_NextHole :: "('t, logRecord RangeValue) radix_ops \<Rightarrow> 't ExtentRangeMap \<Rightarrow> int \<Rightarrow> (int \<times> go_error option) option" where
  "index_NextHole T m off = Some (int64 (ExtentRangeMap_NextEmpty T m (uint64 off)), None)"

text \<open>The read of one record: the number of bytes, the part of the buffer and the error.\<close>

definition read_record :: "ReaderAt \<Rightarrow> logRecord RangeValue \<Rightarrow> bytes \<Rightarrow> int \<Rightarrow> (nat \<times> bytes \<times> go_error option) option" where
  "read_record R mr b off =
     (let eEnd = int64 (u64 (Offset mr + Length mr));
          readLen = (if int (length b) > s64 (eEnd - off) then s64 (eEnd - off) else int (length b));
          lr = Value mr;
          lrOff = s64 (off - lr_offset lr);
          lrRem = s64 (lr_length lr - lrOff)
      in if lrOff < 0 \<or> lrRem < 0 then None
         else if readLen > lrRem then None
         else if readLen < 0 then None
         else if lr_zero lr then Some (nat readLen, replicate (nat readLen) 0, None)
         else do {
           (q, _, err) \<leftarrow> R (take (nat readLen) b) (s64 (lr_logOffset lr + lrOff));
           Some (nat readLen, q, err)
         })"

partial_function (option) index_ReadAt_loop :: "('t, logRecord RangeValue) radix_ops \<Rightarrow> 't ExtentRangeMap \<Rightarrow> ReaderAt \<Rightarrow>
    bytes \<Rightarrow> int \<Rightarrow> int \<Rightarrow> (bytes \<times> int \<times> go_error option) option" where
  "index_ReadAt_loop T m R b off bytesRead =
     (if b = [] then Some ([], bytesRead, None)
      else case ExtentRangeMap_GetWithRange T m (uint64 off) of
        None \<Rightarrow>
          (case ExtentRangeMap_NextKey T m (uint64 off) of
             (nextOffset, ok) \<Rightarrow>
               if \<not> ok then Some (b, bytesRead, Some EOF)
               else let gap = s64 (int64 nextOffset - off);
                        zeroLen = (if int (length b) > gap then gap else int (length b))
                 in if zeroLen < 0 then None
                    else do {
                      (tl, n, err) \<leftarrow> index_ReadAt_loop T m R (drop (nat zeroLen) b) (s64 (off + zeroLen)) (bytesRead + zeroLen);
                      Some (replicate (nat zeroLen) 0 @ tl, n, err)
                    })
      | Some mr \<Rightarrow> do {
          (readLen, q, err) \<leftarrow> read_record R mr b off;
          if err \<noteq> None then Some (q @ drop readLen b, bytesRead, err)
          else do {
            (tl, n, err) \<leftarrow> index_ReadAt_loop T m R (drop readLen b) (s64 (off + int readLen)) (bytesRead + int readLen);
            Some (q @ tl, n, err)
          }
        })"

definition ReadAtFrom :: "('w, 't) wal_lib \<Rightarrow> ('w, 't) wal_Writer \<Rightarrow> ReaderAt \<Rightarrow> bytes \<Rightarrow> int \<Rightarrow> (bytes \<times> int \<times> go_error option) option" where
  "ReadAtFrom L w R b off = index_ReadAt_loop (wl_tree L) (ww_index w) R b off 0"

definition wal_NextData :: "('w, 't) wal_lib \<Rightarrow> ('w, 't) wal_Writer \<Rightarrow> int \<Rightarrow> (int \<times> go_error option) option" where
  "wal_NextData L w off = index_NextData (wl_tree L) (ww_index w) off"

definition wal_NextHole :: "('w, 't) wal_lib \<Rightarrow> ('w, 't) wal_Writer \<Rightarrow> int \<Rightarrow> (int \<times> go_error option) option" where
  "wal_NextHole L w off = index_NextHole (wl_tree L) (ww_index w) off"

section \<open>\<open>ReadableLog\<close>\<close>

text \<open>A log file is a writer and a \<open>ReaderAt\<close> over what was written; \<open>at w\<close> is its \<open>ReadAt\<close> now.\<close>

definition NewReadableLog :: "('w, 't) wal_lib \<Rightarrow> 'w \<Rightarrow> ('w, 't) wal_Writer" where
  "NewReadableLog L lf = wal_NewWriter L lf"

definition Written :: "('w, 't) wal_Writer \<Rightarrow> int" where
  "Written w = LogSize w"

definition ReadableLog_reader :: "('w, 't) wal_lib \<Rightarrow> ('w \<Rightarrow> ReaderAt) \<Rightarrow> ('w, 't) wal_Writer \<Rightarrow> HoleReaderAt" where
  "ReadableLog_reader L at w = \<lparr>ReadAt = ReadAtFrom L w (at (ww_w w)), NextData = wal_NextData L w, NextHole = wal_NextHole L w\<rparr>"

end
