(* ===== verification/Wal_Index.thy ===== *)
theory Wal_Index
  imports Wal_Writer
begin

text \<open>
  What the index of a log stands for: a content of the device, each byte of it found in the log file or zero.
  Scanning and reading through the index is scanning and reading that content.
\<close>

text \<open>The record \<open>lr\<close> holds the byte \<open>v\<close> of device offset \<open>k\<close>, in a log file \<open>f\<close>.\<close>

definition record_holds :: "bytes \<Rightarrow> logRecord \<Rightarrow> nat \<Rightarrow> byte \<Rightarrow> bool" where
  "record_holds f lr k v \<longleftrightarrow> (\<exists>a l. lr_offset lr = int a \<and> lr_length lr = int l \<and> a + l \<le> max_off \<and> a \<le> k \<and> k < a + l \<and>
     (if lr_zero lr then v = 0
      else \<exists>p. lr_logOffset lr = int p \<and> p + (k - a) < length f \<and> v = f ! (p + (k - a))))"

locale log_index = extent_tree T ok zero + exact_reader_at R f
  for T :: "('t, logRecord RangeValue) radix_ops" and ok :: "'t \<Rightarrow> bool" and zero :: logRecord
    and R :: ReaderAt and f :: bytes +
  fixes m :: "'t ExtentRangeMap" and c :: "nat \<rightharpoonup> byte"
  assumes index_inv: "extent_inv T ok m"
    and index_None: "extent_abs T m k = None \<longleftrightarrow> c k = None"
    and index_Some: "extent_abs T m k = Some lr \<Longrightarrow> c k = Some v \<Longrightarrow> record_holds f lr k v"
    and file_size: "length f \<le> max_off"
begin

lemma content_bound: "c k \<noteq> None \<Longrightarrow> k < max_off"
  using index_Some index_None [of k] by (fastforce simp: record_holds_def)

lemma same_next: "next_data (extent_abs T m) k = next_data c k"
  by (rule option_eqI) (simp only: next_data_Some index_None)

lemma NextKey_next: "ExtentRangeMap_NextKey T m k = (case next_data c k of None \<Rightarrow> (0, False) | Some j \<Rightarrow> (j, True))"
  unfolding NextKey_extent [OF index_inv] same_next [symmetric] by (simp add: next_data_def)

lemma NextEmpty_next: "ExtentRangeMap_NextEmpty T m k = next_hole c k"
  unfolding NextEmpty_extent [OF index_inv] next_hole_def index_None ..

lemma uint64_off: "k \<le> max_off \<Longrightarrow> uint64 (int k) = k"
  by (simp add: uint64_def)

lemma NextData_ev:
  assumes "k \<le> max_off"
  shows "index_NextData T m (int k) = Some (case next_data c k of None \<Rightarrow> (0, Some EOF) | Some j \<Rightarrow> (int j, None))"
proof (cases "next_data c k")
  case (Some j)
  then have "j < max_off" using content_bound unfolding next_data_Some by blast
  with Some assms show ?thesis by (simp add: index_NextData_def NextKey_next uint64_off int64_id)
qed (use assms in \<open>simp add: index_NextData_def NextKey_next uint64_off\<close>)

lemma NextHole_ev:
  assumes "k \<le> max_off"
  shows "index_NextHole T m (int k) = Some (int (next_hole c k), None)"
proof -
  have "\<forall>j. c j \<noteq> None \<longrightarrow> j < max_off" using content_bound by blast
  note eq = next_hole_eq [OF this, of k "next_hole c k"]
  have "next_hole c k \<le> max_off"
  proof (cases "next_hole c k = k")
    case False
    with eq have "c (next_hole c k - 1) \<noteq> None" by auto
    from content_bound [OF this] show ?thesis by simp
  qed (use assms in simp)
  with assms show ?thesis by (simp add: index_NextHole_def NextEmpty_next uint64_off int64_id)
qed

text \<open>The range found for a key of the content holds one record, good for all of it.\<close>

lemma found_range:
  assumes "ExtentRangeMap_GetWithRange T m k = Some mr"
  shows "Offset mr \<le> k" "k < rend mr" "rend mr \<le> max_off"
    "\<And>j. Offset mr \<le> j \<Longrightarrow> j < rend mr \<Longrightarrow> \<exists>v. c j = Some v \<and> record_holds f (Value mr) j v"
proof -
  have mem: "mr \<in> set (rt_Ascend T (tree m))" "inside k mr"
    using assms unfolding GetWithRange_find [OF index_inv] by (auto dest: find_SomeD)
  then show in': "Offset mr \<le> k" "k < rend mr" by (auto simp: inside_def)
  show all: "\<exists>v. c j = Some v \<and> record_holds f (Value mr) j v" if "Offset mr \<le> j" "j < rend mr" for j
  proof -
    have ab: "extent_abs T m j = Some (Value mr)" unfolding extent_abs_Some [OF index_inv] using mem(1) that by (auto simp: inside_def)
    then obtain v where "c j = Some v" using index_None [of j] by auto
    with index_Some [OF ab] show ?thesis by blast
  qed
  have "Offset mr \<le> rend mr - 1" "rend mr - 1 < rend mr" using in' by linarith+
  then have "c (rend mr - 1) \<noteq> None" using all by blast
  from content_bound [OF this] show "rend mr \<le> max_off" by simp
qed

lemma missing: "ExtentRangeMap_GetWithRange T m k = None \<longleftrightarrow> c k = None"
  unfolding GetWithRange_find [OF index_inv] index_None [symmetric] extent_abs_def cover_def by simp

lemma read_record_ok:
  assumes mr: "ExtentRangeMap_GetWithRange T m k = Some mr" and n: "n = min (length p) (rend mr - k)" and p: "p \<noteq> []"
  shows "read_record R mr p (int k) = Some (n, zero_filled c k n, None)" "0 < n"
proof -
  note fr = found_range [OF mr]
  show n0: "0 < n" using n p fr(2) by simp
  obtain v where "c k = Some v" "record_holds f (Value mr) k v" using fr(4) [OF fr(1,2)] by blast
  then obtain a l where lr: "lr_offset (Value mr) = int a" "lr_length (Value mr) = int l" "a + l \<le> max_off" "a \<le> k" "k < a + l"
    by (auto simp: record_holds_def)
  have last: "k + n - 1 < rend mr" "Offset mr \<le> k + n - 1" using n n0 fr(1,2) by linarith+
  have "\<exists>v. c (k + n - 1) = Some v \<and> record_holds f (Value mr) (k + n - 1) v" using fr(4) [OF last(2,1)] .
  then have kn: "k + n \<le> a + l" using lr(1,2) n0 by (auto simp: record_holds_def)
  have e: "int64 (u64 (Offset mr + Length mr)) = int (rend mr)" using fr(3) by (simp add: u64_id int64_id)
  have d: "s64 (int (rend mr) - int k) = int (rend mr - k)" by (rule s64_diff [OF less_imp_le [OF fr(2)] fr(3)])
  have rl: "(if int (length p) > s64 (int (rend mr) - int k) then s64 (int (rend mr) - int k) else int (length p)) = int n"
    unfolding d n by auto
  have "k \<le> max_off" "l \<le> max_off" "k - a \<le> l" "l - (k - a) = a + l - k" using lr(3-5) by linarith+
  then have o: "s64 (int k - int a) = int (k - a)" and r: "s64 (int l - int (k - a)) = int (a + l - k)"
    using s64_diff [OF lr(4)] s64_diff [of "k - a" l] by metis+
  note ev = read_record_def [of R mr p "int k", unfolded Let_def e rl lr(1,2) o r]
  have nl: "\<not> int n > int (a + l - k)" using kn by simp
  show "read_record R mr p (int k) = Some (n, zero_filled c k n, None)"
  proof (cases "lr_zero (Value mr)")
    case True
    have "zero_filled c k n = replicate n 0"
    proof (intro nth_equalityI)
      fix i assume "i < length (zero_filled c k n)"
      then have i: "i < n" by simp
      have "Offset mr \<le> k + i" "k + i < rend mr" using i n fr(1,2) by linarith+
      from fr(4) [OF this] obtain v where "c (k + i) = Some v" "record_holds f (Value mr) (k + i) v" by blast
      with True i show "zero_filled c k n ! i = replicate n 0 ! i" by (auto simp: zero_filled_def record_holds_def)
    qed simp
    with True nl show ?thesis by (simp add: ev)
  next
    case False
    with \<open>record_holds f (Value mr) k v\<close> obtain q where q: "lr_logOffset (Value mr) = int q" by (auto simp: record_holds_def)
    have byte: "q + (k + i - a) < length f \<and> c (k + i) = Some (f ! (q + (k + i - a)))" if "i < n" for i
    proof -
      have "Offset mr \<le> k + i" "k + i < rend mr" using that n fr(1,2) by linarith+
      from fr(4) [OF this] False q lr(1) show ?thesis by (auto simp: record_holds_def)
    qed
    let ?o = "q + (k - a)"
    have tn: "length (take n p) = n" using n by simp
    have "q + (k + (n - 1) - a) < length f" using byte [of "n - 1"] n0 by simp
    then have len: "?o + length (take n p) \<le> length f" unfolding tn using n0 lr(4) by linarith
    have lo: "s64 (int q + int (k - a)) = int ?o" using len file_size by (intro s64_add) linarith
    have "take n (drop ?o f) = zero_filled c k n"
    proof (rule nth_equalityI)
      fix i assume "i < length (take n (drop ?o f))"
      then have i: "i < n" by simp
      have "k + i - a = k - a + i" using lr(4) by simp
      with byte [OF i] i len tn show "take n (drop ?o f) ! i = zero_filled c k n ! i" by (simp add: zero_filled_def add.assoc)
    qed (use len tn in simp)
    then show ?thesis using False nl read_exact [OF len] unfolding ev q lo tn by simp
  qed
qed

lemma ReadAt_loop_ok:
  assumes "ends_at c e" "k \<le> max_off"
  shows "index_ReadAt_loop T m R p (int k) b =
    (let n = min (length p) (e - k)
     in Some (zero_filled c k n @ drop n p, b + int n, if n < length p then Some EOF else None))"
  using assms(2)
proof (induction "length p" arbitrary: p k b rule: less_induct)
  case less
  have bd: "\<forall>k. c k \<noteq> None \<longrightarrow> k < e" "e = 0 \<or> c (e - 1) \<noteq> None" using assms(1) by (auto simp: ends_at_def)
  then have em: "e \<le> max_off" using content_bound by (cases "e = 0") fastforce+
  note u = uint64_off [OF less.prems]
  show ?case
  proof (cases "p = []")
    case True
    then show ?thesis by (subst index_ReadAt_loop.simps) (simp add: zero_filled_def)
  next
    case p: False
    have IH: "index_ReadAt_loop T m R (drop n p) (s64 (int k + int n)) (b + int n) =
        (let n' = min (length p - n) (e - (k + n))
         in Some (zero_filled c (k + n) n' @ drop n' (drop n p), b + int n + int n', if n' < length p - n then Some EOF else None))"
      if "0 < n" "n \<le> length p" "k + n \<le> e" for n
    proof -
      have "s64 (int k + int n) = int (k + n)" using that(3) em by (intro s64_add) linarith
      then show ?thesis using less.hyps [of "drop n p" "k + n" "b + int n"] that p em by simp
    qed
    have step: ?thesis
      if n: "0 < n" "n \<le> length p" "k + n \<le> e" and ev: "index_ReadAt_loop T m R p (int k) b = do {
            (tl, n', err) \<leftarrow> index_ReadAt_loop T m R (drop n p) (s64 (int k + int n)) (b + int n);
            Some (zero_filled c k n @ tl, n', err) }" for n
    proof -
      define n' where "n' = min (length p - n) (e - (k + n))"
      have sum: "min (length p) (e - k) = n + n'" using n by (auto simp: n'_def)
      note IH' = IH [OF n, folded n'_def]
      show ?thesis unfolding ev IH' sum Let_def zero_filled_append using n(2) by (auto simp: add.commute)
    qed
    show ?thesis
    proof (cases "ExtentRangeMap_GetWithRange T m k")
      case None
      show ?thesis
      proof (cases "next_data c k")
        case none: None
        then have "e \<le> k" using bd(2) unfolding next_data_None by (metis diff_is_0_eq le_antisym nat_le_linear not_less_eq_eq Suc_pred' zero_less_iff_neq_zero le_zero_eq)
        with none None p u show ?thesis by (subst index_ReadAt_loop.simps) (simp add: NextKey_next zero_filled_def)
      next
        case (Some j)
        then have j: "k \<le> j" "c j \<noteq> None" "\<forall>i. k \<le> i \<longrightarrow> i < j \<longrightarrow> c i = None" unfolding next_data_Some by blast+
        moreover have "c k = None" using None missing by blast
        ultimately have kj: "k < j" "j < e" using bd(1) by (metis le_neq_implies_less, blast)
        define n where "n = min (length p) (j - k)"
        have n: "0 < n" "n \<le> length p" "k + n \<le> e" using kj p by (auto simp: n_def)
        have gap: "s64 (int64 j - int k) = int (j - k)" using s64_diff [of k j] kj em by (simp add: int64_id)
        have zl: "(if int (length p) > int (j - k) then int (j - k) else int (length p)) = int n" by (auto simp: n_def)
        have z: "zero_filled c k n = replicate n 0" using j(3) by (intro zero_filled_none) (auto simp: n_def)
        show ?thesis
          by (rule step [OF n]) (use p None Some u gap zl z in \<open>subst index_ReadAt_loop.simps, simp add: NextKey_next Let_def\<close>)
      qed
    next
      case (Some mr)
      note fr = found_range [OF Some]
      define n where "n = min (length p) (rend mr - k)"
      note rr = read_record_ok [OF Some n_def p]
      have "Offset mr \<le> rend mr - 1" "rend mr - 1 < rend mr" using fr(1,2) by linarith+
      with fr(4) bd(1) have "rend mr - 1 < e" by blast
      then have n: "0 < n" "n \<le> length p" "k + n \<le> e" using rr(2) fr(2) by (auto simp: n_def)
      show ?thesis by (rule step [OF n]) (use p Some u rr(1) in \<open>subst index_ReadAt_loop.simps, simp\<close>)
    qed
  qed
qed

end

lemma ends_at_exists:
  assumes "\<forall>k. c k \<noteq> None \<longrightarrow> k < b"
  shows "\<exists>e. ends_at c e"
proof (cases "dom c = {}")
  case True
  then show ?thesis by (intro exI [of _ 0]) (auto simp: ends_at_def dom_def)
next
  case False
  have fin: "finite (dom c)" by (rule finite_subset [of _ "{..<b}"]) (use assms in auto)
  have "Max (dom c) \<in> dom c" "\<forall>k\<in>dom c. k \<le> Max (dom c)" using Max_in [OF fin False] Max_ge [OF fin] by auto
  then show ?thesis by (intro exI [of _ "Suc (Max (dom c))"]) (auto simp: ends_at_def less_Suc_eq_le)
qed

definition index_reader :: "('t, logRecord RangeValue) radix_ops \<Rightarrow> 't ExtentRangeMap \<Rightarrow> ReaderAt \<Rightarrow> HoleReaderAt" where
  "index_reader T m R = \<lparr>ReadAt = (\<lambda>b off. index_ReadAt_loop T m R b off 0), NextData = index_NextData T m,
     NextHole = index_NextHole T m\<rparr>"

sublocale log_index \<subseteq> idx: hole_reader_at "index_reader T m R" c
proof
  show "c k \<noteq> None \<Longrightarrow> k < max_off" for k by (rule content_bound)
  show "NextData (index_reader T m R) (int k) = Some (int j, None)" if "k \<le> max_off" "next_data c k = Some j" for k j
    using NextData_ev [OF that(1)] that(2) by (simp add: index_reader_def)
  show "\<exists>e. NextData (index_reader T m R) (int k) = Some (e, Some EOF)" if "k \<le> max_off" "next_data c k = None" for k
    using NextData_ev [OF that(1)] that(2) by (simp add: index_reader_def)
  show "NextHole (index_reader T m R) (int k) = Some (int (next_hole c k), None)" if "k \<le> max_off" for k
    using NextHole_ev [OF that] by (simp add: index_reader_def)
  fix buf :: bytes and k assume buf: "buf \<noteq> []" and all: "all_data c k (length buf)"
  have bd: "\<forall>k. c k \<noteq> None \<longrightarrow> k < max_off" using content_bound by blast
  then obtain e where e: "ends_at c e" using ends_at_exists by blast
  have "length buf - 1 < length buf" using buf by simp
  with all have "c (k + (length buf - 1)) \<noteq> None" unfolding all_data_def by blast
  then have "k + (length buf - 1) < e" "k + (length buf - 1) < max_off" using e bd by (auto simp: ends_at_def)
  then have "k \<le> max_off" "min (length buf) (e - k) = length buf" by linarith+
  then show "ReadAt (index_reader T m R) buf (int k) = Some (read_data c k (length buf), int (length buf), None)"
    using ReadAt_loop_ok [OF e, of k buf 0] zero_filled_data [OF all] by (simp add: index_reader_def Let_def)
qed

context log_index
begin

lemmas index_serves = idx.hole_reader_at_axioms

end

end
