(* ===== verification/Wal_Log.thy ===== *)
theory Wal_Log
  imports Wal_Index Third_Party
begin

text \<open>
  What a log file holds: a header and one entry for each write or trim. The writer keeps the file and its index
  in step with the operations that succeeded.
\<close>

section \<open>Entries as bytes\<close>

definition log_entry_bytes :: "logEntry \<Rightarrow> bytes" where
  "log_entry_bytes e = take (headerSize e) (headerBuf e) @ le_data e"

definition log_entry_rest :: "logEntry \<Rightarrow> bytes" where
  "log_entry_rest e = drop (readOff e) (log_entry_bytes e)"

definition log_entry_ok :: "logEntry \<Rightarrow> bool" where
  "log_entry_ok e \<longleftrightarrow> headerSize e \<le> length (headerBuf e) \<and> readOff e \<le> logEntry_Len e"

lemma log_entry_bytes_readOff: "log_entry_bytes (e\<lparr>readOff := r\<rparr>) = log_entry_bytes e"
  by (simp add: log_entry_bytes_def)

lemma length_log_entry_bytes: "log_entry_ok e \<Longrightarrow> length (log_entry_bytes e) = logEntry_Len e"
  by (simp add: log_entry_ok_def log_entry_bytes_def logEntry_Len_def)

text \<open>\<open>Read\<close> of an entry hands out its bytes, in as many reads as the caller likes.\<close>

lemma logEntry_Read_ev:
  assumes "log_entry_ok e" "n = min (length b) (logEntry_Len e - readOff e)"
  shows "logEntry_Read e b = Some (e\<lparr>readOff := readOff e + n\<rparr>, take n (log_entry_rest e) @ drop n b, n,
    if readOff e + n = logEntry_Len e then Some EOF else None)"
proof -
  let ?h = "take (headerSize e) (headerBuf e)" and ?d = "le_data e" and ?r = "readOff e"
  have hl: "length ?h = headerSize e" using assms(1) by (simp add: log_entry_ok_def)
  have L: "logEntry_Len e = headerSize e + length ?d" by (simp add: logEntry_Len_def)
  show ?thesis
  proof (cases "?r < headerSize e")
    case True
    let ?k = "min (length b) (headerSize e - ?r)"
    have h: "take (length b) (take (headerSize e - ?r) (drop ?r (headerBuf e))) = take ?k (drop ?r ?h)"
      by (simp add: drop_take min.commute)
    have hn: "length (take ?k (drop ?r ?h)) = ?k" using hl by simp
    have rest: "log_entry_rest e = drop ?r ?h @ ?d" using True hl by (simp add: log_entry_rest_def log_entry_bytes_def)
    show ?thesis
    proof (cases "?d \<noteq> [] \<and> headerSize e - ?r < length b")
      case more: True
      define k where "k = headerSize e - ?r"
      define t where "t = take (length b - k) ?d"
      have n: "n = k + length t" using assms(2) L more True by (auto simp: t_def k_def)
      have hk: "length (drop ?r ?h) = k" using hl by (simp add: k_def)
      have F: "(if ?r < headerSize e then take (length b) (take (headerSize e - ?r) (drop ?r (headerBuf e))) else []) = drop ?r ?h"
        using True more by (simp add: drop_take)
      have "take n (drop ?r ?h @ ?d) = drop ?r ?h @ t" unfolding n using hk by (auto simp: t_def min_def)
      moreover have "?r + k = headerSize e" "\<not> ?r + k < headerSize e" "?r + k - headerSize e = 0" "k < length b"
        using True more by (simp_all add: k_def)
      moreover have "?r + n = ?r + k + length t" using n by simp
      ultimately show ?thesis
        unfolding logEntry_Read_def F Let_def hk rest using more n by (simp add: t_def [symmetric] logEntry_Len_def)
    next
      case False
      define u where "u = take ?k (drop ?r ?h)"
      have F: "(if ?r < headerSize e then take (length b) (take (headerSize e - ?r) (drop ?r (headerBuf e))) else []) = u"
        using True h by (simp add: u_def)
      have n: "length u = n" using False assms(2) L True hn by (auto simp: u_def min_def)
      have "take n (drop ?r ?h @ ?d) = u" unfolding n [symmetric] u_def hn using hl by simp
      moreover have "\<not> (?d \<noteq> [] \<and> n < length b)" using False assms(2) L True by auto
      ultimately show ?thesis
        unfolding logEntry_Read_def F Let_def rest n by (cases "?d = []") (simp_all add: n logEntry_Len_def del: take_append)
    qed
  next
    case False
    then have rest: "log_entry_rest e = drop (?r - headerSize e) ?d" using hl by (simp add: log_entry_rest_def log_entry_bytes_def)
    have n: "n = min (length b) (length ?d - (?r - headerSize e))" using assms(2) L False by simp
    have le: "?r - headerSize e \<le> length ?d" using assms(1) L unfolding log_entry_ok_def by linarith
    show ?thesis
    proof (cases "?d \<noteq> [] \<and> 0 < length b")
      case True
      define u where "u = take (length b) (drop (?r - headerSize e) ?d)"
      have un: "length u = n" using n by (simp add: u_def min.commute)
      have "take n (log_entry_rest e) = u" unfolding rest n u_def by (simp add: min_def)
      then show ?thesis
        using True False le un by (simp add: logEntry_Read_def Let_def u_def [symmetric] logEntry_Len_def)
    next
      case none: False
      then have "n = 0" using n by auto
      with none False show ?thesis by (auto simp: logEntry_Read_def Let_def logEntry_Len_def)
    qed
  qed
qed

interpretation log_entry: reliable_reader logEntry_Read log_entry_rest log_entry_ok
proof (unfold_locales, goal_cases)
  case (1 e b)
  define n where "n = min (length b) (logEntry_Len e - readOff e)"
  have le: "readOff e \<le> logEntry_Len e" using 1(1) by (simp add: log_entry_ok_def)
  have len: "length (log_entry_rest e) = logEntry_Len e - readOff e"
    using length_log_entry_bytes [OF 1(1)] by (simp add: log_entry_rest_def)
  have "readOff e + n \<le> logEntry_Len e" using le unfolding n_def by linarith
  then have "log_entry_ok (e\<lparr>readOff := readOff e + n\<rparr>)" using 1(1) by (simp add: log_entry_ok_def logEntry_Len_def)
  moreover have "log_entry_rest (e\<lparr>readOff := readOff e + n\<rparr>) = drop n (log_entry_rest e)"
    by (simp add: log_entry_rest_def log_entry_bytes_readOff add.commute)
  moreover have "n \<le> length b" "n \<le> length (log_entry_rest e)" using len by (simp_all add: n_def)
  moreover have "readOff e + n = logEntry_Len e \<longrightarrow> drop n (log_entry_rest e) = []" using len by simp
  ultimately show ?case using logEntry_Read_ev [OF 1(1) n_def] by (auto simp: min_def)
next
  case (2 e b e' q m err)
  define n where "n = min (length b) (logEntry_Len e - readOff e)"
  have "readOff e \<le> logEntry_Len e" using 2(1) by (simp add: log_entry_ok_def)
  with logEntry_Read_ev [OF 2(1) n_def] 2(2,3) show ?case by (auto simp: n_def split: if_splits)
qed

text \<open>The bytes of an entry: the checksum of the rest, the rest of the header, the data.\<close>

definition entry_bytes :: "byte \<Rightarrow> int \<Rightarrow> int \<Rightarrow> bytes \<Rightarrow> bytes" where
  "entry_bytes pType off len d =
     le_bytes 4 (unat (crc32_Update 0 (entry_rest pType off len @ d))) @ entry_rest pType off len @ d"

lemma length_entry_rest:
  "length (entry_rest pType off len) = (if pType = entryTypeData then 12 else if pType = entryTypeTrim then 20 else 4)"
  by (simp add: entry_rest_def Let_def)

lemma makeLogEntry_ok:
  assumes "makeLogEntry pType off len d = (e, n)"
  shows "log_entry_ok e" "readOff e = 0" "log_entry_bytes e = entry_bytes pType off len d" "le_data e = d"
    "n = 4 + length (entry_rest pType off len)" "logEntry_Len e = length (entry_bytes pType off len d)"
  using assms
  by (auto simp: makeLogEntry_def Let_def log_entry_ok_def log_entry_bytes_def entry_bytes_def length_entry_rest entryBaseSize_def
      maxHeaderLen_def logEntry_Len_def crc32_Update_append split: if_splits)

section \<open>A log as a list of operations\<close>

datatype wal_op = WriteOp nat bytes | TrimOp nat nat

definition overlay :: "(nat \<rightharpoonup> byte) \<Rightarrow> nat \<Rightarrow> bytes \<Rightarrow> nat \<rightharpoonup> byte" where
  "overlay c off p k = (if off \<le> k \<and> k < off + length p then Some (p ! (k - off)) else c k)"

fun apply_op :: "wal_op \<Rightarrow> (nat \<rightharpoonup> byte) \<Rightarrow> nat \<rightharpoonup> byte" where
  "apply_op (WriteOp off p) c = overlay c off p"
| "apply_op (TrimOp off len) c = overlay c off (replicate len 0)"

definition log_content :: "wal_op list \<Rightarrow> nat \<rightharpoonup> byte" where
  "log_content ops = fold apply_op ops Map.empty"

fun op_bytes :: "wal_op \<Rightarrow> bytes" where
  "op_bytes (WriteOp off p) = entry_bytes entryTypeData (int off) (int (length p)) p"
| "op_bytes (TrimOp off len) = entry_bytes entryTypeTrim (int off) (int len) []"

fun op_fits :: "wal_op \<Rightarrow> bool" where
  "op_fits (WriteOp off p) \<longleftrightarrow> p \<noteq> [] \<and> length p \<le> MaxWriteSize \<and> off + length p \<le> max_off"
| "op_fits (TrimOp off len) \<longleftrightarrow> 0 < len \<and> off + len \<le> max_off"

definition log_start :: "('w, 't) wal_lib \<Rightarrow> bytes" where
  "log_start L = (case proto_Marshal (wl_header L) wal_header of
     Inl _ \<Rightarrow> [] | Inr buf \<Rightarrow> HeaderMagic @ le_bytes 4 (length buf) @ buf)"

definition log_image :: "('w, 't) wal_lib \<Rightarrow> wal_op list \<Rightarrow> bytes" where
  "log_image L ops = log_start L @ concat (map op_bytes ops)"

definition wal_apply :: "('w, 't) wal_lib \<Rightarrow> ('w, 't) wal_Writer \<Rightarrow> wal_op \<Rightarrow> (('w, 't) wal_Writer \<times> go_error option) option" where
  "wal_apply L w op =
     (case op of
        WriteOp off p \<Rightarrow> map_option (\<lambda>(w, _, err). (w, err)) (wal_WriteAt L w p (int off))
      | TrimOp off len \<Rightarrow> wal_Trim L w (int off) (int len))"

fun wal_run :: "('w, 't) wal_lib \<Rightarrow> ('w, 't) wal_Writer \<Rightarrow> wal_op list \<Rightarrow> (('w, 't) wal_Writer \<times> go_error option) option" where
  "wal_run L w [] = Some (w, None)"
| "wal_run L w (op # ops) = do {
     (w, err) \<leftarrow> wal_apply L w op;
     if err \<noteq> None then Some (w, err) else wal_run L w ops
   }"

lemma log_content_snoc: "log_content (ops @ [op]) = apply_op op (log_content ops)"
  by (simp add: log_content_def)

lemma log_image_snoc: "log_image L (ops @ [op]) = log_image L ops @ op_bytes op"
  by (simp add: log_image_def)

text \<open>A writer in step with the operations \<open>ops\<close>.\<close>

definition index_holds :: "('t, logRecord RangeValue) radix_ops \<Rightarrow> ('t \<Rightarrow> bool) \<Rightarrow> 't ExtentRangeMap \<Rightarrow> bytes \<Rightarrow> (nat \<rightharpoonup> byte) \<Rightarrow> bool" where
  "index_holds T ok m f c \<longleftrightarrow> extent_inv T ok m \<and> (\<forall>k. extent_abs T m k = None \<longleftrightarrow> c k = None) \<and>
     (\<forall>k lr v. extent_abs T m k = Some lr \<longrightarrow> c k = Some v \<longrightarrow> record_holds f lr k v)"

definition writes_only :: "wal_op list \<Rightarrow> bool" where
  "writes_only ops \<longleftrightarrow> (\<forall>op\<in>set ops. case op of WriteOp _ _ \<Rightarrow> True | TrimOp _ _ \<Rightarrow> False)"

definition wal_inv :: "('w, 't) wal_lib \<Rightarrow> ('w \<Rightarrow> bytes) \<Rightarrow> ('t \<Rightarrow> bool) \<Rightarrow> ('w, 't) wal_Writer \<Rightarrow> wal_op list \<Rightarrow> bool" where
  "wal_inv L written ok w ops \<longleftrightarrow>
     written (ww_w w) = (if ww_headerOnce w then log_image L ops else []) \<and> (\<not> ww_headerOnce w \<longrightarrow> ops = []) \<and>
     ww_headerErr w = None \<and> ww_offset w = int (length (written (ww_w w))) \<and> length (written (ww_w w)) \<le> max_off \<and>
     index_holds (wl_tree L) ok (ww_index w) (written (ww_w w)) (log_content ops) \<and>
     (\<forall>k lr. extent_abs (wl_tree L) (ww_index w) k = Some lr \<longrightarrow> lr_zero lr \<longrightarrow> \<not> writes_only ops) \<and>
     0 \<le> ww_end w \<and> ends_at (log_content ops) (nat (ww_end w))"

lemma record_holds_append: "record_holds f lr k v \<Longrightarrow> record_holds (f @ g) lr k v"
  by (fastforce simp: record_holds_def nth_append)

text \<open>Adding a record that holds all its bytes.\<close>

lemma index_holds_add:
  assumes T: "extent_tree T ok" and m: "index_holds T ok m f c" and len: "off + length p \<le> max_off" and lr: "lr_offset lr = int off" "lr_length lr = int (length p)"
    and new: "if lr_zero lr then p = replicate (length p) 0 else \<exists>q. lr_logOffset lr = int q \<and> q + length p \<le> length (f @ g) \<and> take (length p) (drop q (f @ g)) = p"
  shows "\<exists>m'. ExtentRangeMap_Add T m off (length p) lr = Some m' \<and> index_holds T ok m' (f @ g) (overlay c off p) \<and>
    extent_abs T m' = add_range off (length p) lr (extent_abs T m)"
proof -
  have inv: "extent_inv T ok m" "\<And>k. extent_abs T m k = None \<longleftrightarrow> c k = None"
    "\<And>k lr v. extent_abs T m k = Some lr \<Longrightarrow> c k = Some v \<Longrightarrow> record_holds f lr k v" using m by (auto simp: index_holds_def)
  have "off + length p \<le> key_limit" using len by simp
  from extent_tree.Add_extent [OF T inv(1) this, of lr] obtain m' where
    m': "ExtentRangeMap_Add T m off (length p) lr = Some m'" "extent_inv T ok m'"
      "extent_abs T m' = add_range off (length p) lr (extent_abs T m)" by blast
  have holds: "record_holds (f @ g) lr k (p ! (k - off))" if k: "off \<le> k" "k < off + length p" for k
  proof (cases "lr_zero lr")
    case True
    then have "p ! (k - off) = 0" using new k by (metis (full_types) less_diff_conv2 nth_replicate add.commute)
    with True lr len k show ?thesis by (auto simp: record_holds_def)
  next
    case False
    with new obtain q where q: "lr_logOffset lr = int q" "q + length p \<le> length (f @ g)" "take (length p) (drop q (f @ g)) = p" by auto
    have "p ! (k - off) = take (length p) (drop q (f @ g)) ! (k - off)" using q(3) by simp
    also have "\<dots> = (f @ g) ! (q + (k - off))" using k q(2) by (simp add: nth_drop del: take_append drop_append)
    finally show ?thesis using False lr len k q(1,2) by (auto simp: record_holds_def)
  qed
  have "index_holds T ok m' (f @ g) (overlay c off p)"
    unfolding index_holds_def m'(3) using m'(2) inv(2) holds record_holds_append [OF inv(3)]
    by (auto simp: add_range_def overlay_def)
  with m'(1,3) show ?thesis by blast
qed

lemma ends_at_overlay: "ends_at c e \<Longrightarrow> p \<noteq> [] \<Longrightarrow> ends_at (overlay c off p) (max e (off + length p))"
proof -
  assume e: "ends_at c e" and "p \<noteq> []"
  then obtain n where "length p = Suc n" by (cases p) auto
  with e show ?thesis by (auto simp: ends_at_def overlay_def max_def split: if_splits)
qed

end
