(* ===== verification/Wal_Run.thy ===== *)
theory Wal_Run
  imports Wal_Log
begin

text \<open>
  The writer of a log: every operation that returns nil keeps the file, the index and the end of the device in step
  with the operations so far, and the log reads as their content.
\<close>

definition wal_header_wf :: "wal_Header \<Rightarrow> bool" where
  "wal_header_wf h \<longleftrightarrow> (\<forall>x\<in>{wh_Version h, wh_BlockSize h, wh_Align h, wh_ChecksumType h}. x < 2 ^ 31)"

lemma wal_header_ok: "wal_header_wf wal_header"
  by (simp add: wal_header_wf_def wal_header_def Header_CRC32IEEE_def)

text \<open>A log file whose writes do not fail.\<close>

definition sink_live :: "('w, 't) wal_lib \<Rightarrow> bool" where
  "sink_live L \<longleftrightarrow> never_fails (wl_Write L) \<and> wl_rf L = None"

lemma sink_live_Write: "sink_live L \<Longrightarrow> wl_Write L w p = (w', n, e) \<Longrightarrow> e = None"
  unfolding sink_live_def never_fails_def by (metis snd_conv)

locale wal_sink = io_copy "wl_Write L" written logEntry_Read log_entry_rest log_entry_ok "wl_rf L" +
    proto_message "wl_header L" wal_header_wf + write_many "\<lambda>w p. Some (wl_Write L w p)" "wl_WriteMany L" +
    extent_tree "wl_tree L" ok zero
  for L :: "('w, 't) wal_lib" and written :: "'w \<Rightarrow> bytes" and ok :: "'t \<Rightarrow> bool" and zero :: logRecord
begin

lemma many_ok:
  "\<exists>w' n e. wl_WriteMany L w ps = Some (w', n, e) \<and>
    (e = None \<longrightarrow> n = length (concat ps) \<and> written w' = written w @ concat ps) \<and> (sink_live L \<longrightarrow> e = None)"
proof (induction ps arbitrary: w)
  case Nil
  then show ?case by (simp add: many_Nil)
next
  case (Cons p ps)
  obtain w1 n1 e1 where w1: "wl_Write L w p = (w1, n1, e1)" by (metis prod_cases3)
  from Cons.IH [of w1] obtain w2 n2 e2 where w2: "wl_WriteMany L w1 ps = Some (w2, n2, e2)"
    "e2 = None \<longrightarrow> n2 = length (concat ps) \<and> written w2 = written w1 @ concat ps" "sink_live L \<longrightarrow> e2 = None" by blast
  from Write_ok [OF w1] sink_live_Write [OF _ w1] w1 w2 show ?case by (cases "e1 = None") (auto simp: many_Cons)
qed

lemma start_ok:
  obtains hdr where "proto_Marshal (wl_header L) wal_header = Inr hdr" "length hdr < 2 ^ 31"
    "proto_Unmarshal (wl_header L) hdr = Inr wal_header" "log_start L = HeaderMagic @ le_bytes 4 (length hdr) @ hdr"
  using marshal_roundtrip [OF wal_header_ok] by (auto simp: log_start_def)

lemma writeLogEntry_ok:
  assumes "log_entry_ok e" "readOff e = 0"
  shows "\<exists>f' err. writeLogEntry L f e = Some (f', err) \<and> (err = None \<longrightarrow> written f' = written f @ log_entry_bytes e) \<and>
    (sink_live L \<longrightarrow> err = None)"
proof (cases "wl_rf L")
  case None
  define h where "h = take (headerSize e) (headerBuf e)"
  obtain f1 n1 e1 where f1: "wl_Write L f h = (f1, n1, e1)" by (metis prod_cases3)
  obtain f2 n2 e2 where f2: "wl_Write L f1 (le_data e) = (f2, n2, e2)" by (metis prod_cases3)
  from Write_ok [OF f1] Write_ok [OF f2] sink_live_Write [OF _ f1] sink_live_Write [OF _ f2] None f1 f2 show ?thesis
    by (auto simp: writeLogEntry_def logEntry_WriteTo_def log_entry_bytes_def h_def [symmetric])
next
  case (Some rf)
  from rf_ok [OF Some assms(1), of f] assms(2) Some show ?thesis
    by (auto simp: writeLogEntry_def log_entry_rest_def sink_live_def)
qed

lemma writeHeader_ok:
  assumes inv: "wal_inv L written ok w ops" and nil: "\<not> ww_nil w" and size: "length (log_image L ops) \<le> max_off"
  shows "\<exists>w' e. writeHeader L w = Some (w', e) \<and>
    (e = None \<longrightarrow> wal_inv L written ok w' ops \<and> ww_headerOnce w' \<and> \<not> ww_nil w') \<and> (sink_live L \<longrightarrow> e = None)"
proof (cases "ww_headerOnce w")
  case True
  with inv nil show ?thesis by (auto simp: writeHeader_def wal_inv_def)
next
  case False
  obtain hdr where hdr: "proto_Marshal (wl_header L) wal_header = Inr hdr" "length hdr < 2 ^ 31"
    "log_start L = HeaderMagic @ le_bytes 4 (length hdr) @ hdr" using start_ok by metis
  have u: "uint32 (int (length hdr)) = length hdr" using hdr(2) by (simp add: uint32_def nat_mod_distrib)
  have i: "ops = []" "written (ww_w w) = []" "ww_headerErr w = None" "index_holds (wl_tree L) ok (ww_index w) [] Map.empty"
    "0 \<le> ww_end w" "ends_at (Map.empty :: nat \<rightharpoonup> byte) (nat (ww_end w))"
    using inv False by (auto simp: wal_inv_def log_content_def)
  let ?ps = "[HeaderMagic, le_bytes 4 (length hdr), hdr]"
  obtain f n e where f: "wl_WriteMany L (ww_w w) ?ps = Some (f, n, e)"
    "e = None \<longrightarrow> n = length (concat ?ps) \<and> written f = written (ww_w w) @ concat ?ps" "sink_live L \<longrightarrow> e = None" using many_ok [of "ww_w w" ?ps] by blast
  let ?w = "w\<lparr>ww_headerOnce := True, ww_header := wal_header, ww_w := f, ww_offset := int n, ww_headerErr := e\<rparr>"
  have ev: "writeHeader L w = Some (?w, e)"
    using False nil hdr(1) u f(1) by (simp add: writeHeader_def)
  have "wal_inv L written ok ?w ops" if "e = None"
  proof -
    have img: "log_image L [] = log_start L" by (simp add: log_image_def)
    have "index_holds (wl_tree L) ok (ww_index w) ([] @ log_start L) Map.empty"
      using i(4) record_holds_append [of "[]"] by (simp add: index_holds_def)
    moreover have "extent_abs (wl_tree L) (ww_index w) k = None" for k using i(4) by (simp add: index_holds_def)
    ultimately show ?thesis using f(2) that i size hdr(3) by (simp add: wal_inv_def img log_content_def)
  qed
  with ev nil f(3) show ?thesis by simp
qed

text \<open>After the entry of an operation is in the file: the index entry and the new end.\<close>

lemma enter_ok:
  assumes inv: "wal_inv L written ok w ops" "ww_headerOnce w" and size: "length (log_image L (ops @ [op])) \<le> max_off"
    and f: "written f = written (ww_w w) @ op_bytes op" and p: "p \<noteq> []" "off + length p \<le> max_off"
    and op: "apply_op op = (\<lambda>c. overlay c off p)" and lr: "lr_offset lr = int off" "lr_length lr = int (length p)"
    and new: "if lr_zero lr then p = replicate (length p) 0 else \<exists>q. lr_logOffset lr = int q \<and>
      q + length p \<le> length (written f) \<and> take (length p) (drop q (written f)) = p"
    and zero: "lr_zero lr \<Longrightarrow> \<not> writes_only [op]"
  shows "\<exists>m. ExtentRangeMap_Add (wl_tree L) (ww_index w) off (length p) lr = Some m \<and>
    wal_inv L written ok (w\<lparr>ww_w := f, ww_offset := int (length (written f)), ww_index := m,
      ww_end := (if s64 (int off + int (length p)) > ww_end w then s64 (int off + int (length p)) else ww_end w)\<rparr>) (ops @ [op])"
proof -
  have i: "written (ww_w w) = log_image L ops" "ww_headerErr w = None"
    "index_holds (wl_tree L) ok (ww_index w) (written (ww_w w)) (log_content ops)" "0 \<le> ww_end w"
    "ends_at (log_content ops) (nat (ww_end w))" using inv by (auto simp: wal_inv_def)
  have img: "written f = log_image L (ops @ [op])" using f i(1) by (simp add: log_image_snoc)
  from index_holds_add [OF extent_tree_axioms i(3) p(2) lr, of "op_bytes op"] new [unfolded f]
  obtain m where m: "ExtentRangeMap_Add (wl_tree L) (ww_index w) off (length p) lr = Some m"
    "index_holds (wl_tree L) ok m (written f) (overlay (log_content ops) off p)"
    "extent_abs (wl_tree L) m = add_range off (length p) lr (extent_abs (wl_tree L) (ww_index w))" unfolding f by blast
  have z: "\<not> writes_only (ops @ [op])" if "extent_abs (wl_tree L) m k = Some lr'" "lr_zero lr'" for k lr'
    using that m(3) inv(1) zero by (auto simp: wal_inv_def writes_only_def add_range_def split: if_splits)
  have e: "s64 (int off + int (length p)) = int (off + length p)" by (rule s64_add [OF p(2)])
  have "nat (if int (off + length p) > ww_end w then int (off + length p) else ww_end w) = max (nat (ww_end w)) (off + length p)"
    using i(4) by auto
  with ends_at_overlay [OF i(5) p(1), of off] m z i img size inv(2) show ?thesis
    unfolding e by (auto simp: wal_inv_def log_content_snoc op)
qed

lemma WriteAt_ok:
  assumes inv: "wal_inv L written ok w ops" and nil: "\<not> ww_nil w" and op: "op_fits (WriteOp off p)"
    and size: "length (log_image L (ops @ [WriteOp off p])) \<le> max_off"
  shows "\<exists>w' n e. wal_WriteAt L w p (int off) = Some (w', n, e) \<and>
    (e = None \<longrightarrow> n = int (length p) \<and> wal_inv L written ok w' (ops @ [WriteOp off p]) \<and> ww_headerOnce w' \<and> \<not> ww_nil w') \<and>
    (sink_live L \<longrightarrow> e = None)"
proof -
  have p: "p \<noteq> []" "length p \<le> MaxWriteSize" "off + length p \<le> max_off" using op by auto
  have "length (log_image L ops) \<le> max_off" using size by (simp add: log_image_snoc)
  from writeHeader_ok [OF inv nil this] obtain w1 e1 where
    w1: "writeHeader L w = Some (w1, e1)" "e1 = None \<longrightarrow> wal_inv L written ok w1 ops \<and> ww_headerOnce w1 \<and> \<not> ww_nil w1"
    "sink_live L \<longrightarrow> e1 = None" by blast
  obtain e n where me: "makeLogEntry entryTypeData (int off) (int (length p)) p = (e, n)" by fastforce
  note mk = makeLogEntry_ok [OF me]
  from writeLogEntry_ok [OF mk(1,2), of "ww_w w1"] obtain f e2 where
    f: "writeLogEntry L (ww_w w1) e = Some (f, e2)" "e2 = None \<longrightarrow> written f = written (ww_w w1) @ op_bytes (WriteOp off p)"
    "sink_live L \<longrightarrow> e2 = None" unfolding mk(3) by auto
  show ?thesis
  proof (cases "e1 = None \<and> e2 = None")
    case False
    with w1 f p me show ?thesis by (cases e1) (auto simp: wal_WriteAt_def)
  next
    case True
    with w1 f have inv1: "wal_inv L written ok w1 ops" "ww_headerOnce w1" "\<not> ww_nil w1"
      and wf: "written f = written (ww_w w1) @ op_bytes (WriteOp off p)" by auto
    let ?k = "length (written (ww_w w1))"
    have img: "written (ww_w w1) = log_image L ops" "ww_offset w1 = int ?k" using inv1 by (auto simp: wal_inv_def)
    have n: "n = 16" using mk(5) by (simp add: length_entry_rest)
    have len: "length (op_bytes (WriteOp off p)) = 16 + length p" by (simp add: entry_bytes_def length_entry_rest)
    have fm: "?k + (16 + length p) \<le> max_off" using size len img by (simp add: log_image_snoc)
    have s1: "s64 (int ?k + int n) = int (?k + 16)" unfolding n by (rule s64_add) (use fm in linarith)
    have s2: "s64 (int ?k + int (logEntry_Len e)) = int (length (written f))"
      using s64_add [OF fm] wf len mk(6) by simp
    let ?lr = "\<lparr>lr_logOffset = int (?k + 16), lr_offset = int off, lr_length = int (length p), lr_zero = False\<rparr>"
    have dr: "drop (?k + 16) (written f) = p"
      unfolding wf by (simp add: entry_bytes_def length_entry_rest)
    have ao: "apply_op (WriteOp off p) = (\<lambda>c. overlay c off p)" by (simp add: fun_eq_iff)
    have "\<exists>q. lr_logOffset ?lr = int q \<and> q + length p \<le> length (written f) \<and> take (length p) (drop q (written f)) = p"
      by (intro exI [of _ "?k + 16"]) (use dr wf len in simp)
    then have new: "if lr_zero ?lr then p = replicate (length p) 0 else \<exists>q. lr_logOffset ?lr = int q \<and>
      q + length p \<le> length (written f) \<and> take (length p) (drop q (written f)) = p" by simp
    obtain m where m: "ExtentRangeMap_Add (wl_tree L) (ww_index w1) off (length p) ?lr = Some m"
      "wal_inv L written ok (w1\<lparr>ww_w := f, ww_offset := int (length (written f)), ww_index := m,
        ww_end := (if s64 (int off + int (length p)) > ww_end w1 then s64 (int off + int (length p)) else ww_end w1)\<rparr>) (ops @ [WriteOp off p])"
      using enter_ok [OF inv1(1,2) size wf p(1,3) ao _ _ new] by auto
    have u: "uint64 (int off) = off" using p(3) by (simp add: uint64_def)
    show ?thesis
      using w1(1) f(1) True p(1,2) me inv1(2,3) m s1 s2 img(2) u by (auto simp: wal_WriteAt_def Let_def)
  qed
qed

lemma Trim_ok:
  assumes inv: "wal_inv L written ok w ops" and nil: "\<not> ww_nil w" and op: "op_fits (TrimOp off len)"
    and size: "length (log_image L (ops @ [TrimOp off len])) \<le> max_off"
  shows "\<exists>w' e. wal_Trim L w (int off) (int len) = Some (w', e) \<and>
    (e = None \<longrightarrow> wal_inv L written ok w' (ops @ [TrimOp off len]) \<and> ww_headerOnce w' \<and> \<not> ww_nil w') \<and>
    (sink_live L \<longrightarrow> e = None)"
proof -
  define p where "p = replicate len (0 :: byte)"
  have p: "p \<noteq> []" "length p = len" "off + length p \<le> max_off" "p = replicate (length p) 0" using op by (auto simp: p_def)
  have "length (log_image L ops) \<le> max_off" using size by (simp add: log_image_snoc)
  from writeHeader_ok [OF inv nil this] obtain w1 e1 where
    w1: "writeHeader L w = Some (w1, e1)" "e1 = None \<longrightarrow> wal_inv L written ok w1 ops \<and> ww_headerOnce w1 \<and> \<not> ww_nil w1"
    "sink_live L \<longrightarrow> e1 = None" by blast
  obtain e n where me: "makeLogEntry entryTypeTrim (int off) (int len) [] = (e, n)" by fastforce
  note mk = makeLogEntry_ok [OF me]
  from writeLogEntry_ok [OF mk(1,2), of "ww_w w1"] obtain f e2 where
    f: "writeLogEntry L (ww_w w1) e = Some (f, e2)" "e2 = None \<longrightarrow> written f = written (ww_w w1) @ op_bytes (TrimOp off len)"
    "sink_live L \<longrightarrow> e2 = None" unfolding mk(3) by auto
  show ?thesis
  proof (cases "e1 = None \<and> e2 = None")
    case False
    with w1 f op me show ?thesis by (cases e1) (auto simp: wal_Trim_def)
  next
    case True
    with w1 f have inv1: "wal_inv L written ok w1 ops" "ww_headerOnce w1" "\<not> ww_nil w1"
      and wf: "written f = written (ww_w w1) @ op_bytes (TrimOp off len)" by auto
    let ?k = "length (written (ww_w w1))"
    have img: "written (ww_w w1) = log_image L ops" "ww_offset w1 = int ?k" using inv1 by (auto simp: wal_inv_def)
    have "?k + length (op_bytes (TrimOp off len)) \<le> max_off" using size img by (simp add: log_image_snoc)
    from s64_add [OF this] have s2: "s64 (int ?k + int (logEntry_Len e)) = int (length (written f))" using wf mk(6) by simp
    let ?lr = "\<lparr>lr_logOffset = 0, lr_offset = int off, lr_length = int len, lr_zero = True\<rparr>"
    have ao: "apply_op (TrimOp off len) = (\<lambda>c. overlay c off p)" by (simp add: fun_eq_iff p_def)
    have new: "if lr_zero ?lr then p = replicate (length p) 0 else \<exists>q. lr_logOffset ?lr = int q \<and>
      q + length p \<le> length (written f) \<and> take (length p) (drop q (written f)) = p" using p(4) by simp
    obtain m where m: "ExtentRangeMap_Add (wl_tree L) (ww_index w1) off len ?lr = Some m"
      "wal_inv L written ok (w1\<lparr>ww_w := f, ww_offset := int (length (written f)), ww_index := m,
        ww_end := (if s64 (int off + int len) > ww_end w1 then s64 (int off + int len) else ww_end w1)\<rparr>) (ops @ [TrimOp off len])"
      using enter_ok [OF inv1(1,2) size wf p(1,3) ao _ _ new] p(2) by (auto simp: writes_only_def)
    have u: "uint64 (int off) = off" "uint64 (int len) = len" using p(2,3) by (simp_all add: uint64_def)
    show ?thesis
      using w1(1) f(1) True op me inv1(2,3) m s2 img(2) u by (auto simp: wal_Trim_def Let_def)
  qed
qed

lemma new_writer: "written f = [] \<Longrightarrow> wal_inv L written ok (wal_NewWriter L f) [] \<and> \<not> ww_nil (wal_NewWriter L f)"
  by (simp add: wal_inv_def wal_NewWriter_def index_holds_def empty_extent log_content_def ends_at_def)

lemma run_ok:
  assumes "wal_inv L written ok w pre" "\<not> ww_nil w" "\<forall>op\<in>set ops. op_fits op" "length (log_image L (pre @ ops)) \<le> max_off"
  shows "\<exists>w' e. wal_run L w ops = Some (w', e) \<and>
    (e = None \<longrightarrow> wal_inv L written ok w' (pre @ ops) \<and> \<not> ww_nil w' \<and> (ops \<noteq> [] \<longrightarrow> ww_headerOnce w')) \<and> (sink_live L \<longrightarrow> e = None)"
  using assms
proof (induction ops arbitrary: w pre)
  case (Cons op ops)
  have fits: "op_fits op" "\<forall>op\<in>set ops. op_fits op" using Cons.prems(3) by auto
  have size: "length (log_image L (pre @ [op])) \<le> max_off" using Cons.prems(4) by (simp add: log_image_def)
  obtain w1 e1 where w1: "wal_apply L w op = Some (w1, e1)"
    "e1 = None \<longrightarrow> wal_inv L written ok w1 (pre @ [op]) \<and> ww_headerOnce w1 \<and> \<not> ww_nil w1" "sink_live L \<longrightarrow> e1 = None"
  proof (cases op)
    case (WriteOp off p)
    from WriteAt_ok [OF Cons.prems(1,2) fits(1) [unfolded WriteOp] size [unfolded WriteOp]] that show ?thesis
      by (auto simp: wal_apply_def WriteOp)
  next
    case (TrimOp off len)
    from Trim_ok [OF Cons.prems(1,2) fits(1) [unfolded TrimOp] size [unfolded TrimOp]] that show ?thesis
      by (auto simp: wal_apply_def TrimOp)
  qed
  show ?case
  proof (cases "e1 = None")
    case True
    with w1(2) have "wal_inv L written ok w1 (pre @ [op])" "\<not> ww_nil w1" "ww_headerOnce w1" by auto
    from Cons.IH [OF this(1,2) fits(2)] Cons.prems(4) w1(1) True this(3) show ?thesis
      by (cases ops) auto
  next
    case False
    with w1 show ?thesis by auto
  qed
qed auto

text \<open>What the log serves.\<close>

lemma log_serves:
  assumes "wal_inv L written ok w ops" "exact_reader_at (at (ww_w w)) (written (ww_w w))"
  shows "log_index (wl_tree L) ok (at (ww_w w)) (written (ww_w w)) (ww_index w) (log_content ops)"
proof -
  have "index_holds (wl_tree L) ok (ww_index w) (written (ww_w w)) (log_content ops)" "length (written (ww_w w)) \<le> max_off"
    using assms(1) by (auto simp: wal_inv_def)
  then show ?thesis
    by (intro log_index.intro extent_tree_axioms assms(2) log_index_axioms.intro) (auto simp: index_holds_def)
qed

lemma ReadableLog_index: "ReadableLog_reader L at w = index_reader (wl_tree L) (ww_index w) (at (ww_w w))"
  by (simp add: ReadableLog_reader_def index_reader_def ReadAtFrom_def wal_NextData_def wal_NextHole_def fun_eq_iff)

end

end
