(* ===== verification/Wal_Reader.thy ===== *)
theory Wal_Reader
  imports Wal_Run
begin

text \<open>
  \<open>internal/wal/reader.go\<close>: opening a log. \<open>NewReader\<close> takes the index from the footer if there is a valid one and
  scans the entries of the log otherwise. The codecs and the tree are those of the writer.

  \<open>NewReader\<close> clears the type byte in the buffer it peeks at and discards these bytes at once, so the change is
  never seen; the model changes a copy.
\<close>

definition readBufSize :: nat where "readBufSize = 64 * 1024"

text \<open>The field \<open>ra\<close> is an argument of the methods that use it.\<close>

record 't wal_Reader =
  wr_end :: int
  wr_header :: wal_Header
  wr_index :: "'t ExtentRangeMap"

text \<open>When \<open>Unmarshal\<close> fails the header is not used; the model leaves it.\<close>

definition readHeader :: "wal_Header proto_ops \<Rightarrow> 'r Read \<Rightarrow> 'r bufio_Reader \<Rightarrow> wal_Header \<Rightarrow>
    ('r bufio_Reader \<times> wal_Header \<times> nat \<times> go_error option) option" where
  "readHeader H Read r header = do {
     let n = 0;
     (r, magicBuf, err) \<leftarrow> br_Peek Read r (length HeaderMagic);
     if err \<noteq> None then Some (r, header, n, err)
     else if magicBuf \<noteq> HeaderMagic then Some (r, header, n, Some (Err ''wal/Reader: Invalid file magic''))
     else do {
       (r, _, _) \<leftarrow> br_Discard Read r (length HeaderMagic);
       let n = n + length HeaderMagic;
       (r, sizeBuf, err) \<leftarrow> br_Peek Read r 4;
       if err \<noteq> None then Some (r, header, n, err)
       else do {
         let headerSize = le_nat sizeBuf;
         (r, _, _) \<leftarrow> br_Discard Read r 4;
         let n = n + 4;
         (r, headerBuf, err) \<leftarrow> br_Peek Read r headerSize;
         if err \<noteq> None then Some (r, header, n, err)
         else do {
           let (header, err) = (case proto_Unmarshal H headerBuf of Inl e \<Rightarrow> (header, Some e) | Inr h \<Rightarrow> (h, None));
           (r, _, _) \<leftarrow> br_Discard Read r headerSize;
           Some (r, header, n + headerSize, err)
         }
       }
     }
   }"

section \<open>The footer\<close>

text \<open>One entry of the footer, parsed and added to the index.\<close>

definition add_index_entry :: "('w, 't) wal_lib \<Rightarrow> bytes \<Rightarrow> 't ExtentRangeMap \<Rightarrow> int \<Rightarrow>
    ('t ExtentRangeMap \<times> int \<times> go_error option) option" where
  "add_index_entry L entryBuf index end =
     (case proto_Unmarshal (wl_entry L) entryBuf of
        Inl err \<Rightarrow> Some (index, end, Some err)
      | Inr entryPb \<Rightarrow>
          if ix_Type entryPb = IndexEntry_WRITE
          then do {
            let eOffset = int64 (ix_Offset entryPb);
            let eLength = int64 (ix_Length entryPb);
            index \<leftarrow> ExtentRangeMap_Add (wl_tree L) index (uint64 eOffset) (uint64 eLength)
              \<lparr>lr_logOffset = int64 (ix_LogOffset entryPb), lr_offset = eOffset, lr_length = eLength, lr_zero = False\<rparr>;
            Some (index, if s64 (eOffset + eLength) > end then s64 (eOffset + eLength) else end, None)
          }
          else Some (index, end, Some errInvalidIndex))"

type_synonym footer_reader = "(SectionReader \<times> 32 word) bufio_Reader"

partial_function (option) readIndex_loop :: "('w, 't) wal_lib \<Rightarrow> footer_reader \<Rightarrow> 't ExtentRangeMap \<Rightarrow> int \<Rightarrow>
    (footer_reader \<times> 't ExtentRangeMap \<times> int \<times> go_error option) option" where
  "readIndex_loop L br index end = do {
     (br, entrySize, err) \<leftarrow> ReadUvarint (tee_Read SectionReader_Read) br;
     if err = Some EOF then Some (br, index, end, None)
     else if err \<noteq> None then Some (br, index, end, err)
     else if int64 entrySize < 0 then Some (br, index, end, Some (Err ''bufio: negative count''))
     else do {
       (br, entryBuf, err) \<leftarrow> br_Peek (tee_Read SectionReader_Read) br (nat (int64 entrySize));
       if err \<noteq> None then Some (br, index, end, err)
       else do {
         (br, _, _) \<leftarrow> br_Discard (tee_Read SectionReader_Read) br (nat (int64 entrySize));
         (index, end, err) \<leftarrow> add_index_entry L entryBuf index end;
         if err \<noteq> None then Some (br, index, end, err) else readIndex_loop L br index end
       }
     }
   }"

text \<open>The result is the index and the end of the device; both are dropped when there is an error.\<close>

definition readIndex :: "('w, 't) wal_lib \<Rightarrow> ReaderAt \<Rightarrow> int \<Rightarrow> ('t ExtentRangeMap \<times> int \<times> go_error option) option" where
  "readIndex L ra sz = do {
     let index = ExtentRangeMap_empty (wl_tree L);
     (footerEnd, _, err) \<leftarrow> ra (replicate 16 0) (s64 (sz - 16));
     if err \<noteq> None then Some (index, 0, err)
     else if drop 8 footerEnd \<noteq> FooterMagic then Some (index, 0, Some errInvalidIndex)
     else do {
       let footerSize = le_nat (take 4 footerEnd);
       let crc = le_nat (take 4 (drop 4 footerEnd));
       let off = s64 (s64 (sz - 16) - int footerSize);
       if off < 0 then Some (index, 0, Some errInvalidIndex)
       else do {
         let br = bufio_NewReaderSize (NewSectionReader ra off (int footerSize), 0) readBufSize;
         (br, index, end, err) \<leftarrow> readIndex_loop L br index 0;
         if err \<noteq> None then Some (index, 0, err)
         else if unat (snd (br_rd br)) \<noteq> crc then Some (index, 0, Some errInvalidIndex)
         else Some (index, end, None)
       }
     }
   }"

section \<open>Scanning the log\<close>

partial_function (option) load_copy :: "'r Read \<Rightarrow> 'r bufio_Reader \<Rightarrow> 32 word \<Rightarrow> nat \<Rightarrow>
    ('r bufio_Reader \<times> 32 word \<times> go_error option) option" where
  "load_copy Read bufr crc copyBytes =
     (if copyBytes > 0
      then do {
        let peekBytes = (if copyBytes > br_Size bufr then br_Size bufr else copyBytes);
        (bufr, buf, err) \<leftarrow> br_Peek Read bufr peekBytes;
        if err = Some EOF then Some (bufr, crc, Some ErrUnexpectedEOF)
        else if err \<noteq> None then Some (bufr, crc, err)
        else do {
          (bufr, _, _) \<leftarrow> br_Discard Read bufr peekBytes;
          load_copy Read bufr (crc32_Update crc buf) (copyBytes - peekBytes)
        }
      }
      else Some (bufr, crc, None))"

definition add_log_entry :: "('w, 't) wal_lib \<Rightarrow> 't wal_Reader \<Rightarrow> int \<Rightarrow> int \<Rightarrow> int \<Rightarrow> 't wal_Reader option" where
  "add_log_entry L r logOff dOffset dLength = do {
     index \<leftarrow> ExtentRangeMap_Add (wl_tree L) (wr_index r) (uint64 dOffset) (uint64 dLength)
       \<lparr>lr_logOffset = s64 (logOff + 16), lr_offset = dOffset, lr_length = dLength, lr_zero = False\<rparr>;
     Some (r\<lparr>wr_index := index,
       wr_end := (if s64 (dOffset + dLength) > wr_end r then s64 (dOffset + dLength) else wr_end r)\<rparr>)
   }"

partial_function (option) load_loop :: "('w, 't) wal_lib \<Rightarrow> 'r Read \<Rightarrow> 'r bufio_Reader \<Rightarrow> 't wal_Reader \<Rightarrow> int \<Rightarrow>
    ('t wal_Reader \<times> go_error option) option" where
  "load_loop L Read bufr r logOff = do {
     (bufr, entry, err) \<leftarrow> br_Peek Read bufr entryBaseSize;
     if err = Some EOF \<and> entry = [] then Some (r, None)
     else if err \<noteq> None then Some (r, if err = Some EOF then Some ErrUnexpectedEOF else err)
     else do {
       let sum = crc32_Update 0 (drop 4 entry);
       let pType = entry ! 7;
       let packetSize = le_nat (take 4 (drop 4 (entry [7 := 0])));
       let crc = le_nat (take 4 entry);
       (bufr, _, _) \<leftarrow> br_Discard Read bufr entryBaseSize;
       (bufr, dOffset, dLength, err) \<leftarrow>
         (if pType = entryTypeData
          then do {
            (bufr, buf, err) \<leftarrow> br_Peek Read bufr 8;
            Some (bufr, int64 (le_nat buf), int packetSize - int entryBaseSize - 8, err)
          }
          else Some (bufr, 0, 0, None));
       if err \<noteq> None then Some (r, err)
       else if pType = entryTypeTrim then None
       else if pType = entryTypeFooter then Some (r, None)
       else do {
         (bufr, sum, err) \<leftarrow> load_copy Read bufr sum (uint32 (int packetSize - int entryBaseSize));
         if err \<noteq> None then Some (r, err)
         else if unat sum \<noteq> crc then Some (r, Some ErrCorruptedLog)
         else do {
           r \<leftarrow> (if pType = entryTypeData then add_log_entry L r logOff dOffset dLength else Some r);
           load_loop L Read bufr r (s64 (logOff + int packetSize))
         }
       }
     }
   }"

definition wal_NewReader :: "('w, 't) wal_lib \<Rightarrow> ReaderAt \<Rightarrow> int \<Rightarrow> ('t wal_Reader \<times> go_error option) option" where
  "wal_NewReader L ra sz = do {
     let r = \<lparr>wr_end = 0, wr_header = \<lparr>wh_Version = 0, wh_BlockSize = 0, wh_Align = 0, wh_ChecksumType = 0\<rparr>,
       wr_index = ExtentRangeMap_empty (wl_tree L)\<rparr>;
     let bufr = bufio_NewReaderSize (NewSimpleReaderAtReader ra 0) readBufSize;
     (bufr, header, n, err) \<leftarrow> readHeader (wl_header L) SimpleReaderAtReader_Read bufr (wr_header r);
     let r = r\<lparr>wr_header := header\<rparr>;
     if err \<noteq> None then Some (r, if err = Some EOF then Some ErrUnexpectedEOF else err)
     else do {
       (r, loaded) \<leftarrow>
         (if sz > 0
          then do {
            (index, end, err) \<leftarrow> readIndex L ra sz;
            Some (if err = None then r\<lparr>wr_index := index, wr_end := end\<rparr> else r, err = None)
          }
          else Some (r, False));
       if loaded then Some (r, None)
       else load_loop L SimpleReaderAtReader_Read bufr r (int n)
     }
   }"

definition wal_Reader_Size :: "'t wal_Reader \<Rightarrow> int" where
  "wal_Reader_Size r = wr_end r"

definition wal_Reader_reader :: "('w, 't) wal_lib \<Rightarrow> ReaderAt \<Rightarrow> 't wal_Reader \<Rightarrow> HoleReaderAt" where
  "wal_Reader_reader L ra r = \<lparr>ReadAt = (\<lambda>b off. index_ReadAt_loop (wl_tree L) (wr_index r) ra b off 0),
     NextData = index_NextData (wl_tree L) (wr_index r), NextHole = index_NextHole (wl_tree L) (wr_index r)\<rparr>"

end
