(* ===== verification/Wal_Recover.thy ===== *)
theory Wal_Recover
  imports Wal_Reader
begin

text \<open>
  Opening a log again: the scan of a log file recovers the content that was written, stops where the file was cut
  and reports what is damaged.
\<close>

section \<open>Steps of the scan\<close>

context reliable_reader
begin

lemma peek_discard:
  assumes "br_ok rest valid sz b" "n \<le> sz" "n \<le> length (br_stream rest b)"
  obtains b1 b2 m where "br_Peek Read b n = Some (b1, take n (br_stream rest b), None)" "br_ok rest valid sz b1"
    "br_stream rest b1 = br_stream rest b" "br_Discard Read b1 n = Some (b2, m, None)" "br_ok rest valid sz b2"
    "br_stream rest b2 = drop n (br_stream rest b)"
proof -
  obtain b1 where b1: "br_Peek Read b n = Some (b1, take n (br_stream rest b), if n \<le> length (br_stream rest b) then None else Some EOF)"
    "br_ok rest valid sz b1" "br_stream rest b1 = br_stream rest b" "n \<le> length (br_stream rest b) \<longrightarrow> n \<le> br_w b1 - br_r b1"
    by (rule Peek_ok [OF assms(1,2)])
  then have n: "n \<le> br_w b1 - br_r b1" using assms(3) by simp
  show thesis
    by (rule that [OF _ b1(2,3) Discard_ok(1,2) [OF b1(2) n]]) (use b1 Discard_ok(3) [OF b1(2) n] assms(3) in simp_all)
qed

lemma peek_take:
  assumes "br_ok rest valid sz b" "br_stream rest b = x @ t" "length x \<le> sz"
  obtains b1 b2 m where "br_Peek Read b (length x) = Some (b1, x, None)" "br_ok rest valid sz b1" "br_stream rest b1 = x @ t"
    "br_Discard Read b1 (length x) = Some (b2, m, None)" "br_ok rest valid sz b2" "br_stream rest b2 = t"
proof -
  have "length x \<le> length (br_stream rest b)" using assms(2) by simp
  from peek_discard [OF assms(1,3) this, of thesis] show thesis using that assms(2) by simp
qed

lemma readHeader_ok:
  assumes "br_ok rest valid sz b" "br_stream rest b = HeaderMagic @ le_bytes 4 (length hdr) @ hdr @ t"
    and "16 \<le> sz" "length hdr \<le> sz" "length hdr < 2 ^ 32" "proto_Unmarshal H hdr = Inr h"
  shows "\<exists>b'. readHeader H Read b h0 = Some (b', h, 12 + length hdr, None) \<and> br_ok rest valid sz b' \<and> br_stream rest b' = t"
proof -
  have M: "length HeaderMagic = 8" by (simp add: HeaderMagic_def)
  obtain b1 b2 m where p1: "br_Peek Read b (length HeaderMagic) = Some (b1, HeaderMagic, None)"
    "br_Discard Read b1 (length HeaderMagic) = Some (b2, m, None)"
    "br_ok rest valid sz b2" "br_stream rest b2 = le_bytes 4 (length hdr) @ hdr @ t"
    by (rule peek_take [OF assms(1,2)]) (use M assms(3) in simp_all)
  obtain b3 b4 m' where p2: "br_Peek Read b2 (length (le_bytes 4 (length hdr))) = Some (b3, le_bytes 4 (length hdr), None)"
    "br_Discard Read b3 (length (le_bytes 4 (length hdr))) = Some (b4, m', None)"
    "br_ok rest valid sz b4" "br_stream rest b4 = hdr @ t"
    by (rule peek_take [OF p1(3,4)]) (use assms(3) in simp_all)
  obtain b5 b6 m'' where p3: "br_Peek Read b4 (length hdr) = Some (b5, hdr, None)" "br_Discard Read b5 (length hdr) = Some (b6, m'', None)"
    "br_ok rest valid sz b6" "br_stream rest b6 = t"
    by (rule peek_take [OF p2(3,4) assms(4)])
  have "le_nat (le_bytes 4 (length hdr)) = length hdr" using assms(5) by (simp add: le_nat_le_bytes)
  then show ?thesis
    using p1(1,2) p2(1,2) p3 assms(6) by (simp add: readHeader_def M)
qed

text \<open>The rest of an entry, however long, in pieces of the size of the buffer.\<close>

lemma load_copy_ok:
  assumes "br_ok rest valid sz b"
  shows "\<exists>b' sum. load_copy Read b crc n = Some (b', sum, if n \<le> length (br_stream rest b) then None else Some ErrUnexpectedEOF) \<and>
    (n \<le> length (br_stream rest b) \<longrightarrow> sum = crc32_Update crc (take n (br_stream rest b)) \<and>
      br_ok rest valid sz b' \<and> br_stream rest b' = drop n (br_stream rest b))"
  using assms
proof (induction n arbitrary: b crc rule: less_induct)
  case (less n)
  show ?case
  proof (cases "n = 0")
    case True
    with less.prems show ?thesis by (subst load_copy.simps) simp
  next
    case False
    have sz: "br_Size b = sz" "0 < sz" using less.prems by (simp_all add: br_Size_def br_ok_def)
    define k where "k = (if n > br_Size b then br_Size b else n)"
    have k: "0 < k" "k \<le> sz" "k \<le> n" using False sz by (simp_all add: k_def)
    let ?s = "br_stream rest b"
    show ?thesis
    proof (cases "k \<le> length ?s")
      case True
      obtain b1 b2 m where p: "br_Peek Read b k = Some (b1, take k ?s, None)" "br_Discard Read b1 k = Some (b2, m, None)"
        "br_ok rest valid sz b2" "br_stream rest b2 = drop k ?s" by (rule peek_discard [OF less.prems k(2) True])
      have ev: "load_copy Read b crc n = load_copy Read b2 (crc32_Update crc (take k ?s)) (n - k)"
        using False p by (subst load_copy.simps) (simp add: k_def [symmetric])
      have "n - k < n" using k False by simp
      from less.IH [OF this p(3), of "crc32_Update crc (take k ?s)"] obtain b' sum where
        b': "load_copy Read b crc n = Some (b', sum, if n - k \<le> length (drop k ?s) then None else Some ErrUnexpectedEOF)"
          "n - k \<le> length (drop k ?s) \<longrightarrow> sum = crc32_Update crc (take k ?s @ take (n - k) (drop k ?s)) \<and>
            br_ok rest valid sz b' \<and> br_stream rest b' = drop (n - k) (drop k ?s)"
        unfolding ev p(4) crc32_Update_append by blast
      have "n - k \<le> length (drop k ?s) \<longleftrightarrow> n \<le> length ?s" using True k(3) by (simp add: le_diff_conv)
      moreover have "take k ?s @ take (n - k) (drop k ?s) = take n ?s" using k(3) by (metis le_add_diff_inverse take_add)
      moreover have "drop (n - k) (drop k ?s) = drop n ?s" using k(3) by simp
      ultimately show ?thesis using b' by simp
    next
      case f: False
      obtain b1 where "br_Peek Read b k = Some (b1, take k ?s, if k \<le> length ?s then None else Some EOF)"
        by (rule Peek_ok [OF less.prems k(2)])
      with f have "br_Peek Read b k = Some (b1, take k ?s, Some EOF)" by simp
      then have "load_copy Read b crc n = Some (b1, crc, Some ErrUnexpectedEOF)"
        using False by (subst load_copy.simps) (simp add: k_def [symmetric])
      then show ?thesis using f k(3) by auto
    qed
  qed
qed

end

text \<open>The first eight bytes of an entry: checksum, packet size and type.\<close>

lemma entry_head:
  assumes "e = le_bytes 4 c @ (le_bytes 4 ps) [3 := ty]" "c < 2 ^ 32" "ps < 2 ^ 24"
  shows "length e = entryBaseSize" "e ! 7 = ty" "le_nat (take 4 e) = c" "le_nat (take 4 (drop 4 (e [7 := 0]))) = ps"
    "drop 4 e = (le_bytes 4 ps) [3 := ty]"
proof -
  have four: "(4 :: nat) = Suc (Suc (Suc (Suc 0)))" and three: "(3 :: nat) = Suc (Suc (Suc 0))" by simp_all
  have c: "le_nat (le_bytes 4 c) = c" using assms(2) by (simp add: le_nat_le_bytes)
  show "length e = entryBaseSize" "drop 4 e = (le_bytes 4 ps) [3 := ty]" "le_nat (take 4 e) = c" "e ! 7 = ty"
    using c by (simp_all add: assms(1) entryBaseSize_def nth_append)
  have "(of_nat (ps div 256 div 256 div 256) :: byte) = 0" using assms(3) by (simp add: div_mult2_eq [symmetric])
  moreover have "le_bytes 4 x = [of_nat x, of_nat (x div 256), of_nat (x div 256 div 256), of_nat (x div 256 div 256 div 256)]" for x
    by (simp only: four le_bytes.simps)
  ultimately have "(le_bytes 4 ps) [3 := 0] = le_bytes 4 ps" by (simp add: three)
  then have "drop 4 (e [7 := 0]) = le_bytes 4 ps" by (simp add: assms(1) list_update_append drop_update_swap)
  then show "le_nat (take 4 (drop 4 (e [7 := 0]))) = ps" using assms(3) by (simp add: le_nat_le_bytes)
qed

lemma entry_types: "entryTypeData AND entryTypeMask = entryTypeData" "entryTypeTrim AND entryTypeMask = entryTypeTrim"
  "entryTypeFooter AND entryTypeMask = entryTypeFooter" "entryTypeData \<noteq> entryTypeTrim" "entryTypeData \<noteq> entryTypeFooter"
  "entryTypeTrim \<noteq> entryTypeFooter"
  by (simp_all add: entryTypeData_def entryTypeTrim_def entryTypeFooter_def entryTypeMask_def)

lemma entry_rest_data:
  "n \<le> MaxWriteSize \<Longrightarrow> off < 2 ^ 63 \<Longrightarrow> entry_rest entryTypeData (int off) (int n) =
    (le_bytes 4 (16 + n)) [3 := entryTypeData] @ le_bytes 8 off"
  using entry_types by (simp add: entry_rest_def Let_def entryBaseSize_def uint32_def uint64_def MaxWriteSize_def nat_add_distrib)

context reliable_reader
begin

lemma load_data:
  assumes ok: "br_ok rest valid sz b" "8 \<le> sz" and n: "n \<le> MaxWriteSize" and off: "off < 2 ^ 63" and c: "c < 2 ^ 32"
    and stream: "br_stream rest b = le_bytes 4 c @ entry_rest entryTypeData (int off) (int n) @ t"
  shows "length t < n \<Longrightarrow> load_loop L Read b r logOff = Some (r, Some ErrUnexpectedEOF)"
    "n \<le> length t \<Longrightarrow> unat (crc32_Update 0 (entry_rest entryTypeData (int off) (int n) @ take n t)) \<noteq> c \<Longrightarrow>
      load_loop L Read b r logOff = Some (r, Some ErrCorruptedLog)"
    "n \<le> length t \<Longrightarrow> unat (crc32_Update 0 (entry_rest entryTypeData (int off) (int n) @ take n t)) = c \<Longrightarrow>
      \<exists>b'. br_ok rest valid sz b' \<and> br_stream rest b' = drop n t \<and>
        load_loop L Read b r logOff = Option.bind (add_log_entry L r logOff (int off) (int n))
          (\<lambda>r. load_loop L Read b' r (s64 (logOff + int (16 + n))))"
proof -
  define e where "e = le_bytes 4 c @ (le_bytes 4 (16 + n)) [3 := entryTypeData]"
  note er = entry_rest_data [OF n off]
  have "16 + n < 2 ^ 24" using n by (simp add: MaxWriteSize_def)
  note e = entry_head [OF e_def c this]
  have st: "br_stream rest b = e @ le_bytes 8 off @ t" using stream er by (simp add: e_def)
  obtain b1 b2 m where p1: "br_Peek Read b (length e) = Some (b1, e, None)" "br_Discard Read b1 (length e) = Some (b2, m, None)"
    "br_ok rest valid sz b2" "br_stream rest b2 = le_bytes 8 off @ t"
    by (rule peek_take [OF ok(1) st]) (use e(1) ok(2) in \<open>simp_all add: entryBaseSize_def\<close>)
  obtain b3 where p2: "br_Peek Read b2 (length (le_bytes 8 off)) = Some (b3, le_bytes 8 off, None)"
    "br_ok rest valid sz b3" "br_stream rest b3 = le_bytes 8 off @ t"
    by (rule peek_take [OF p1(3,4)]) (use ok(2) in simp_all)
  have o: "int64 (le_nat (le_bytes 8 off)) = int off" using off by (simp add: le_nat_le_bytes int64_id)
  have u: "uint32 (8 + int n) = 8 + n" using n by (simp add: uint32_def MaxWriteSize_def nat_add_distrib)
  obtain b4 sum where p3: "load_copy Read b3 (crc32_Update 0 (drop 4 e)) (8 + n) =
      Some (b4, sum, if 8 + n \<le> length (br_stream rest b3) then None else Some ErrUnexpectedEOF)"
    "8 + n \<le> length (br_stream rest b3) \<longrightarrow> sum = crc32_Update (crc32_Update 0 (drop 4 e)) (take (8 + n) (br_stream rest b3)) \<and>
      br_ok rest valid sz b4 \<and> br_stream rest b4 = drop (8 + n) (br_stream rest b3)" using load_copy_ok [OF p2(2)] by blast
  have len: "8 + n \<le> length (br_stream rest b3) \<longleftrightarrow> n \<le> length t" by (simp add: p2(3))
  have tk: "take (8 + n) (br_stream rest b3) = le_bytes 8 off @ take n t" "drop (8 + n) (br_stream rest b3) = drop n t"
    by (simp_all add: p2(3))
  have sum: "n \<le> length t \<longrightarrow> sum = crc32_Update 0 (entry_rest entryTypeData (int off) (int n) @ take n t) \<and>
      br_ok rest valid sz b4 \<and> br_stream rest b4 = drop n t"
    using p3(2) unfolding len tk crc32_Update_append e(5) er by simp
  note p1' = p1(1,2) [unfolded e(1) entryBaseSize_def] and p2' = p2(1) [unfolded length_le_bytes]
  have ev: "load_loop L Read b r logOff = (if \<not> n \<le> length t then Some (r, Some ErrUnexpectedEOF)
      else if unat sum \<noteq> c then Some (r, Some ErrCorruptedLog)
      else Option.bind (add_log_entry L r logOff (int off) (int n)) (\<lambda>r. load_loop L Read b4 r (s64 (logOff + int (16 + n)))))"
    by (subst load_loop.simps)
      (simp add: p1' p2' p3(1) [unfolded len] e(2-4) entry_types o u Let_def entryBaseSize_def)
  show "length t < n \<Longrightarrow> load_loop L Read b r logOff = Some (r, Some ErrUnexpectedEOF)" using ev by simp
  show "n \<le> length t \<Longrightarrow> unat (crc32_Update 0 (entry_rest entryTypeData (int off) (int n) @ take n t)) \<noteq> c \<Longrightarrow>
      load_loop L Read b r logOff = Some (r, Some ErrCorruptedLog)" using ev sum by simp
  show "n \<le> length t \<Longrightarrow> unat (crc32_Update 0 (entry_rest entryTypeData (int off) (int n) @ take n t)) = c \<Longrightarrow>
      \<exists>b'. br_ok rest valid sz b' \<and> br_stream rest b' = drop n t \<and>
        load_loop L Read b r logOff = Option.bind (add_log_entry L r logOff (int off) (int n))
          (\<lambda>r. load_loop L Read b' r (s64 (logOff + int (16 + n))))" using ev sum by (intro exI [of _ b4]) simp
qed

lemma load_end: "br_ok rest valid sz b \<Longrightarrow> 8 \<le> sz \<Longrightarrow> br_stream rest b = [] \<Longrightarrow> load_loop L Read b r logOff = Some (r, None)"
proof -
  assume "br_ok rest valid sz b" "8 \<le> sz" and st: "br_stream rest b = []"
  from Peek_ok [OF this(1,2)] obtain b1 where "br_Peek Read b 8 = Some (b1, [], Some EOF)" unfolding st by auto
  then show ?thesis by (subst load_loop.simps) (simp add: entryBaseSize_def)
qed

lemma load_short:
  assumes "br_ok rest valid sz b" "8 \<le> sz" "br_stream rest b \<noteq> []" "length (br_stream rest b) < 8"
  shows "load_loop L Read b r logOff = Some (r, Some ErrUnexpectedEOF)"
proof -
  from Peek_ok [OF assms(1,2)] assms(4) obtain b1 where "br_Peek Read b 8 = Some (b1, br_stream rest b, Some EOF)" by auto
  then show ?thesis using assms(3) by (subst load_loop.simps) (simp add: entryBaseSize_def)
qed

lemma load_head:
  assumes ok: "br_ok rest valid sz b" "8 \<le> sz" and c: "c < 2 ^ 32" and ps: "ps < 2 ^ 24"
    and stream: "br_stream rest b = le_bytes 4 c @ (le_bytes 4 ps) [3 := ty] @ t"
  shows "ty = entryTypeTrim \<Longrightarrow> load_loop L Read b r logOff = None"
    "ty = entryTypeFooter \<Longrightarrow> load_loop L Read b r logOff = Some (r, None)"
    "ty = entryTypeData \<Longrightarrow> length t < 8 \<Longrightarrow> load_loop L Read b r logOff = Some (r, Some EOF)"
proof -
  define e where "e = le_bytes 4 c @ (le_bytes 4 ps) [3 := ty]"
  note e = entry_head [OF e_def c ps]
  have st: "br_stream rest b = e @ t" using stream by (simp add: e_def)
  obtain b1 b2 m where p: "br_Peek Read b (length e) = Some (b1, e, None)" "br_Discard Read b1 (length e) = Some (b2, m, None)"
    "br_ok rest valid sz b2" "br_stream rest b2 = t"
    by (rule peek_take [OF ok(1) st]) (use e(1) ok(2) in \<open>simp_all add: entryBaseSize_def\<close>)
  note p' = p(1,2) [unfolded e(1)]
  have ne: "e \<noteq> []" using e(1) by (auto simp: entryBaseSize_def)
  show "ty = entryTypeTrim \<Longrightarrow> load_loop L Read b r logOff = None"
    "ty = entryTypeFooter \<Longrightarrow> load_loop L Read b r logOff = Some (r, None)"
    using p' e(2) entry_types ne by (subst load_loop.simps, simp add: Let_def)+
  assume ty: "ty = entryTypeData" "length t < 8"
  from Peek_ok [OF p(3) ok(2)] ty(2) p(4) obtain b3 where "br_Peek Read b2 8 = Some (b3, t, Some EOF)" by auto
  then show "load_loop L Read b r logOff = Some (r, Some EOF)"
    using p' e(2) ty(1) ne by (subst load_loop.simps, simp add: Let_def)
qed

end

section \<open>Recovery\<close>

text \<open>A reader of a log file \<open>f\<close> that has loaded the content \<open>c\<close>.\<close>

definition log_loaded :: "('w, 't) wal_lib \<Rightarrow> ('t \<Rightarrow> bool) \<Rightarrow> bytes \<Rightarrow> (nat \<rightharpoonup> byte) \<Rightarrow> 't wal_Reader \<Rightarrow> bool" where
  "log_loaded L ok f c r \<longleftrightarrow> index_holds (wl_tree L) ok (wr_index r) f c \<and> 0 \<le> wr_end r \<and> ends_at c (nat (wr_end r))"

locale wal_recovery = extent_tree "wl_tree L" ok zero + proto_message "wl_header L" wal_header_wf + exact_reader_at R f
  for L :: "('w, 't) wal_lib" and ok :: "'t \<Rightarrow> bool" and zero :: logRecord and R :: ReaderAt and f :: bytes +
  assumes header_small: "length (log_start L) \<le> readBufSize"
    and file_size: "length f \<le> max_off"
begin

lemma add_log_entry_ok:
  assumes r: "log_loaded L ok f c r" and p: "p \<noteq> []" "off + length p \<le> max_off"
    and at: "k + 16 + length p \<le> length f" "take (length p) (drop (k + 16) f) = p"
  shows "\<exists>r'. add_log_entry L r (int k) (int off) (int (length p)) = Some r' \<and> log_loaded L ok f (overlay c off p) r'"
proof -
  have l: "index_holds (wl_tree L) ok (wr_index r) f c" "0 \<le> wr_end r" "ends_at c (nat (wr_end r))" using r by (auto simp: log_loaded_def)
  let ?lr = "\<lparr>lr_logOffset = int (k + 16), lr_offset = int off, lr_length = int (length p), lr_zero = False\<rparr>"
  have "\<exists>q. int (k + 16) = int q \<and> q + length p \<le> length f \<and> take (length p) (drop q f) = p" using at by blast
  with index_holds_add [OF extent_tree_axioms l(1) p(2), of ?lr "[]"]
  obtain m where m: "ExtentRangeMap_Add (wl_tree L) (wr_index r) off (length p) ?lr = Some m"
    "index_holds (wl_tree L) ok m f (overlay c off p)" by auto
  have u: "uint64 (int off) = off" "uint64 (int (length p)) = length p" using p(2) by (simp_all add: uint64_def)
  have e: "s64 (int off + int (length p)) = int (off + length p)" by (rule s64_add [OF p(2)])
  have "k + 16 \<le> max_off" using at(1) file_size by linarith
  then have q: "s64 (int k + 16) = int (k + 16)" using s64_add [of k 16] by simp
  have "nat (if int (off + length p) > wr_end r then int (off + length p) else wr_end r) = max (nat (wr_end r)) (off + length p)"
    using l(2) by auto
  with ends_at_overlay [OF l(3) p(1), of off] m l(2) show ?thesis
    unfolding add_log_entry_def u e q by (auto simp: log_loaded_def)
qed

abbreviation scan :: "SimpleReaderAtReader bufio_Reader \<Rightarrow> 't wal_Reader \<Rightarrow> nat \<Rightarrow> ('t wal_Reader \<times> go_error option) option" where
  "scan b r k \<equiv> load_loop L SimpleReaderAtReader_Read b r (int k)"

abbreviation scanning :: "SimpleReaderAtReader bufio_Reader \<Rightarrow> bool" where
  "scanning b \<equiv> br_ok (simple_rest f) (simple_valid R f) readBufSize b"

lemma bufsize: "8 \<le> readBufSize" "16 \<le> readBufSize" "max readBufSize 16 = readBufSize"
  by (simp_all add: readBufSize_def)

lemma scan_ops:
  assumes "scanning b" "br_stream (simple_rest f) b = concat (map op_bytes ops) @ t" "log_loaded L ok f c r"
    and "f = pre @ concat (map op_bytes ops) @ t" "\<forall>op\<in>set ops. op_fits op" "writes_only ops"
  shows "\<exists>b' r'. scan b r (length pre) = scan b' r' (length (pre @ concat (map op_bytes ops))) \<and> scanning b' \<and>
    br_stream (simple_rest f) b' = t \<and> log_loaded L ok f (fold apply_op ops c) r'"
  using assms
proof (induction ops arbitrary: b r c pre)
  case (Cons op ops)
  from Cons.prems(5,6) obtain off p where op: "op = WriteOp off p" "p \<noteq> []" "length p \<le> MaxWriteSize" "off + length p \<le> max_off"
    by (cases op) (auto simp: writes_only_def)
  let ?rest = "entry_rest entryTypeData (int off) (int (length p))" and ?t = "concat (map op_bytes ops) @ t"
  define ck where "ck = unat (crc32_Update 0 (?rest @ p))"
  have ck: "ck < 2 ^ 32" using unsigned_less [of "crc32_Update 0 (?rest @ p)"] by (simp add: ck_def)
  have ob: "op_bytes op = le_bytes 4 ck @ ?rest @ p" by (simp add: op(1) entry_bytes_def ck_def)
  have len: "length (op_bytes op) = 16 + length p" by (simp add: ob length_entry_rest)
  have off: "off < 2 ^ 63" using op(2,4) by simp
  have st: "br_stream (simple_rest f) b = le_bytes 4 ck @ ?rest @ (p @ ?t)" using Cons.prems(2) ob by simp
  obtain b1 where b1: "scanning b1" "br_stream (simple_rest f) b1 = ?t"
    "scan b r (length pre) = Option.bind (add_log_entry L r (int (length pre)) (int off) (int (length p)))
       (\<lambda>r. load_loop L SimpleReaderAtReader_Read b1 r (s64 (int (length pre) + int (16 + length p))))"
    using simple.load_data(3) [OF Cons.prems(1) bufsize(1) op(3) off ck st, of L r "int (length pre)"] by (auto simp: ck_def)
  have f: "f = (pre @ op_bytes op) @ ?t" "f = pre @ (le_bytes 4 ck @ ?rest) @ p @ ?t" using Cons.prems(4) ob by simp_all
  have lf: "length pre + 16 + length p \<le> length f" using f(1) len by simp
  have "length (le_bytes 4 ck @ ?rest) = 16" by (simp add: length_entry_rest)
  then have "drop (length pre + 16) f = p @ ?t" unfolding f(2) by (simp only: drop_append) simp
  then have "take (length p) (drop (length pre + 16) f) = p" by simp
  from add_log_entry_ok [OF Cons.prems(3) op(2,4) lf this] obtain r1 where
    r1: "add_log_entry L r (int (length pre)) (int off) (int (length p)) = Some r1" "log_loaded L ok f (overlay c off p) r1" by blast
  have "s64 (int (length pre) + int (16 + length p)) = int (length (pre @ op_bytes op))"
    using s64_add [of "length pre" "16 + length p"] lf file_size len by simp
  then have ev: "scan b r (length pre) = scan b1 r1 (length (pre @ op_bytes op))" using b1(3) r1(1) by simp
  have "\<forall>op\<in>set ops. op_fits op" "writes_only ops" using Cons.prems(5,6) by (simp_all add: writes_only_def)
  from Cons.IH [OF b1(1,2) r1(2) f(1) this] show ?case by (simp add: ev op(1))
qed auto

text \<open>A reader before its index is loaded, and \<open>NewReader\<close> reading the header.\<close>

abbreviation no_header :: wal_Header where
  "no_header \<equiv> \<lparr>wh_Version = 0, wh_BlockSize = 0, wh_Align = 0, wh_ChecksumType = 0\<rparr>"

abbreviation new_reader :: "'t wal_Reader" where
  "new_reader \<equiv> \<lparr>wr_end = 0, wr_header = wal_header, wr_index = ExtentRangeMap_empty (wl_tree L)\<rparr>"

lemma NewReader_header:
  assumes "f = log_start L @ t"
  shows "\<exists>b. readHeader (wl_header L) SimpleReaderAtReader_Read (bufio_NewReaderSize (NewSimpleReaderAtReader R 0) readBufSize) no_header =
    Some (b, wal_header, length (log_start L), None) \<and> scanning b \<and> br_stream (simple_rest f) b = t"
proof -
  obtain hdr where hdr: "length hdr < 2 ^ 31" "proto_Unmarshal (wl_header L) hdr = Inr wal_header"
    "log_start L = HeaderMagic @ le_bytes 4 (length hdr) @ hdr"
    using marshal_roundtrip [OF wal_header_ok] by (auto simp: log_start_def)
  have M: "length HeaderMagic = 8" by (simp add: HeaderMagic_def)
  let ?rd = "NewSimpleReaderAtReader R 0"
  have "simple_valid R f ?rd" using file_size by (simp add: simple_valid_def NewSimpleReaderAtReader_def)
  then have b: "scanning (bufio_NewReaderSize ?rd readBufSize)"
    using br_new(1) [of "simple_valid R f" ?rd "simple_rest f" readBufSize] by (simp only: bufsize(3))
  have st: "br_stream (simple_rest f) (bufio_NewReaderSize ?rd readBufSize) = HeaderMagic @ le_bytes 4 (length hdr) @ hdr @ t"
    using assms hdr(3) by (simp add: br_new simple_rest_def NewSimpleReaderAtReader_def)
  have l: "length hdr \<le> readBufSize" "length hdr < 2 ^ 32" using header_small hdr(1,3) by simp_all
  have len: "12 + length hdr = length (log_start L)" using hdr(3) M by simp
  from simple.readHeader_ok [OF b st bufsize(2) l hdr(2), of no_header] show ?thesis unfolding len by blast
qed

text \<open>Without a footer: after the entries the scan stands before the tail \<open>t\<close>.\<close>

lemma NewReader_scan:
  assumes "f = log_image L ops @ t" "\<forall>op\<in>set ops. op_fits op" "writes_only ops"
  shows "\<exists>b r. wal_NewReader L R 0 = scan b r (length (log_image L ops)) \<and> scanning b \<and>
    br_stream (simple_rest f) b = t \<and> log_loaded L ok f (log_content ops) r"
proof -
  have "f = log_start L @ (concat (map op_bytes ops) @ t)" using assms(1) by (simp add: log_image_def)
  from NewReader_header [OF this] obtain b where
    b: "readHeader (wl_header L) SimpleReaderAtReader_Read (bufio_NewReaderSize (NewSimpleReaderAtReader R 0) readBufSize) no_header =
      Some (b, wal_header, length (log_start L), None)" "scanning b" "br_stream (simple_rest f) b = concat (map op_bytes ops) @ t" by blast
  have ev: "wal_NewReader L R 0 = scan b new_reader (length (log_start L))" using b(1) by (simp add: wal_NewReader_def Let_def)
  have "log_loaded L ok f Map.empty new_reader" by (simp add: log_loaded_def index_holds_def empty_extent ends_at_def)
  from scan_ops [OF b(2,3) this _ assms(2,3), of "log_start L"] assms(1) show ?thesis
    unfolding ev log_content_def by (simp add: log_image_def)
qed

text \<open>What a loaded reader serves.\<close>

lemma loaded_serves:
  assumes "log_loaded L ok f c r"
  shows "hole_reader_at (wal_Reader_reader L R r) c \<and> 0 \<le> wal_Reader_Size r \<and> ends_at c (nat (wal_Reader_Size r))"
proof -
  have l: "index_holds (wl_tree L) ok (wr_index r) f c" "0 \<le> wr_end r" "ends_at c (nat (wr_end r))" using assms by (auto simp: log_loaded_def)
  have "log_index (wl_tree L) ok R f (wr_index r) c"
    by (intro log_index.intro extent_tree_axioms exact_reader_at_axioms log_index_axioms.intro)
      (use l(1) file_size in \<open>auto simp: index_holds_def\<close>)
  from log_index.index_serves [OF this] l(2,3) show ?thesis
    by (simp add: wal_Reader_reader_def index_reader_def wal_Reader_Size_def)
qed

lemma recover_tail:
  assumes "f = log_image L ops @ t" "\<forall>op\<in>set ops. op_fits op" "writes_only ops"
    and sc: "\<And>b r k. scanning b \<Longrightarrow> br_stream (simple_rest f) b = t \<Longrightarrow> scan b r k = Some (r, e)"
  shows "\<exists>r. wal_NewReader L R 0 = Some (r, e) \<and> hole_reader_at (wal_Reader_reader L R r) (log_content ops) \<and>
    0 \<le> wal_Reader_Size r \<and> ends_at (log_content ops) (nat (wal_Reader_Size r))"
proof -
  from NewReader_scan [OF assms(1-3)] obtain b r where r: "wal_NewReader L R 0 = scan b r (length (log_image L ops))" "scanning b"
    "br_stream (simple_rest f) b = t" "log_loaded L ok f (log_content ops) r" by blast
  from r(1) sc [OF r(2,3)] loaded_serves [OF r(4)] show ?thesis by auto
qed

lemma scan_end: "scanning b \<Longrightarrow> br_stream (simple_rest f) b = [] \<Longrightarrow> scan b r k = Some (r, None)"
  by (rule simple.load_end [OF _ bufsize(1)])

lemma scan_torn:
  assumes "op_fits (WriteOp off p)" "0 < k" "k < length (op_bytes (WriteOp off p))" "scanning b"
    and st: "br_stream (simple_rest f) b = take k (op_bytes (WriteOp off p))"
  shows "scan b r j = Some (r, Some (if 8 \<le> k \<and> k < 16 then EOF else ErrUnexpectedEOF))"
proof -
  have n: "length p \<le> MaxWriteSize" "off < 2 ^ 63" using assms(1) by auto
  let ?rest = "entry_rest entryTypeData (int off) (int (length p))"
  define ck where "ck = unat (crc32_Update 0 (?rest @ p))"
  have ck: "ck < 2 ^ 32" using unsigned_less [of "crc32_Update 0 (?rest @ p)"] by (simp add: ck_def)
  let ?e = "le_bytes 4 ck @ (le_bytes 4 (16 + length p)) [3 := entryTypeData]"
  have ob: "op_bytes (WriteOp off p) = le_bytes 4 ck @ ?rest @ p" by (simp add: entry_bytes_def ck_def)
  note op_bytes.simps [simp del]
  have len: "length (op_bytes (WriteOp off p)) = 16 + length p" by (simp add: ob length_entry_rest)
  consider "k < 8" | "8 \<le> k" "k < 16" | "16 \<le> k" by linarith
  then show ?thesis
  proof cases
    case 1
    with simple.load_short [OF assms(4) bufsize(1), of L r "int j"] assms(2,3) st len show ?thesis by fastforce
  next
    case 2
    have "take k (op_bytes (WriteOp off p)) = ?e @ take (k - 8) (le_bytes 8 off @ p)"
      unfolding ob entry_rest_data [OF n] using 2 by simp
    with st have "br_stream (simple_rest f) b = le_bytes 4 ck @ (le_bytes 4 (16 + length p)) [3 := entryTypeData] @ take (k - 8) (le_bytes 8 off @ p)"
      by simp
    moreover have "16 + length p < 2 ^ 24" "length (take (k - 8) (le_bytes 8 off @ p)) < 8" using n(1) 2 by (simp_all add: MaxWriteSize_def)
    ultimately show ?thesis using simple.load_head(3) [OF assms(4) bufsize(1) ck, of "16 + length p" entryTypeData _ L r "int j"] 2 by simp
  next
    case 3
    have "take k (op_bytes (WriteOp off p)) = le_bytes 4 ck @ ?rest @ take (k - 16) p"
      unfolding ob using 3 by (simp add: length_entry_rest)
    moreover have "length (take (k - 16) p) < length p" using assms(3) len 3 by simp
    ultimately show ?thesis using simple.load_data(1) [OF assms(4) bufsize(1) n ck _, of "take (k - 16) p" L r "int j"] st 3 by simp
  qed
qed

lemma scan_footer:
  assumes "scanning b" "br_stream (simple_rest f) b = entry_bytes entryTypeFooter 0 0 [] @ t"
  shows "scan b r j = Some (r, None)"
proof -
  let ?ck = "unat (crc32_Update 0 (entry_rest entryTypeFooter 0 0))"
  have ck: "?ck < 2 ^ 32" using unsigned_less [of "crc32_Update 0 (entry_rest entryTypeFooter 0 0)"] by simp
  have "entry_rest entryTypeFooter 0 0 = (le_bytes 4 8) [3 := entryTypeFooter]"
    using entry_types by (auto simp: entry_rest_def entryBaseSize_def uint32_def)
  with simple.load_head(2) [OF assms(1) bufsize(1) ck, of 8 entryTypeFooter t L r "int j"] assms(2) show ?thesis
    by (simp add: entry_bytes_def)
qed

lemma scan_trim:
  assumes "scanning b" "br_stream (simple_rest f) b = op_bytes (TrimOp off len) @ t"
  shows "scan b r j = None"
proof -
  let ?rest = "entry_rest entryTypeTrim (int off) (int len)"
  let ?ck = "unat (crc32_Update 0 ?rest)"
  have ck: "?ck < 2 ^ 32" using unsigned_less [of "crc32_Update 0 ?rest"] by simp
  have "?rest = (le_bytes 4 24) [3 := entryTypeTrim] @ le_bytes 8 (uint64 (int off)) @ le_bytes 8 (uint64 (int len))"
    using entry_types by (auto simp: entry_rest_def entryBaseSize_def uint32_def)
  with simple.load_head(1) [OF assms(1) bufsize(1) ck, of 24 entryTypeTrim _ L r "int j"] assms(2) show ?thesis
    by (simp add: entry_bytes_def)
qed

end

end
