(* ===== verification/Wal_Footer.thy ===== *)
theory Wal_Footer
  imports Wal_Recover
begin

text \<open>
  The footer of a closed log: what \<open>CloseWriter\<close> writes for an index, and that \<open>readIndex\<close> makes of it an index of
  the same content.
\<close>

section \<open>Writing the footer\<close>

definition index_entry_wf :: "IndexEntry \<Rightarrow> bool" where
  "index_entry_wf e \<longleftrightarrow> ix_Type e < 2 ^ 31 \<and> ix_Offset e < 2 ^ 64 \<and> ix_Length e < 2 ^ 64 \<and> ix_LogOffset e < 2 ^ 64"

definition footer_bytes :: "('w, 't) wal_lib \<Rightarrow> logRecord RangeValue \<Rightarrow> bytes" where
  "footer_bytes L mr = (case proto_Marshal (wl_entry L) (footer_entry mr) of Inl _ \<Rightarrow> [] | Inr m \<Rightarrow> put_uvarint (length m) @ m)"

definition footer_body :: "('w, 't) wal_lib \<Rightarrow> logRecord RangeValue list \<Rightarrow> bytes" where
  "footer_body L rs = concat (map (footer_bytes L) rs)"

definition footer_image :: "('w, 't) wal_lib \<Rightarrow> logRecord RangeValue list \<Rightarrow> bytes" where
  "footer_image L rs = entry_bytes entryTypeFooter 0 0 [] @ footer_body L rs @
     le_bytes 4 (length (footer_body L rs)) @ le_bytes 4 (unat (crc32_Update 0 (footer_body L rs))) @ FooterMagic"

text \<open>The codec of footer entries: a message is smaller than the buffer of the reader.\<close>

locale wal_entries = entries: proto_sized "wl_entry L" index_entry_wf
  for L :: "('w, 't) wal_lib" +
  assumes entry_small: "index_entry_wf e \<Longrightarrow> proto_Size (wl_entry L) e \<le> readBufSize"
begin

lemma entry_codec:
  assumes "index_entry_wf (footer_entry mr)"
  obtains m where "proto_Marshal (wl_entry L) (footer_entry mr) = Inr m" "proto_Size (wl_entry L) (footer_entry mr) = length m"
    "proto_Unmarshal (wl_entry L) m = Inr (footer_entry mr)" "length m \<le> readBufSize" "footer_bytes L mr = put_uvarint (length m) @ m"
proof -
  obtain m where m: "proto_Marshal (wl_entry L) (footer_entry mr) = Inr m" "proto_Unmarshal (wl_entry L) m = Inr (footer_entry mr)"
    using entries.marshal_roundtrip [OF assms] by blast
  from entries.size_marshal [OF m(1)] entry_small [OF assms] m show thesis by (intro that [of m]) (auto simp: footer_bytes_def)
qed

end

locale wal_closer = wal_sink L written ok zero + wal_entries L
  for L :: "('w, 't) wal_lib" and written :: "'w \<Rightarrow> bytes" and ok :: "'t \<Rightarrow> bool" and zero :: logRecord
begin

lemma footer_visit:
  assumes "\<forall>mr\<in>set rs. index_entry_wf (footer_entry mr)" "bw_ok bw" "bw_err bw = None"
  shows "\<exists>bw' fs' crc' e. visit (footer_step L) rs (Some (bw, fs, crc, None)) = Some (bw', fs', crc', e) \<and>
    bw_appends written bw (footer_body L rs) (never_fails (wl_Write L)) bw' e \<and>
    (e = None \<longrightarrow> fs' = fs + length (footer_body L rs) \<and> crc' = crc32_Update crc (footer_body L rs))"
  using assms
proof (induction rs arbitrary: bw fs crc)
  case Nil
  then show ?case by (simp add: bw_appends_def footer_body_def)
next
  case (Cons mr rs)
  from Cons.prems(1) have "index_entry_wf (footer_entry mr)" by simp
  then obtain m where m: "proto_Marshal (wl_entry L) (footer_entry mr) = Inr m" "proto_Size (wl_entry L) (footer_entry mr) = length m"
    "footer_bytes L mr = put_uvarint (length m) @ m" by (rule entry_codec)
  let ?b = "footer_bytes L mr"
  have body: "footer_body L (mr # rs) = ?b @ footer_body L rs" by (simp add: footer_body_def)
  from Write_bufio [OF Cons.prems(2), of ?b] obtain bw1 n e1 where
    w: "bw_Write (wl_Write L) bw ?b = Some (bw1, n, e1)" "bw_appends written bw ?b (never_fails (wl_Write L)) bw1 e1"
      "e1 = None \<longrightarrow> n = length ?b" by blast
  have step: "footer_step L mr (Some (bw, fs, crc, None)) =
      (if e1 \<noteq> None then (Some (bw1, fs, crc32_Update crc ?b, e1), False) else (Some (bw1, fs + n, crc32_Update crc ?b, None), True))"
    using w(1) m by (simp add: footer_step_def Let_def)
  show ?case
  proof (cases "e1 = None")
    case False
    with step bw_appends_err [OF w(2)] show ?thesis by (auto simp: body)
  next
    case True
    with w(2) have "bw_ok bw1" "bw_err bw1 = None" by (auto simp: bw_appends_def)
    from Cons.IH [OF _ this, of "fs + n" "crc32_Update crc ?b"] Cons.prems(1) obtain bw2 fs2 crc2 e2 where
      r: "visit (footer_step L) rs (Some (bw1, fs + n, crc32_Update crc ?b, None)) = Some (bw2, fs2, crc2, e2)"
        "bw_appends written bw1 (footer_body L rs) (never_fails (wl_Write L)) bw2 e2"
        "e2 = None \<longrightarrow> fs2 = fs + n + length (footer_body L rs) \<and> crc2 = crc32_Update (crc32_Update crc ?b) (footer_body L rs)" by auto
    from bw_appends_trans [OF w(2) [unfolded True] r(2)] step r True w(3) show ?thesis
      by (auto simp: body crc32_Update_append)
  qed
qed

lemma entry_WriteTo_ok:
  assumes "bw_ok bw" "bw_err bw = None" "makeLogEntry pType off len [] = (e, n)"
  shows "\<exists>bw' k err. logEntry_WriteTo (bw_Write (wl_Write L)) e bw = Some (bw', k, err) \<and>
    bw_appends written bw (entry_bytes pType off len []) (never_fails (wl_Write L)) bw' err"
proof -
  note mk = makeLogEntry_ok [OF assms(3)]
  have b: "take (headerSize e) (headerBuf e) = entry_bytes pType off len []" "le_data e = []"
    using mk(3,4) by (simp_all add: log_entry_bytes_def)
  from Write_bufio [OF assms(1), of "entry_bytes pType off len []"] show ?thesis
    unfolding logEntry_WriteTo_def b by fastforce
qed

abbreviation index_runs :: "('w, 't) wal_Writer \<Rightarrow> logRecord RangeValue list" where
  "index_runs w \<equiv> extent_runs (wl_tree L) \<lparr>lr_logOffset = 0, lr_offset = 0, lr_length = 0, lr_zero = False\<rparr> (ww_index w) 0"

lemma CloseWriter_ok:
  assumes inv: "wal_inv L written ok w ops" "ww_headerOnce w" "\<not> ww_nil w"
    and wf: "\<forall>mr\<in>set (index_runs w). index_entry_wf (footer_entry mr)"
  shows "\<exists>w' e. CloseWriter L w = Some (w', e) \<and>
    (e = None \<longrightarrow> written (ww_w w') = log_image L ops @ footer_image L (index_runs w)) \<and> (sink_live L \<longrightarrow> e = None)"
proof -
  let ?live = "never_fails (wl_Write L)" and ?B = "footer_body L (index_runs w)"
  have i: "written (ww_w w) = log_image L ops" "ww_offset w = int (length (written (ww_w w)))" "extent_inv (wl_tree L) ok (ww_index w)"
    using inv by (auto simp: wal_inv_def index_holds_def)
  have "0 < length (log_start L)" using start_ok by (metis HeaderMagic_def append_is_Nil_conv length_greater_0_conv list.discI)
  then have "0 < length (log_image L ops)" by (simp add: log_image_def)
  then have off: "ww_offset w \<noteq> 0" using i by simp
  obtain en n where me: "makeLogEntry entryTypeFooter 0 0 [] = (en, n)" by fastforce
  let ?b0 = "bufio_NewWriterSize (ww_w w) bufio_defaultBufSize"
  have b0: "bw_ok ?b0" "bw_err ?b0 = None" "bw_stream written ?b0 = written (ww_w w)" by (simp_all add: bw_new bufio_defaultBufSize_def)
  from entry_WriteTo_ok [OF b0(1,2) me] obtain b1 k1 e1 where
    b1: "logEntry_WriteTo (bw_Write (wl_Write L)) en ?b0 = Some (b1, k1, e1)"
      "bw_appends written ?b0 (entry_bytes entryTypeFooter 0 0 []) ?live b1 e1" by blast
  have it: "ExtentRangeMap_Iterate (wl_tree L) \<lparr>lr_logOffset = 0, lr_offset = 0, lr_length = 0, lr_zero = False\<rparr> (ww_index w) 0 (footer_step L) st =
      visit (footer_step L) (index_runs w) st" for st
    by (rule extent_tree.Iterate_runs [OF extent_tree_axioms i(3)]) simp
  show ?thesis
  proof (cases "e1 = None")
    case False
    with b1 b0 inv(3) off me show ?thesis by (auto simp: CloseWriter_def Let_def bw_appends_def sink_live_def)
  next
    case True
    then have "bw_ok b1" "bw_err b1 = None" using b1(2) by (auto simp: bw_appends_def)
    from footer_visit [OF wf this, of 0 0] obtain b2 fs crc e2 where
      b2: "visit (footer_step L) (index_runs w) (Some (b1, 0, 0, None)) = Some (b2, fs, crc, e2)"
        "bw_appends written b1 ?B ?live b2 e2" "e2 = None \<longrightarrow> fs = length ?B \<and> crc = crc32_Update 0 ?B" by auto
    have a2: "bw_appends written ?b0 (entry_bytes entryTypeFooter 0 0 [] @ ?B) ?live b2 e2"
      using bw_appends_trans [OF b1(2) [unfolded True] b2(2)] .
    show ?thesis
    proof (cases "e2 = None")
      case False
      with b1 b2(1) a2 b0 inv(3) off me True show ?thesis by (auto simp: CloseWriter_def Let_def it bw_appends_def sink_live_def)
    next
      case e2: True
      have u: "le_bytes 4 (uint32 (int fs)) = le_bytes 4 (length ?B)"
        using b2(3) e2 le_bytes_mod [of 4 "length ?B"] by (simp add: uint32_def nat_mod_distrib)
      let ?t = "le_bytes 4 (length ?B) @ le_bytes 4 (unat (crc32_Update 0 ?B)) @ FooterMagic"
      have "bw_ok b2" using a2 by (auto simp: bw_appends_def)
      from Write_bufio [OF this, of ?t] obtain b3 n3 e3 where
        b3: "bw_Write (wl_Write L) b2 ?t = Some (b3, n3, e3)" "bw_appends written b2 ?t ?live b3 e3" by blast
      have a3: "bw_appends written ?b0 (footer_image L (index_runs w)) ?live b3 e3"
        using bw_appends_trans [OF a2 [unfolded e2] b3(2)] by (simp add: footer_image_def)
      obtain b4 e4 where fl: "bw_Flush (wl_Write L) b3 = (b4, e4)" by fastforce
      have ok3: "bw_ok b3" using a3 by (auto simp: bw_appends_def)
      note flok = Flush_ok [OF ok3 fl]
      have ev: "CloseWriter L w = Some (if e3 \<noteq> None then (w\<lparr>ww_nil := True, ww_w := bw_wr b3\<rparr>, e3) else (w\<lparr>ww_nil := True, ww_w := bw_wr b4\<rparr>, e4))"
        using b1(1) b2 b3(1) inv(3) off me True e2 u fl by (simp add: CloseWriter_def Let_def it)
      have live: "e3 = None \<and> e4 = None" if "sink_live L"
        using that a3 b0(2) Flush_live [OF _ ok3] fl by (auto simp: sink_live_def bw_appends_def)
      show ?thesis using ev flok a3 live i(1) b0(3) by (auto simp: bw_appends_def)
    qed
  qed
qed

end

section \<open>Reading the footer\<close>

definition run_bytes :: "(nat \<rightharpoonup> byte) \<Rightarrow> logRecord RangeValue \<Rightarrow> bytes" where
  "run_bytes c mr = map (\<lambda>k. the (c k)) [Offset mr..<rend mr]"

definition overlay_runs :: "(nat \<rightharpoonup> byte) \<Rightarrow> logRecord RangeValue list \<Rightarrow> (nat \<rightharpoonup> byte) \<Rightarrow> nat \<rightharpoonup> byte" where
  "overlay_runs c rs = fold (\<lambda>mr c'. overlay c' (Offset mr) (run_bytes c mr)) rs"

text \<open>The footer entry of a run names the place of its bytes in the log file.\<close>

definition run_placed :: "bytes \<Rightarrow> (nat \<rightharpoonup> byte) \<Rightarrow> logRecord RangeValue \<Rightarrow> bool" where
  "run_placed f c mr \<longleftrightarrow> (\<exists>q. footer_entry mr = \<lparr>ix_Type = IndexEntry_WRITE, ix_Offset = Offset mr, ix_Length = Length mr, ix_LogOffset = q\<rparr> \<and>
     q + Length mr \<le> length f \<and> take (Length mr) (drop q f) = run_bytes c mr) \<and> rend mr \<le> max_off \<and> 0 < Length mr"

lemma length_run_bytes [simp]: "length (run_bytes c mr) = Length mr"
  by (simp add: run_bytes_def)

lemma run_placed_wf:
  assumes "run_placed f c mr" "length f \<le> max_off"
  shows "index_entry_wf (footer_entry mr)"
proof -
  obtain q where q: "footer_entry mr = \<lparr>ix_Type = IndexEntry_WRITE, ix_Offset = Offset mr, ix_Length = Length mr, ix_LogOffset = q\<rparr>"
    "q + Length mr \<le> length f" "rend mr \<le> max_off" using assms(1) by (auto simp: run_placed_def)
  have "q \<le> max_off" "Offset mr \<le> max_off" "Length mr \<le> max_off" using q(2,3) assms(2) by (simp_all)
  then show ?thesis by (simp add: index_entry_wf_def q(1) IndexEntry_WRITE_def)
qed

lemma runs_placed:
  assumes m: "index_holds T ok m f c" and rs: "is_runs (extent_abs T m) 0 rs" and mr: "mr \<in> set rs"
    and nz: "\<forall>k lr. extent_abs T m k = Some lr \<longrightarrow> \<not> lr_zero lr" and size: "length f \<le> max_off"
  shows "run_placed f c mr"
proof -
  have len: "0 < Length mr" using rs mr by (auto simp: is_runs_def)
  have sep: "separate (set rs)" using rs by (auto simp: is_runs_def intro: sorted_separate)
  have at: "extent_abs T m k = Some (Value mr)" if "Offset mr \<le> k" "k < rend mr" for k
  proof -
    have "cover rs k = Some (Value mr)" using cover_Some [OF sep] mr that by (auto simp: inside_def)
    then show ?thesis using rs by (simp add: is_runs_def)
  qed
  have holds: "\<exists>v. c k = Some v \<and> record_holds f (Value mr) k v" if "Offset mr \<le> k" "k < rend mr" for k
  proof -
    have "c k \<noteq> None" using at [OF that] m unfolding index_holds_def by (metis option.distinct(1))
    then show ?thesis using at [OF that] m by (auto simp: index_holds_def)
  qed
  have inr: "Offset mr < rend mr" using len by (simp)
  have z: "\<not> lr_zero (Value mr)" using nz at [OF order_refl inr] by blast
  obtain a l p where lr: "lr_offset (Value mr) = int a" "lr_length (Value mr) = int l" "lr_logOffset (Value mr) = int p" "a + l \<le> max_off"
    using holds [OF order_refl inr] z by (auto simp: record_holds_def)
  have b: "a \<le> k \<and> k < a + l \<and> p + (k - a) < length f \<and> c k = Some (f ! (p + (k - a)))" if "Offset mr \<le> k" "k < rend mr" for k
    using holds [OF that] z lr(1-3) by (auto simp: record_holds_def)
  have e: "rend mr - 1 < a + l" "p + (rend mr - 1 - a) < length f" "a \<le> Offset mr" using b [of "rend mr - 1"] b [OF order_refl inr] inr by auto
  let ?q = "p + (Offset mr - a)"
  have q: "?q + Length mr \<le> length f" using e len inr by (simp)
  have "take (Length mr) (drop ?q f) = run_bytes c mr"
  proof (rule nth_equalityI)
    show "length (take (Length mr) (drop ?q f)) = length (run_bytes c mr)" using q by simp
    fix i assume "i < length (take (Length mr) (drop ?q f))"
    then have i: "i < Length mr" by simp
    then have "c (Offset mr + i) = Some (f ! (p + (Offset mr + i - a)))" using b [of "Offset mr + i"] by (simp)
    then show "take (Length mr) (drop ?q f) ! i = run_bytes c mr ! i" using i q e(3) by (simp add: run_bytes_def add.assoc)
  qed
  moreover have "footer_entry mr = \<lparr>ix_Type = IndexEntry_WRITE, ix_Offset = Offset mr, ix_Length = Length mr, ix_LogOffset = ?q\<rparr>"
  proof -
    have "a \<le> max_off" "p \<le> max_off" using lr(4) q size by simp_all
    then have u: "uint64 (int a) = a" "uint64 (int p) = p" by (simp_all add: uint64_def)
    have d: "int (Offset mr) - int a = int (Offset mr - a)" using e(3) by simp
    have "?q < 2 ^ 64" "Offset mr - a < 2 ^ 64" using q size by simp_all
    then have "u64 ?q = ?q" "uint64 (int (Offset mr - a)) = Offset mr - a" by (simp_all add: u64_id uint64_def)
    then show ?thesis using z lr u unfolding footer_entry_def by (simp only: u d if_False simp_thms lr)
  qed
  moreover have "rend mr \<le> max_off" using e(1) lr(4) by linarith
  ultimately show ?thesis unfolding run_placed_def using q len by blast
qed

lemma overlay_runs_at: "overlay_runs c rs c0 k = (if \<exists>mr\<in>set rs. inside k mr \<and> c k \<noteq> None then c k else c0 k)"
  if "\<forall>mr\<in>set rs. \<forall>j. inside j mr \<longrightarrow> c j \<noteq> None"
  using that
proof (induction rs arbitrary: c0)
  case (Cons mr rs)
  have "overlay c0 (Offset mr) (run_bytes c mr) k = (if inside k mr then c k else c0 k)"
  proof (cases "inside k mr")
    case True
    then have "k - Offset mr < Length mr" "Offset mr + (k - Offset mr) = k" by (simp_all add: inside_def less_diff_conv2)
    then have "run_bytes c mr ! (k - Offset mr) = the (c k)" by (simp add: run_bytes_def)
    moreover have "c k \<noteq> None" using True Cons.prems by simp
    ultimately show ?thesis using True by (auto simp: overlay_def inside_def)
  qed (auto simp: overlay_def inside_def)
  with Cons show ?case by (auto simp: overlay_runs_def)
qed (simp add: overlay_runs_def)

locale wal_reopen = wal_recovery L ok zero R f + wal_entries L
  for L :: "('w, 't) wal_lib" and ok :: "'t \<Rightarrow> bool" and zero :: logRecord and R :: ReaderAt and f :: bytes
begin

lemma add_index_entry_ok:
  assumes m: "index_holds (wl_tree L) ok m f c0" "0 \<le> end" "ends_at c0 (nat end)"
    and mr: "run_placed f c mr" "proto_Unmarshal (wl_entry L) b = Inr (footer_entry mr)"
  shows "\<exists>m' end'. add_index_entry L b m end = Some (m', end', None) \<and>
    index_holds (wl_tree L) ok m' f (overlay c0 (Offset mr) (run_bytes c mr)) \<and> 0 \<le> end' \<and>
    ends_at (overlay c0 (Offset mr) (run_bytes c mr)) (nat end')"
proof -
  obtain q where q: "footer_entry mr = \<lparr>ix_Type = IndexEntry_WRITE, ix_Offset = Offset mr, ix_Length = Length mr, ix_LogOffset = q\<rparr>"
    "q + Length mr \<le> length f" "take (Length mr) (drop q f) = run_bytes c mr" "rend mr \<le> max_off" "0 < Length mr"
    using mr(1) by (auto simp: run_placed_def)
  let ?p = "run_bytes c mr" and ?off = "Offset mr" and ?len = "Length mr"
  have p: "?p \<noteq> []" "?off + length ?p \<le> max_off" using q(4,5) by (auto simp flip: length_0_conv)
  let ?lr = "\<lparr>lr_logOffset = int q, lr_offset = int ?off, lr_length = int ?len, lr_zero = False\<rparr>"
  have "\<exists>q'. int q = int q' \<and> q' + length ?p \<le> length f \<and> take (length ?p) (drop q' f) = ?p" using q(2,3) by auto
  with index_holds_add [OF extent_tree_axioms m(1) p(2), of ?lr "[]"]
  obtain m' where m': "ExtentRangeMap_Add (wl_tree L) m ?off ?len ?lr = Some m'"
    "index_holds (wl_tree L) ok m' f (overlay c0 ?off ?p)" by auto
  have le: "?off \<le> max_off" "?len \<le> max_off" "q \<le> max_off" using q(2,4) file_size by simp_all
  then have i: "int64 ?off = int ?off" "int64 ?len = int ?len" "int64 q = int q" by (simp_all add: int64_id)
  have u: "uint64 (int ?off) = ?off" "uint64 (int ?len) = ?len" using le by (simp_all add: uint64_def)
  have e: "s64 (int ?off + int ?len) = int (rend mr)" by (rule s64_add [OF q(4)])
  define end' where "end' = (if int (rend mr) > end then int (rend mr) else end)"
  have "nat end' = max (nat end) (?off + length ?p)" "0 \<le> end'" using m(2) by (auto simp: end'_def)
  with ends_at_overlay [OF m(3) p(1), of ?off] have "ends_at (overlay c0 ?off ?p) (nat end')" "0 \<le> end'" by simp_all
  moreover have "add_index_entry L b m end = Some (m', end', None)"
    using m'(1) mr(2) unfolding add_index_entry_def q(1) end'_def by (simp add: i u e del: of_nat_add)
  ultimately show ?thesis using m'(2) by blast
qed

abbreviation footer_ok :: "32 word \<Rightarrow> footer_reader \<Rightarrow> bool" where
  "footer_ok K \<equiv> br_ok (\<lambda>rc. part_rest f (fst rc)) (tee_valid (part_rest f) (part_valid R f) K) readBufSize"

abbreviation footer_stream :: "footer_reader \<Rightarrow> bytes" where
  "footer_stream \<equiv> br_stream (\<lambda>rc. part_rest f (fst rc))"

lemma readIndex_loop_ok:
  assumes "footer_ok K br" "footer_stream br = footer_body L rs" "index_holds (wl_tree L) ok m f c0" "0 \<le> end" "ends_at c0 (nat end)"
    and "\<forall>mr\<in>set rs. run_placed f c mr"
  shows "\<exists>br' m' end'. readIndex_loop L br m end = Some (br', m', end', None) \<and> footer_ok K br' \<and> footer_stream br' = [] \<and>
    index_holds (wl_tree L) ok m' f (overlay_runs c rs c0) \<and> 0 \<le> end' \<and> ends_at (overlay_runs c rs c0) (nat end')"
  using assms
proof (induction rs arbitrary: br m c0 "end")
  case Nil
  note rr = part.tee [of K]
  obtain br' x where "ReadUvarint (tee_Read SectionReader_Read) br = Some (br', x, Some EOF)" "footer_ok K br'" "footer_stream br' = []"
    using reliable_reader.ReadUvarint_end [OF rr Nil(1)] Nil(2) by (auto simp: footer_body_def)
  then have "readIndex_loop L br m end = Some (br', m, end, None)" by (subst readIndex_loop.simps) simp
  with Nil \<open>footer_ok K br'\<close> \<open>footer_stream br' = []\<close> show ?case by (simp add: overlay_runs_def)
next
  case (Cons mr rs)
  note rr = part.tee [of K]
  have mr: "run_placed f c mr" using Cons.prems(6) by simp
  obtain b where b: "proto_Unmarshal (wl_entry L) b = Inr (footer_entry mr)" "length b \<le> readBufSize" "footer_bytes L mr = put_uvarint (length b) @ b"
    by (rule entry_codec [OF run_placed_wf [OF mr file_size]])
  have st: "footer_stream br = put_uvarint (length b) @ (b @ footer_body L rs)" using Cons.prems(2) b(3) by (simp add: footer_body_def)
  have small: "length b < 2 ^ 63" using b(2) by (simp add: readBufSize_def)
  obtain br1 where br1: "ReadUvarint (tee_Read SectionReader_Read) br = Some (br1, length b, None)" "footer_ok K br1"
    "footer_stream br1 = b @ footer_body L rs" by (rule reliable_reader.ReadUvarint_ok [OF rr Cons.prems(1) st small])
  obtain br2 br3 n where br3: "br_Peek (tee_Read SectionReader_Read) br1 (length b) = Some (br2, b, None)"
    "br_Discard (tee_Read SectionReader_Read) br2 (length b) = Some (br3, n, None)" "footer_ok K br3" "footer_stream br3 = footer_body L rs"
    by (rule reliable_reader.peek_take [OF rr br1(2,3) b(2)])
  from add_index_entry_ok [OF Cons.prems(3-5) mr b(1)] obtain m1 end1 where
    m1: "add_index_entry L b m end = Some (m1, end1, None)" "index_holds (wl_tree L) ok m1 f (overlay c0 (Offset mr) (run_bytes c mr))"
      "0 \<le> end1" "ends_at (overlay c0 (Offset mr) (run_bytes c mr)) (nat end1)" by blast
  have i: "int64 (length b) = int (length b)" using small by (simp add: int64_id)
  have ev: "readIndex_loop L br m end = readIndex_loop L br3 m1 end1"
    using br1(1) br3(1,2) m1(1) i by (subst readIndex_loop.simps) simp
  have "\<forall>mr\<in>set rs. run_placed f c mr" using Cons.prems(6) by simp
  from Cons.IH [OF br3(3,4) m1(2-4) this] show ?case unfolding ev by (simp add: overlay_runs_def)
qed

lemma readIndex_ok:
  assumes f: "f = X @ footer_body L rs @ le_bytes 4 (length (footer_body L rs)) @ le_bytes 4 (unat (crc32_Update 0 (footer_body L rs))) @ FooterMagic"
    and small: "length (footer_body L rs) < 2 ^ 32" and placed: "\<forall>mr\<in>set rs. run_placed f c mr"
  shows "\<exists>m end. readIndex L R (int (length f)) = Some (m, end, None) \<and>
    index_holds (wl_tree L) ok m f (overlay_runs c rs Map.empty) \<and> 0 \<le> end \<and> ends_at (overlay_runs c rs Map.empty) (nat end)"
proof -
  let ?B = "footer_body L rs"
  define K where "K = crc32_Update 0 ?B"
  define E where "E = le_bytes 4 (length ?B) @ le_bytes 4 (unat K) @ FooterMagic"
  have E: "length E = 16" "drop 8 E = FooterMagic" "le_nat (take 4 E) = length ?B" "le_nat (take 4 (drop 4 E)) = unat K"
    using small unsigned_less [of K, where 'a = nat] by (simp_all add: E_def FooterMagic_def le_nat_le_bytes)
  have fE: "f = X @ ?B @ E" using f by (simp add: E_def K_def)
  let ?k = "length X" and ?n = "length ?B"
  have len: "length f = ?k + ?n + 16" using fE E(1) by simp
  have s1: "s64 (int (length f) - 16) = int (?k + ?n)" using file_size len by (intro trans [OF s64_id]) simp_all
  have s2: "s64 (int (?k + ?n) - int ?n) = int ?k" using file_size len by (intro trans [OF s64_id]) simp_all
  have rd: "R (replicate 16 0) (int (?k + ?n)) = Some (E, 16, None)"
    using read_exact [of "?k + ?n" "replicate 16 0"] len E(1) fE by simp
  let ?s = "NewSectionReader R (int ?k) (int ?n)"
  have s: "sec_r ?s = R" "sec_off ?s = int ?k" "sec_limit ?s = int (?k + ?n)" using file_size len by (simp_all add: NewSectionReader_def)
  have rest: "part_rest f ?s = ?B" using s fE by (simp add: part_rest_def)
  have "part_valid R f ?s" using s len by (simp add: part_valid_def)
  then have tv: "tee_valid (part_rest f) (part_valid R f) K (?s, 0)" using rest by (simp add: tee_valid_def K_def)
  let ?b = "bufio_NewReaderSize (?s, 0) readBufSize :: footer_reader"
  have ok: "footer_ok K ?b" using br_new(1) [of "tee_valid (part_rest f) (part_valid R f) K" "(?s, 0)" "\<lambda>rc. part_rest f (fst rc)" readBufSize] tv
    by (simp only: bufsize(3))
  have st: "footer_stream ?b = ?B" using rest by (simp add: br_new)
  have m0: "index_holds (wl_tree L) ok (ExtentRangeMap_empty (wl_tree L)) f Map.empty" by (simp add: index_holds_def empty_extent)
  have e0: "ends_at (Map.empty :: nat \<rightharpoonup> byte) (nat 0)" by (simp add: ends_at_def)
  from readIndex_loop_ok [OF ok st m0 order_refl e0 placed] obtain br m end' where
    r: "readIndex_loop L ?b (ExtentRangeMap_empty (wl_tree L)) 0 = Some (br, m, end', None)" "footer_ok K br" "footer_stream br = []"
      "index_holds (wl_tree L) ok m f (overlay_runs c rs Map.empty)" "0 \<le> end'" "ends_at (overlay_runs c rs Map.empty) (nat end')" by blast
  have "snd (br_rd br) = K" using r(2,3) by (simp add: br_ok_def br_stream_def tee_valid_def)
  then have "readIndex L R (int (length f)) = Some (m, end', None)"
    unfolding readIndex_def s1 using rd E s2 r(1) by (simp add: Let_def del: of_nat_add)
  with r(4-6) show ?thesis by blast
qed

text \<open>Opening a closed log by its footer.\<close>

lemma NewReader_footer:
  assumes f: "f = log_image L ops @ footer_image L rs" and small: "length f < 2 ^ 32"
    and m: "index_holds (wl_tree L) ok m f c" and rs: "is_runs (extent_abs (wl_tree L) m) 0 rs"
    and nz: "\<forall>k lr. extent_abs (wl_tree L) m k = Some lr \<longrightarrow> \<not> lr_zero lr"
  shows "\<exists>r. wal_NewReader L R (int (length f)) = Some (r, None) \<and> log_loaded L ok f c r"
proof -
  have placed: "\<forall>mr\<in>set rs. run_placed f c mr" using runs_placed [OF m rs _ nz file_size] by blast
  have sep: "separate (set rs)" using rs by (auto simp: is_runs_def intro: sorted_separate)
  have cov: "cover rs k = extent_abs (wl_tree L) m k" for k using rs by (simp add: is_runs_def)
  have in_runs: "(\<exists>mr\<in>set rs. inside k mr) \<longleftrightarrow> c k \<noteq> None" for k
  proof -
    have "(\<exists>mr\<in>set rs. inside k mr) \<longleftrightarrow> cover rs k \<noteq> None" using cover_Some [OF sep] by fastforce
    moreover have "extent_abs (wl_tree L) m k = None \<longleftrightarrow> c k = None" using m by (simp only: index_holds_def)
    ultimately show ?thesis unfolding cov by (simp only:)
  qed
  have all: "overlay_runs c rs Map.empty = c"
  proof
    fix k
    have "overlay_runs c rs Map.empty k = (if \<exists>mr\<in>set rs. inside k mr \<and> c k \<noteq> None then c k else None)"
      by (rule overlay_runs_at) (use in_runs in blast)
    then show "overlay_runs c rs Map.empty k = c k" using in_runs [of k] by auto
  qed
  have "f = log_start L @ (concat (map op_bytes ops) @ footer_image L rs)" using f by (simp add: log_image_def)
  from NewReader_header [OF this] obtain b where
    b: "readHeader (wl_header L) SimpleReaderAtReader_Read (bufio_NewReaderSize (NewSimpleReaderAtReader R 0) readBufSize) no_header =
      Some (b, wal_header, length (log_start L), None)" by blast
  have X: "f = (log_image L ops @ entry_bytes entryTypeFooter 0 0 []) @ footer_body L rs @
      le_bytes 4 (length (footer_body L rs)) @ le_bytes 4 (unat (crc32_Update 0 (footer_body L rs))) @ FooterMagic"
    using f by (simp add: footer_image_def)
  have "length (footer_body L rs) \<le> length f" by (subst X) simp
  then have "length (footer_body L rs) < 2 ^ 32" using small by linarith
  from readIndex_ok [OF X this placed] obtain m' end' where
    r: "readIndex L R (int (length f)) = Some (m', end', None)" "index_holds (wl_tree L) ok m' f c" "0 \<le> end'" "ends_at c (nat end')"
    unfolding all by blast
  have "0 < length f" unfolding f by (simp add: footer_image_def entry_bytes_def)
  then have "wal_NewReader L R (int (length f)) = Some (new_reader\<lparr>wr_index := m', wr_end := end'\<rparr>, None)"
    using b r(1) by (simp add: wal_NewReader_def Let_def)
  with r(2-4) show ?thesis by (simp add: log_loaded_def)
qed

end

end
