(* ===== verification/Wal_Crc.thy ===== *)
theory Wal_Crc
  imports Wal_Footer
begin

text \<open>The checksum of \<open>hash/crc32\<close> tells apart any two messages that differ in one byte.\<close>

lemma xor_inj: "a XOR x = b XOR x \<Longrightarrow> a = b" for a b x :: "32 word"
proof -
  assume "a XOR x = b XOR x"
  then have "(a XOR x) XOR x = (b XOR x) XOR x" by simp
  then show ?thesis by (simp only: xor.assoc xor_self_eq xor.right_neutral)
qed

lemma crc32_bit_inj: "crc32_bit c = crc32_bit d \<Longrightarrow> c = d"
proof -
  assume eq: "crc32_bit c = crc32_bit d"
  have top: "bit (crc32_bit x) 31 \<longleftrightarrow> bit x 0" for x
  proof -
    have "bit (0xEDB88320 :: 32 word) 31" by simp
    moreover have "\<not> bit (drop_bit 1 x) 31" using bit_imp_le_length [of x 32] by (auto simp: bit_drop_bit_eq)
    ultimately show ?thesis by (simp add: crc32_bit_def bit_xor_iff)
  qed
  have b0: "bit c 0 \<longleftrightarrow> bit d 0" using top [of c] top [of d] eq by simp
  have "drop_bit 1 c = drop_bit 1 d"
  proof (cases "bit c 0")
    case True
    with b0 eq have "drop_bit 1 c XOR 0xEDB88320 = drop_bit 1 d XOR 0xEDB88320" by (simp add: crc32_bit_def)
    then show ?thesis by (rule xor_inj)
  next
    case False
    with b0 eq show ?thesis by (simp add: crc32_bit_def)
  qed
  then have "bit c (Suc n) \<longleftrightarrow> bit d (Suc n)" for n by (metis bit_drop_bit_eq comp_apply plus_1_eq_Suc)
  then have "bit c n \<longleftrightarrow> bit d n" for n using b0 by (cases n) auto
  then show "c = d" by (intro bit_eqI) blast
qed

lemma crc32_bits_inj: "(crc32_bit ^^ n) c = (crc32_bit ^^ n) d \<Longrightarrow> c = d"
  by (induction n) (auto dest: crc32_bit_inj)

lemma crc32_byte_inj: "crc32_byte b c = crc32_byte b d \<Longrightarrow> c = d"
  by (auto simp: crc32_byte_def dest!: crc32_bits_inj xor_inj)

lemma crc32_byte_inj_byte: "crc32_byte a c = crc32_byte b c \<Longrightarrow> a = b"
proof -
  assume "crc32_byte a c = crc32_byte b c"
  then have "c XOR ucast a = c XOR ucast b" by (auto simp: crc32_byte_def dest: crc32_bits_inj)
  then have "(ucast a :: 32 word) = ucast b" using xor_inj [of "ucast a" c "ucast b"] by (simp add: xor.commute)
  then have "unat (ucast a :: 32 word) = unat (ucast b :: 32 word)" by simp
  moreover have "unat (ucast x :: 32 word) = unat x" for x :: byte
    using byte_less [of x] by (simp add: unsigned_ucast_eq take_bit_eq_mod)
  ultimately have "unat a = unat b" by simp
  then show "a = b" by (rule unsigned_word_eqI)
qed

lemma crc32_fold_inj: "fold crc32_byte p c = fold crc32_byte p d \<Longrightarrow> c = d"
  by (induction p arbitrary: c d) (auto dest: crc32_byte_inj)

lemma crc32_byte_damage:
  assumes "i < length p" "b \<noteq> p ! i"
  shows "crc32_Update c (h @ p [i := b]) \<noteq> crc32_Update c (h @ p)"
proof
  assume eq: "crc32_Update c (h @ p [i := b]) = crc32_Update c (h @ p)"
  let ?s = "fold crc32_byte (h @ take i p) (NOT c)"
  have p: "p = take i p @ p ! i # drop (Suc i) p" "p [i := b] = take i p @ b # drop (Suc i) p"
    using assms(1) by (simp_all add: id_take_nth_drop upd_conv_take_nth_drop)
  have "fold crc32_byte (h @ p [i := b]) (NOT c) = fold crc32_byte (h @ p) (NOT c)"
    using eq by (simp add: crc32_Update_def)
  then have "fold crc32_byte (drop (Suc i) p) (crc32_byte b ?s) = fold crc32_byte (drop (Suc i) p) (crc32_byte (p ! i) ?s)"
    by (subst (asm) p(2), subst (asm) (2) p(1)) simp
  then have "crc32_byte b ?s = crc32_byte (p ! i) ?s" by (rule crc32_fold_inj)
  with assms(2) show False by (auto dest: crc32_byte_inj_byte)
qed

end
