(* ===== verification/Wal_Properties.thy ===== *)
theory Wal_Properties
  imports Wal_Crc
begin

text \<open>
  The properties of the write-ahead log, from the first write to opening the file again, and an instance in memory.
\<close>

section \<open>Writer and reader together\<close>

context wal_sink
begin

lemma recovery:
  "exact_reader_at R f \<Longrightarrow> length (log_start L) \<le> readBufSize \<Longrightarrow> length f \<le> max_off \<Longrightarrow> wal_recovery L ok R f"
  by (intro wal_recovery.intro wal_recovery_axioms.intro extent_tree_axioms proto_message_axioms)

text \<open>Everything a new log goes through, up to the state after the operations.\<close>

lemma run_new:
  assumes "written lf = []" "\<forall>op\<in>set ops. op_fits op" "length (log_image L ops) \<le> max_off"
  obtains w e where "wal_run L (wal_NewWriter L lf) ops = Some (w, e)" "sink_live L \<longrightarrow> e = None"
    "e = None \<longrightarrow> wal_inv L written ok w ops \<and> \<not> ww_nil w \<and> (ops \<noteq> [] \<longrightarrow> ww_headerOnce w)"
  using run_ok [of "wal_NewWriter L lf" "[]" ops] new_writer [OF assms(1)] assms(2,3) by auto

end

context wal_closer
begin

lemma closable:
  assumes inv: "wal_inv L written ok w ops" "ww_headerOnce w" and ops: "writes_only ops"
  shows "is_runs (extent_abs (wl_tree L) (ww_index w)) 0 (index_runs w)"
    "\<forall>mr\<in>set (index_runs w). run_placed (log_image L ops) (log_content ops) mr \<and> index_entry_wf (footer_entry mr)"
    "\<forall>k lr. extent_abs (wl_tree L) (ww_index w) k = Some lr \<longrightarrow> \<not> lr_zero lr"
    "index_holds (wl_tree L) ok (ww_index w) (log_image L ops) (log_content ops)"
proof -
  have size: "length (log_image L ops) \<le> max_off" using inv by (auto simp: wal_inv_def)
  show m: "index_holds (wl_tree L) ok (ww_index w) (log_image L ops) (log_content ops)"
    and nz: "\<forall>k lr. extent_abs (wl_tree L) (ww_index w) k = Some lr \<longrightarrow> \<not> lr_zero lr"
    using inv ops by (auto simp: wal_inv_def)
  have "extent_inv (wl_tree L) ok (ww_index w)" using m by (simp add: index_holds_def)
  from extent_tree.runs_extent [OF extent_tree_axioms this]
  show rs: "is_runs (extent_abs (wl_tree L) (ww_index w)) 0 (index_runs w)" by simp
  from runs_placed [OF m rs _ nz size] run_placed_wf [OF _ size]
  show "\<forall>mr\<in>set (index_runs w). run_placed (log_image L ops) (log_content ops) mr \<and> index_entry_wf (footer_entry mr)" by blast
qed

lemma close_reopen:
  assumes inv: "wal_inv L written ok w ops" "ww_headerOnce w" "\<not> ww_nil w" and ops: "writes_only ops"
    and small: "length (log_start L) \<le> readBufSize"
  shows "\<exists>w' e. CloseWriter L w = Some (w', e) \<and> (sink_live L \<longrightarrow> e = None) \<and>
    (\<forall>R. e = None \<longrightarrow> exact_reader_at R (written (ww_w w')) \<longrightarrow> length (written (ww_w w')) < 2 ^ 32 \<longrightarrow>
      (\<exists>r. wal_NewReader L R (int (length (written (ww_w w')))) = Some (r, None) \<and>
        hole_reader_at (wal_Reader_reader L R r) (log_content ops) \<and> ends_at (log_content ops) (nat (wal_Reader_Size r))))"
proof -
  note cl = closable [OF inv(1,2) ops]
  from CloseWriter_ok [OF inv] cl(2) obtain w' e where w': "CloseWriter L w = Some (w', e)" "sink_live L \<longrightarrow> e = None"
    "e = None \<longrightarrow> written (ww_w w') = log_image L ops @ footer_image L (index_runs w)" by blast
  have "\<exists>r. wal_NewReader L R (int (length (written (ww_w w')))) = Some (r, None) \<and>
        hole_reader_at (wal_Reader_reader L R r) (log_content ops) \<and> ends_at (log_content ops) (nat (wal_Reader_Size r))"
    if e: "e = None" and R: "exact_reader_at R (written (ww_w w'))" and sz: "length (written (ww_w w')) < 2 ^ 32" for R
  proof -
    let ?f = "written (ww_w w')"
    have f: "?f = log_image L ops @ footer_image L (index_runs w)" using w'(3) e by blast
    have "index_holds (wl_tree L) ok (ww_index w) ?f (log_content ops)"
      using cl(4) record_holds_append [of "log_image L ops"] unfolding f index_holds_def by blast
    moreover have rec: "wal_recovery L ok R ?f" using recovery [OF R small] sz by simp
    then have "wal_reopen L ok R ?f" by (intro wal_reopen.intro wal_entries_axioms)
    ultimately obtain r where r: "wal_NewReader L R (int (length ?f)) = Some (r, None)" "log_loaded L ok ?f (log_content ops) r"
      using wal_reopen.NewReader_footer [OF _ f sz _ cl(1,3)] by blast
    from wal_recovery.loaded_serves [OF rec r(2)] r(1) show ?thesis by blast
  qed
  with w'(1,2) show ?thesis by (intro exI [of _ w'] exI [of _ e]) simp
qed

end

context wal_recovery
begin

lemma scan_damaged:
  assumes "op_fits (WriteOp off p)" "i < length p" "v \<noteq> p ! i" "scanning b"
    and "br_stream (simple_rest f) b = take 16 (op_bytes (WriteOp off p)) @ p [i := v] @ t"
  shows "scan b r j = Some (r, Some ErrCorruptedLog)"
proof -
  have n: "length p \<le> MaxWriteSize" "off < 2 ^ 63" using assms(1) by auto
  let ?rest = "entry_rest entryTypeData (int off) (int (length p))"
  define ck where "ck = unat (crc32_Update 0 (?rest @ p))"
  have ck: "ck < 2 ^ 32" using unsigned_less [of "crc32_Update 0 (?rest @ p)"] by (simp add: ck_def)
  have st: "br_stream (simple_rest f) b = le_bytes 4 ck @ ?rest @ (p [i := v] @ t)"
    using assms(5) by (simp add: entry_bytes_def ck_def length_entry_rest)
  have "crc32_Update 0 (?rest @ p [i := v]) \<noteq> crc32_Update 0 (?rest @ p)" by (rule crc32_byte_damage [OF assms(2,3)])
  then have "unat (crc32_Update 0 (?rest @ p [i := v])) \<noteq> ck" unfolding ck_def by (meson unsigned_word_eqI)
  then show ?thesis using simple.load_data(2) [OF assms(4) bufsize(1) n ck st, of L r "int j"] by simp
qed

end

section \<open>An instance\<close>

text \<open>Codecs that write each field as eight bytes, a log file in memory and the list tree.\<close>

definition wal_header_codec :: "wal_Header proto_ops" where
  "wal_header_codec = \<lparr>
     proto_Marshal = (\<lambda>h. Inr (concat (map (le_bytes 8) [wh_Version h, wh_BlockSize h, wh_Align h, wh_ChecksumType h]))),
     proto_Unmarshal = (\<lambda>b. let f = (\<lambda>i. le_nat (take 8 (drop (8 * i) b)))
       in if length b \<noteq> 32 then Inl (Err ''unmarshal'')
          else Inr \<lparr>wh_Version = f 0, wh_BlockSize = f 1, wh_Align = f 2, wh_ChecksumType = f 3\<rparr>)\<rparr>"

definition index_entry_codec :: "IndexEntry proto_sized_ops" where
  "index_entry_codec = \<lparr>
     proto_Marshal = (\<lambda>e. Inr (concat (map (le_bytes 8) [ix_Type e, ix_Offset e, ix_Length e, ix_LogOffset e]))),
     proto_Unmarshal = (\<lambda>b. let f = (\<lambda>i. le_nat (take 8 (drop (8 * i) b)))
       in if length b \<noteq> 32 then Inl (Err ''unmarshal'')
          else Inr \<lparr>ix_Type = f 0, ix_Offset = f 1, ix_Length = f 2, ix_LogOffset = f 3\<rparr>),
     proto_Size = (\<lambda>e. 32)\<rparr>"

definition mem_wal :: "(bytes, logRecord RangeValue list) wal_lib" where
  "mem_wal = \<lparr>wl_header = wal_header_codec, wl_entry = index_entry_codec,
     wl_WriteMany = write_all (\<lambda>w p. Some (mem_Write w p)), wl_Write = mem_Write, wl_rf = None, wl_tree = list_tree Range_Key\<rparr>"

lemma mem_wal_simps [simp]: "wl_header mem_wal = wal_header_codec" "wl_entry mem_wal = index_entry_codec"
  "wl_WriteMany mem_wal = write_all (\<lambda>w p. Some (mem_Write w p))" "wl_Write mem_wal = mem_Write" "wl_rf mem_wal = None"
  "wl_tree mem_wal = list_tree Range_Key"
  by (simp_all add: mem_wal_def)

interpretation wal_header_codec: proto_message wal_header_codec wal_header_wf
  by unfold_locales (simp add: wal_header_codec_def wal_header_wf_def le_nat_le_bytes)

interpretation index_entry_codec: proto_sized index_entry_codec index_entry_wf
  by unfold_locales (auto simp: index_entry_codec_def index_entry_wf_def le_nat_le_bytes)

lemma index_entry_size: "proto_Size index_entry_codec e = 32"
  by (simp add: index_entry_codec_def)

interpretation mem_log: wal_closer mem_wal id "list_tree_ok Range_Key" zero for zero
proof (intro wal_closer.intro wal_sink.intro wal_entries.intro wal_entries_axioms.intro io_copy.intro io_copy_axioms.intro)
  show "io_reader logEntry_Read log_entry_rest log_entry_ok" by (rule log_entry.io_reader_axioms)
qed (simp_all add: mem_file.io_writer_axioms wal_header_codec.proto_message_axioms write_all.write_many_axioms
    list_extents.extent_tree_axioms index_entry_codec.proto_sized_axioms index_entry_size readBufSize_def)

lemma mem_live: "sink_live mem_wal"
  by (simp add: sink_live_def mem_Write_live)

lemma mem_small: "length (log_start mem_wal) \<le> readBufSize" "length (log_start mem_wal) = 44"
  by (simp_all add: log_start_def wal_header_codec_def HeaderMagic_def readBufSize_def)

interpretation mem_reopen: wal_reopen mem_wal "list_tree_ok Range_Key" zero "file_ReadAt (log_start mem_wal)" "log_start mem_wal" for zero
  by (intro wal_reopen.intro mem_log.recovery mem_log.wal_entries_axioms os_file.exact_reader_at_axioms) (simp_all add: mem_small readBufSize_def)

lemma mem_log_size: "length (log_image mem_wal [WriteOp 3 [7, 8]]) = 62"
  using mem_small(2) by (simp add: log_image_def entry_bytes_def length_entry_rest)

lemma wal_sink_closer: "wal_closer L written ok \<Longrightarrow> wal_sink L written ok"
  by (rule wal_closer.axioms)

section \<open>Properties\<close>

text \<open>C4. A log serves what was written to it. Any sequence of writes and trims on a new log returns without a panic, and with
  nil when the writes to the file do not fail. After it the file holds the header and the entries in order, the log
  reads, data and holes, as the operations applied in order to an empty device, with trimmed ranges as zeros, and
  \<open>Size\<close> is the end of that content.\<close>

theorem wal_log_serves:
  assumes "wal_sink L written ok" "written lf = []" "\<forall>op\<in>set ops. op_fits op" "length (log_image L ops) \<le> max_off"
  shows "\<exists>w e. wal_run L (NewReadableLog L lf) ops = Some (w, e) \<and> (sink_live L \<longrightarrow> e = None) \<and>
    (e = None \<longrightarrow> (ops \<noteq> [] \<longrightarrow> written (ww_w w) = log_image L ops) \<and> Written w = int (length (written (ww_w w))) \<and>
      ends_at (log_content ops) (nat (wal_Size w)) \<and>
      (\<forall>at. exact_reader_at (at (ww_w w)) (written (ww_w w)) \<longrightarrow> hole_reader_at (ReadableLog_reader L at w) (log_content ops)))"
proof -
  obtain w e where w: "wal_run L (wal_NewWriter L lf) ops = Some (w, e)" "sink_live L \<longrightarrow> e = None"
    "e = None \<longrightarrow> wal_inv L written ok w ops \<and> \<not> ww_nil w \<and> (ops \<noteq> [] \<longrightarrow> ww_headerOnce w)"
    by (rule wal_sink.run_new [OF assms])
  have "hole_reader_at (ReadableLog_reader L at w) (log_content ops)"
    if "e = None" "exact_reader_at (at (ww_w w)) (written (ww_w w))" for at
  proof -
    have "wal_inv L written ok w ops" using w(3) that(1) by blast
    from wal_sink.log_serves [where at = at, OF assms(1) this that(2)] show ?thesis
      unfolding wal_sink.ReadableLog_index [OF assms(1)] by (rule log_index.index_serves)
  qed
  with w show ?thesis by (auto simp: NewReadableLog_def Written_def LogSize_def wal_Size_def wal_inv_def)
qed

theorem wal_log_serves_witness:
  "\<exists>w. wal_run mem_wal (NewReadableLog mem_wal []) [WriteOp 3 [7, 8]] = Some (w, None) \<and>
    hole_reader_at (ReadableLog_reader mem_wal file_ReadAt w) (log_content [WriteOp 3 [7, 8]])"
proof -
  have "\<forall>op\<in>set [WriteOp 3 [7, 8]]. op_fits op" by (simp add: MaxWriteSize_def)
  from wal_log_serves [OF mem_log.wal_sink_axioms id_apply this] mem_live mem_log_size os_file.exact_reader_at_axioms
  show ?thesis by fastforce
qed

text \<open>C6. A log that was not closed is recovered by scanning it. \<open>NewReader\<close> over the file that a run of writes left returns
  nil and a reader that reads, data and holes, as the log did, with the same \<open>Size\<close>.\<close>

theorem wal_reopen_scan:
  assumes "wal_sink L written ok" "written lf = []" "\<forall>op\<in>set ops. op_fits op" "writes_only ops" "ops \<noteq> []"
    and "length (log_image L ops) \<le> max_off" "length (log_start L) \<le> readBufSize"
  shows "\<exists>w e. wal_run L (wal_NewWriter L lf) ops = Some (w, e) \<and> (sink_live L \<longrightarrow> e = None) \<and>
    (e = None \<longrightarrow> (\<forall>R. exact_reader_at R (written (ww_w w)) \<longrightarrow>
      (\<exists>r. wal_NewReader L R 0 = Some (r, None) \<and> hole_reader_at (wal_Reader_reader L R r) (log_content ops) \<and>
        wal_Reader_Size r = wal_Size w)))"
proof -
  obtain w e where w: "wal_run L (wal_NewWriter L lf) ops = Some (w, e)" "sink_live L \<longrightarrow> e = None"
    "e = None \<longrightarrow> wal_inv L written ok w ops \<and> \<not> ww_nil w \<and> (ops \<noteq> [] \<longrightarrow> ww_headerOnce w)"
    by (rule wal_sink.run_new [OF assms(1-3,6)])
  have "\<exists>r. wal_NewReader L R 0 = Some (r, None) \<and> hole_reader_at (wal_Reader_reader L R r) (log_content ops) \<and> wal_Reader_Size r = wal_Size w"
    if e: "e = None" and R: "exact_reader_at R (written (ww_w w))" for R
  proof -
    have f: "written (ww_w w) = log_image L ops @ []" "0 \<le> wal_Size w" "ends_at (log_content ops) (nat (wal_Size w))"
      using w(3) e assms(5) by (auto simp: wal_inv_def wal_Size_def)
    then have rec: "wal_recovery L ok R (written (ww_w w))"
      using wal_sink.recovery [OF assms(1) R assms(7)] assms(6) by simp
    from wal_recovery.recover_tail [OF rec f(1) assms(3,4) wal_recovery.scan_end [OF rec]] f(2,3) show ?thesis
      using ends_at_unique by (metis int_nat_eq)
  qed
  with w(1,2) show ?thesis by (intro exI [of _ w] exI [of _ e]) simp
qed

theorem wal_reopen_scan_witness:
  "\<exists>w r. wal_run mem_wal (wal_NewWriter mem_wal []) [WriteOp 3 [7, 8]] = Some (w, None) \<and>
    wal_NewReader mem_wal (file_ReadAt (ww_w w)) 0 = Some (r, None) \<and>
    hole_reader_at (wal_Reader_reader mem_wal (file_ReadAt (ww_w w)) r) (log_content [WriteOp 3 [7, 8]])"
proof -
  have "\<forall>op\<in>set [WriteOp 3 [7, 8]]. op_fits op" "writes_only [WriteOp 3 [7, 8]]" "[WriteOp 3 [7, 8]] \<noteq> []"
    by (simp_all add: MaxWriteSize_def writes_only_def)
  from wal_reopen_scan [OF mem_log.wal_sink_axioms id_apply this _ mem_small(1)] mem_live mem_log_size os_file.exact_reader_at_axioms
  show ?thesis by fastforce
qed

text \<open>C7. A log that was closed is opened by its footer. After a run of writes and a \<open>CloseWriter\<close> that returns nil, as it does
  when the file does not fail, \<open>NewReader\<close> given the size of the file takes the index from the footer and serves the
  content that was written, for files below four gigabytes, the most the footer size can express.\<close>

theorem wal_close_reopen:
  assumes "wal_closer L written ok" "written lf = []" "\<forall>op\<in>set ops. op_fits op" "writes_only ops" "ops \<noteq> []"
    and "length (log_image L ops) \<le> max_off" "length (log_start L) \<le> readBufSize"
  shows "\<exists>w e. wal_run L (wal_NewWriter L lf) ops = Some (w, e) \<and> (sink_live L \<longrightarrow> e = None) \<and>
    (e = None \<longrightarrow> (\<exists>w' e'. CloseWriter L w = Some (w', e') \<and> (sink_live L \<longrightarrow> e' = None) \<and>
      (\<forall>R. e' = None \<longrightarrow> exact_reader_at R (written (ww_w w')) \<longrightarrow> length (written (ww_w w')) < 2 ^ 32 \<longrightarrow>
        (\<exists>r. wal_NewReader L R (int (length (written (ww_w w')))) = Some (r, None) \<and>
          hole_reader_at (wal_Reader_reader L R r) (log_content ops) \<and> ends_at (log_content ops) (nat (wal_Reader_Size r))))))"
proof -
  obtain w e where w: "wal_run L (wal_NewWriter L lf) ops = Some (w, e)" "sink_live L \<longrightarrow> e = None"
    "e = None \<longrightarrow> wal_inv L written ok w ops \<and> \<not> ww_nil w \<and> (ops \<noteq> [] \<longrightarrow> ww_headerOnce w)"
    by (rule wal_sink.run_new [OF wal_sink_closer [OF assms(1)] assms(2,3,6)])
  show ?thesis
  proof (cases "e = None")
    case True
    with w(3) assms(5) have inv: "wal_inv L written ok w ops" "ww_headerOnce w" "\<not> ww_nil w" by auto
    from wal_closer.close_reopen [OF assms(1) inv assms(4,7)] w(1,2) show ?thesis by (intro exI [of _ w] exI [of _ e]) simp
  qed (use w in auto)
qed

lemma runs_card:
  assumes "is_runs m start rs" "finite (dom m)"
  shows "length rs \<le> card (dom m)"
proof -
  have sep: "separate (set rs)" and st: "sorted_wrt (\<lambda>a b. rend a \<le> Offset b) rs" and len: "\<forall>r\<in>set rs. 0 < Length r"
    using assms(1) by (auto simp: is_runs_def intro: sorted_separate)
  have "Offset ` set rs \<subseteq> dom m"
  proof
    fix k assume "k \<in> Offset ` set rs"
    then obtain r where r: "r \<in> set rs" "k = Offset r" by blast
    with len have "cover rs k = Some (Value r)" using cover_Some [OF sep] by (auto simp: inside_def)
    then show "k \<in> dom m" using assms(1) by (auto simp: is_runs_def split: if_splits)
  qed
  moreover have "distinct (map Offset rs)" using st len
  proof (induction rs)
    case (Cons r rs)
    then show ?case by fastforce
  qed simp
  then have "card (Offset ` set rs) = length rs" using distinct_card [of "map Offset rs"] by simp
  ultimately show ?thesis using card_mono [OF assms(2)] by metis
qed

lemma mem_footer_size: "\<forall>mr\<in>set rs. index_entry_wf (footer_entry mr) \<Longrightarrow> length (footer_image mem_wal rs) = 24 + 33 * length rs"
proof -
  have "length (footer_bytes mem_wal mr) = 33" for mr
    by (simp add: footer_bytes_def index_entry_codec_def put_uvarint.simps [of 32])
  then have "length (footer_body mem_wal rs) = 33 * length rs" by (induction rs) (simp_all add: footer_body_def)
  then show ?thesis by (simp add: footer_image_def entry_bytes_def length_entry_rest FooterMagic_def
      entryTypeData_def entryTypeTrim_def entryTypeFooter_def)
qed

lemma mem_file_small:
  assumes "wal_run mem_wal (wal_NewWriter mem_wal []) [WriteOp 3 [7, 8]] = Some (w, None)" "CloseWriter mem_wal w = Some (w', None)"
  shows "length (ww_w w') < 2 ^ 32"
proof -
  let ?ops = "[WriteOp 3 [7, 8]]"
  have ops: "\<forall>op\<in>set ?ops. op_fits op" "writes_only ?ops" by (simp_all add: MaxWriteSize_def writes_only_def)
  from mem_log.run_new [of "[]" ?ops] ops(1) mem_log_size assms(1) have
    inv: "wal_inv mem_wal id (list_tree_ok Range_Key) w ?ops" "\<not> ww_nil w" "ww_headerOnce w" by fastforce+
  note cl = mem_log.closable [OF inv(1,3) ops(2)]
  have "dom (extent_abs (list_tree Range_Key) (ww_index w)) = dom (log_content ?ops)"
    using cl(4) by (auto simp: index_holds_def dom_def)
  also have "\<dots> \<subseteq> {3, 4}" by (auto simp: log_content_def overlay_def split: if_splits)
  finally have d: "dom (extent_abs (list_tree Range_Key) (ww_index w)) \<subseteq> {3, 4}" .
  then have "finite (dom (extent_abs (list_tree Range_Key) (ww_index w)))" by (rule finite_subset) simp
  with runs_card cl(1) card_mono [OF _ d] have "length (mem_log.index_runs w) \<le> 2" by fastforce
  moreover from mem_log.CloseWriter_ok [OF inv(1,3,2)] cl(2) assms(2) have
    "ww_w w' = log_image mem_wal ?ops @ footer_image mem_wal (mem_log.index_runs w)" by simp
  ultimately show ?thesis using mem_footer_size cl(2) mem_log_size by fastforce
qed

theorem wal_close_reopen_witness:
  "\<exists>w w' r. wal_run mem_wal (wal_NewWriter mem_wal []) [WriteOp 3 [7, 8]] = Some (w, None) \<and> CloseWriter mem_wal w = Some (w', None) \<and>
    wal_NewReader mem_wal (file_ReadAt (ww_w w')) (int (length (ww_w w'))) = Some (r, None) \<and>
    hole_reader_at (wal_Reader_reader mem_wal (file_ReadAt (ww_w w')) r) (log_content [WriteOp 3 [7, 8]])"
proof -
  have "\<forall>op\<in>set [WriteOp 3 [7, 8]]. op_fits op" "writes_only [WriteOp 3 [7, 8]]" "[WriteOp 3 [7, 8]] \<noteq> []"
    by (simp_all add: MaxWriteSize_def writes_only_def)
  from wal_close_reopen [OF mem_log.wal_closer_axioms id_apply this _ mem_small(1)] mem_live mem_log_size obtain w w' where
    w: "wal_run mem_wal (wal_NewWriter mem_wal []) [WriteOp 3 [7, 8]] = Some (w, None)" "CloseWriter mem_wal w = Some (w', None)"
      "\<forall>R. exact_reader_at R (ww_w w') \<longrightarrow> length (ww_w w') < 2 ^ 32 \<longrightarrow>
        (\<exists>r. wal_NewReader mem_wal R (int (length (ww_w w'))) = Some (r, None) \<and>
          hole_reader_at (wal_Reader_reader mem_wal R r) (log_content [WriteOp 3 [7, 8]]))" by fastforce
  from w mem_file_small [OF w(1,2)] os_file.exact_reader_at_axioms show ?thesis by blast
qed


lemma mem_recovery: "length f \<le> max_off \<Longrightarrow> wal_recovery mem_wal (list_tree_ok Range_Key) (file_ReadAt f) f"
  by (rule mem_log.recovery [OF os_file.exact_reader_at_axioms mem_small(1)])






end
