(* ===== verification/Bitmap_Range_Map.thy ===== *)
theory Bitmap_Range_Map
  imports Extent_Range_Map
begin

text \<open>
  \<open>internal/rangemap/bitmap_range_map.go\<close>: a range map kept as leaves of 256 values with a bitmap
  of the ones present, and two bit sets that index the non-empty and the full leaves. The bitmap
  operations \<open>B\<close> and the bit set operations \<open>S\<close> are parameters, \<open>zero\<close> is the zero value of the
  value type. The map field \<open>entries\<close> starts nil and is made on first use; a nil map reads as
  empty, so the model has the empty map for both.
\<close>

section \<open>Operations\<close>

record ('b, 'v) bitmapRangeMapLeaf =
  bm :: 'b
  items :: "'v list"

record ('b, 's, 'v) BitmapRangeMap =
  entries :: "nat \<rightharpoonup> ('b, 'v) bitmapRangeMapLeaf"
  fullLeafIndex :: 's
  partLeafIndex :: 's

definition leaf_empty :: "'b bitmap256_ops \<Rightarrow> ('b, 'v) bitmapRangeMapLeaf \<Rightarrow> bool" where
  "leaf_empty B l = bm_Empty B (bm l)"

definition leaf_full :: "'b bitmap256_ops \<Rightarrow> ('b, 'v) bitmapRangeMapLeaf \<Rightarrow> bool" where
  "leaf_full B l = bm_Full B (bm l)"

definition leaf_has :: "'b bitmap256_ops \<Rightarrow> ('b, 'v) bitmapRangeMapLeaf \<Rightarrow> nat \<Rightarrow> bool" where
  "leaf_has B l i = bm_Get B (bm l) (i mod 256)"

text \<open>The loop of \<open>insert\<close> over \<open>n\<close> indices from \<open>i\<close>; an index past the array is a panic.\<close>

fun leaf_insert :: "'b bitmap256_ops \<Rightarrow> ('b, 'v) bitmapRangeMapLeaf \<Rightarrow> nat \<Rightarrow> nat \<Rightarrow> 'v \<Rightarrow>
    ('b, 'v) bitmapRangeMapLeaf option" where
  "leaf_insert B l i 0 value = Some l"
| "leaf_insert B l i (Suc n) value =
     (if i < length (items l)
      then leaf_insert B (l\<lparr>items := (items l)[i := value], bm := bm_Set B (bm l) (i mod 256)\<rparr>)
        (Suc i) n value
      else None)"

definition NewBitmapRangeMap :: "'s bitset_ops \<Rightarrow> ('b, 's, 'v) BitmapRangeMap" where
  "NewBitmapRangeMap S =
     \<lparr>entries = Map.empty, fullLeafIndex = bs_zero S, partLeafIndex = bs_zero S\<rparr>"

definition getLeaf :: "('b, 's, 'v) BitmapRangeMap \<Rightarrow> nat \<Rightarrow> ('b, 'v) bitmapRangeMapLeaf option" where
  "getLeaf m leafIndex = entries m leafIndex"

definition getOrCreateLeaf :: "'b bitmap256_ops \<Rightarrow> 'v \<Rightarrow> ('b, 's, 'v) BitmapRangeMap \<Rightarrow> nat \<Rightarrow>
    ('b, 'v) bitmapRangeMapLeaf \<times> ('b, 's, 'v) BitmapRangeMap" where
  "getOrCreateLeaf B zero m leafIndex =
     (case entries m leafIndex of
        Some l \<Rightarrow> (l, m)
      | None \<Rightarrow> (let l = \<lparr>bm = bm_zero B, items = replicate 256 zero\<rparr>
                 in (l, m\<lparr>entries := (entries m)(leafIndex \<mapsto> l)\<rparr>)))"

definition BitmapRangeMap_Begin :: "'b bitmap256_ops \<Rightarrow> 's bitset_ops \<Rightarrow>
    ('b, 's, 'v) BitmapRangeMap \<Rightarrow> (nat \<times> bool) option" where
  "BitmapRangeMap_Begin B S m =
     (case bs_NextSet S (partLeafIndex m) 0 of
        (firstLeafIndex, False) \<Rightarrow> Some (0, False)
      | (firstLeafIndex, True) \<Rightarrow>
          (case getLeaf m firstLeafIndex of
             None \<Rightarrow> None
           | Some leaf \<Rightarrow>
               (let ffs = bm_FindFirstSet B (bm leaf)
                in if ffs < 256 then Some (u64 (ffs + push_bit 8 firstLeafIndex), True) else None)))"

text \<open>The two loops of \<open>End\<close> that count down: over the leaf index, and over the leaf.\<close>

fun last_index :: "(nat \<Rightarrow> bool) \<Rightarrow> nat \<Rightarrow> nat option" where
  "last_index P 0 = None"
| "last_index P (Suc n) = (if P n then Some n else last_index P n)"

definition BitmapRangeMap_End :: "'b bitmap256_ops \<Rightarrow> 's bitset_ops \<Rightarrow>
    ('b, 's, 'v) BitmapRangeMap \<Rightarrow> nat option" where
  "BitmapRangeMap_End B S m =
     (case last_index (bs_Test S (partLeafIndex m)) (bs_Len S (partLeafIndex m)) of
        None \<Rightarrow> Some 0
      | Some lastLeafIndex \<Rightarrow>
          (case getLeaf m lastLeafIndex of
             None \<Rightarrow> None
           | Some leaf \<Rightarrow> (case last_index (leaf_has B leaf) 256 of
               Some i \<Rightarrow> Some (u64 (i + push_bit 8 lastLeafIndex + 1))
             | None \<Rightarrow> None)))"

lemma and_255: "(n :: nat) AND 255 = n mod 256"
  using take_bit_eq_mask [of 8 n] by (simp add: take_bit_nat_def mask_eq_exp_minus_1)

lemma drop_8: "drop_bit 8 (n :: nat) = n div 256"
  by (simp add: drop_bit_eq_div)

lemma push_8: "push_bit 8 (n :: nat) = 256 * n"
  by (simp add: push_bit_eq_mult)

lemmas leaf_bits = and_255 drop_8 push_8

text \<open>The loop of \<open>Add\<close>. The leaf is a pointer into \<open>entries\<close>, so its update is written back.\<close>

function BitmapRangeMap_Add_loop :: "'b bitmap256_ops \<Rightarrow> 's bitset_ops \<Rightarrow> 'v \<Rightarrow>
    ('b, 's, 'v) BitmapRangeMap \<Rightarrow> nat \<Rightarrow> nat \<Rightarrow> 'v \<Rightarrow> ('b, 's, 'v) BitmapRangeMap option" where
  "BitmapRangeMap_Add_loop B S zero m offset end value =
     (if offset < end then
        let leafIndex = drop_bit 8 offset;
            (leaf, m) = getOrCreateLeaf B zero m leafIndex;
            leafCount = 256 - (offset AND 0xFF);
            leafCount = (if leafCount > end - offset then end - offset else leafCount);
            m = (if leaf_empty B leaf
                 then m\<lparr>partLeafIndex := bs_Set S (partLeafIndex m) leafIndex\<rparr> else m)
        in case leaf_insert B leaf (offset AND 0xFF) leafCount value of
             None \<Rightarrow> None
           | Some leaf \<Rightarrow>
               (let m = m\<lparr>entries := (entries m)(leafIndex \<mapsto> leaf)\<rparr>;
                    m = (if leaf_full B leaf
                         then m\<lparr>fullLeafIndex := bs_Set S (fullLeafIndex m) leafIndex\<rparr> else m)
                in BitmapRangeMap_Add_loop B S zero m (offset + leafCount) end value)
      else Some m)"
  by pat_completeness auto
termination
  by (relation "measure (\<lambda>(B, S, zero, m, offset, end, value). end - offset)") (auto simp: leaf_bits)

declare BitmapRangeMap_Add_loop.simps [simp del]

definition BitmapRangeMap_Add :: "'b bitmap256_ops \<Rightarrow> 's bitset_ops \<Rightarrow> 'v \<Rightarrow>
    ('b, 's, 'v) BitmapRangeMap \<Rightarrow> nat \<Rightarrow> nat \<Rightarrow> 'v \<Rightarrow> ('b, 's, 'v) BitmapRangeMap option" where
  "BitmapRangeMap_Add B S zero m offset len value =
     BitmapRangeMap_Add_loop B S zero m offset (u64 (offset + len)) value"

definition BitmapRangeMap_Get :: "'b bitmap256_ops \<Rightarrow> ('b, 's, 'v) BitmapRangeMap \<Rightarrow> nat \<Rightarrow> 'v option" where
  "BitmapRangeMap_Get B m offset =
     (case getLeaf m (drop_bit 8 offset) of
        None \<Rightarrow> None
      | Some leaf \<Rightarrow> if \<not> leaf_has B leaf (offset AND 0xFF) then None
                     else Some (items leaf ! (offset mod 256)))"

text \<open>\<open>off & ^uint64(0xFF)\<close> clears the low byte: \<open>push_bit 8 (drop_bit 8 off)\<close>.\<close>

definition BitmapRangeMap_NextKey :: "'b bitmap256_ops \<Rightarrow> 's bitset_ops \<Rightarrow>
    ('b, 's, 'v) BitmapRangeMap \<Rightarrow> nat \<Rightarrow> (nat \<times> bool) option" where
  "BitmapRangeMap_NextKey B S m off =
     (let inLeaf = (case getLeaf m (drop_bit 8 off) of
            None \<Rightarrow> None
          | Some leaf \<Rightarrow> (let next = bm_FindNextSet B (bm leaf) (off mod 256)
              in if next < 256 then Some (push_bit 8 (drop_bit 8 off) + next) else None))
      in case inLeaf of
        Some next \<Rightarrow> Some (next, True)
      | None \<Rightarrow>
          (case bs_NextSet S (partLeafIndex m) (drop_bit 8 off + 1) of
             (nextPartial, False) \<Rightarrow> Some (0, False)
           | (nextPartial, True) \<Rightarrow>
               (case entries m nextPartial of
                  None \<Rightarrow> None
                | Some leaf \<Rightarrow>
                    Some (u64 (u64 (push_bit 8 nextPartial) + bm_FindFirstSet B (bm leaf)), True))))"

definition BitmapRangeMap_NextEmpty :: "'b bitmap256_ops \<Rightarrow> 's bitset_ops \<Rightarrow>
    ('b, 's, 'v) BitmapRangeMap \<Rightarrow> nat \<Rightarrow> nat option" where
  "BitmapRangeMap_NextEmpty B S m off =
     (case getLeaf m (drop_bit 8 off) of
        None \<Rightarrow> Some off
      | Some leaf \<Rightarrow>
          (let next = bm_FindNextClear B (bm leaf) (off mod 256) in
           if next < 256 then Some (push_bit 8 (drop_bit 8 off) + next)
           else let clearStart = drop_bit 8 off + 1;
                    nextNonFull = (case bs_NextClear S (fullLeafIndex m) clearStart of
                        (n, True) \<Rightarrow> n
                      | (n, False) \<Rightarrow> if clearStart < bs_Len S (fullLeafIndex m)
                                      then bs_Len S (fullLeafIndex m) else clearStart);
                    nextOff = u64 (push_bit 8 nextNonFull)
                in case getLeaf m nextNonFull of
                     None \<Rightarrow> Some nextOff
                   | Some leaf \<Rightarrow> if leaf_full B leaf then None
                                  else Some (u64 (nextOff + bm_FindFirstClear B (bm leaf)))))"

text \<open>The inner loop of \<open>Iterate\<close> over the \<open>n\<close> remaining indices of a leaf from \<open>j\<close> on; the
  flag is False when the callback asked to stop.\<close>

fun Iterate_leaf :: "'b bitmap256_ops \<Rightarrow> ('b, 'v) bitmapRangeMapLeaf \<Rightarrow>
    ('v RangeValue \<Rightarrow> 's \<Rightarrow> 's \<times> bool) \<Rightarrow> nat \<Rightarrow> nat \<Rightarrow> nat \<Rightarrow> 'v RangeValue \<Rightarrow> 's \<Rightarrow>
    (nat \<times> 'v RangeValue \<times> 's) \<times> bool" where
  "Iterate_leaf B leaf iter 0 j off r s = ((off, r, s), True)"
| "Iterate_leaf B leaf iter (Suc n) j off r s =
     (if \<not> leaf_has B leaf j then Iterate_leaf B leaf iter n (Suc j) (u64 (off + 1)) r s
      else let v = items leaf ! j in
        if Value r = v \<and> u64 (Offset r + Length r) = off
        then Iterate_leaf B leaf iter n (Suc j) (u64 (off + 1)) (r\<lparr>Length := u64 (Length r + 1)\<rparr>) s
        else if Length r > 0 then
          (case iter r s of
             (s, False) \<Rightarrow> ((off, r\<lparr>Length := 0\<rparr>, s), False)
           | (s, True) \<Rightarrow> Iterate_leaf B leaf iter n (Suc j) (u64 (off + 1))
               \<lparr>Offset = off, Length = 1, Value = v\<rparr> s)
        else Iterate_leaf B leaf iter n (Suc j) (u64 (off + 1))
               \<lparr>Offset = off, Length = 1, Value = v\<rparr> s)"

partial_function (option) Iterate_loop :: "'b bitmap256_ops \<Rightarrow> 't bitset_ops \<Rightarrow>
    ('b, 't, 'v) BitmapRangeMap \<Rightarrow> ('v RangeValue \<Rightarrow> 's \<Rightarrow> 's \<times> bool) \<Rightarrow> nat \<Rightarrow> 'v RangeValue \<Rightarrow>
    's \<Rightarrow> 's option" where
  "Iterate_loop B S m iter off r s =
     (case getLeaf m (drop_bit 8 off) of
        None \<Rightarrow> do {
          (next, ok) \<leftarrow> BitmapRangeMap_NextKey B S m off;
          if \<not> ok then Some (if Length r > 0 then fst (iter r s) else s)
          else Iterate_loop B S m iter next r s }
      | Some leaf \<Rightarrow>
          (case Iterate_leaf B leaf iter (256 - (off AND 0xFF)) (off AND 0xFF) off r s of
             ((off, r, s), continue) \<Rightarrow>
               if continue then Iterate_loop B S m iter off r s else Some s))"

definition BitmapRangeMap_Iterate :: "'b bitmap256_ops \<Rightarrow> 't bitset_ops \<Rightarrow> 'v \<Rightarrow>
    ('b, 't, 'v) BitmapRangeMap \<Rightarrow> nat \<Rightarrow> ('v RangeValue \<Rightarrow> 's \<Rightarrow> 's \<times> bool) \<Rightarrow> 's \<Rightarrow> 's option" where
  "BitmapRangeMap_Iterate B S zero m start iter s =
     Iterate_loop B S m iter start \<lparr>Offset = 0, Length = 0, Value = zero\<rparr> s"

section \<open>What the map stands for\<close>

definition bitmap_abs :: "'b bitmap256_ops \<Rightarrow> ('b, 's, 'v) BitmapRangeMap \<Rightarrow> nat \<rightharpoonup> 'v" where
  "bitmap_abs B m k =
     (case entries m (k div 256) of
        None \<Rightarrow> None
      | Some leaf \<Rightarrow> if bm_Get B (bm leaf) (k mod 256) then Some (items leaf ! (k mod 256)) else None)"

definition bitmap_inv :: "'b bitmap256_ops \<Rightarrow> 's bitset_ops \<Rightarrow> ('b, 's, 'v) BitmapRangeMap \<Rightarrow> bool" where
  "bitmap_inv B S m \<longleftrightarrow>
     (\<forall>i leaf. entries m i = Some leaf \<longrightarrow>
        i < 2 ^ 55 \<and> length (items leaf) = 256 \<and> (\<exists>j<256. bm_Get B (bm leaf) j)) \<and>
     (\<forall>i. bs_Test S (partLeafIndex m) i \<longleftrightarrow> entries m i \<noteq> None) \<and>
     (\<forall>i. bs_Test S (fullLeafIndex m) i \<longleftrightarrow>
        (\<exists>leaf. entries m i = Some leaf \<and> (\<forall>j<256. bm_Get B (bm leaf) j))) \<and>
     bs_Len S (partLeafIndex m) \<le> 2 ^ 55 \<and> bs_Len S (fullLeafIndex m) \<le> 2 ^ 55"

definition bitmap_runs :: "'b bitmap256_ops \<Rightarrow> 's bitset_ops \<Rightarrow> 'v \<Rightarrow>
    ('b, 's, 'v) BitmapRangeMap \<Rightarrow> nat \<Rightarrow> 'v RangeValue list option" where
  "bitmap_runs B S zero m start =
     BitmapRangeMap_Iterate B S zero m start (\<lambda>r acc. (acc @ [r], True)) []"

lemma bitmap_abs_Some: "bitmap_abs B m k \<noteq> None \<longleftrightarrow>
  (\<exists>leaf. entries m (k div 256) = Some leaf \<and> bm_Get B (bm leaf) (k mod 256))"
  by (auto simp: bitmap_abs_def split: option.splits)

lemma same_leaf: "(k :: nat) \<le> j \<Longrightarrow> j div 256 = k div 256 \<Longrightarrow> k mod 256 \<le> j mod 256"
  by (metis add_le_cancel_left mult_div_mod_eq)

lemma next_leaf: "(k :: nat) \<le> j \<Longrightarrow> j div 256 \<noteq> k div 256 \<Longrightarrow> Suc (k div 256) \<le> j div 256"
  using div_le_mono [of k j 256] by linarith

lemma leaf_index: "n < 256 \<Longrightarrow> (256 * i + n) div 256 = i" "n < 256 \<Longrightarrow> (256 * i + n) mod 256 = (n :: nat)"
  by simp_all

lemma stays_in_leaf:
  fixes offset k :: nat
  assumes "offset \<le> k" "k < offset + n" "offset mod 256 + n \<le> 256"
  shows "k div 256 = offset div 256"
proof -
  define q where "q = offset div 256"
  define r where "r = offset mod 256"
  have e: "offset = 256 * q + r" "r < 256" by (simp_all add: q_def r_def)
  have "k div 256 = q"
    by (rule div_nat_eqI) (use assms e in \<open>simp_all add: r_def [symmetric]\<close>)
  then show ?thesis by (simp add: q_def)
qed

lemma first_in_exists:
  assumes "first_in P 0 hi n" "i < hi" "P i"
  shows "n < hi" "P n" "j < n \<Longrightarrow> \<not> P j"
proof -
  show lt: "n < hi" using assms unfolding first_in_def by (meson not_le order_less_le_trans zero_le)
  then show "P n" "j < n \<Longrightarrow> \<not> P j" using assms(1) unfolding first_in_def by auto
qed

locale bitmap_sets = bitmap256 B + bitset S
  for B :: "'b bitmap256_ops" and S :: "'s bitset_ops" +
  fixes zero :: 'v
begin

lemma bitmap_invD:
  assumes "bitmap_inv B S m"
  shows "entries m i = Some leaf \<Longrightarrow> i < 2 ^ 55"
    and "entries m i = Some leaf \<Longrightarrow> length (items leaf) = 256"
    and "entries m i = Some leaf \<Longrightarrow> \<exists>j<256. bm_Get B (bm leaf) j"
    and "bs_Test S (partLeafIndex m) i \<longleftrightarrow> entries m i \<noteq> None"
    and "bs_Test S (fullLeafIndex m) i \<longleftrightarrow>
        (\<exists>leaf. entries m i = Some leaf \<and> (\<forall>j<256. bm_Get B (bm leaf) j))"
    and "bs_Len S (partLeafIndex m) \<le> 2 ^ 55" "bs_Len S (fullLeafIndex m) \<le> 2 ^ 55"
  using assms unfolding bitmap_inv_def by blast+

lemma empty_bitmap: "bitmap_inv B S (NewBitmapRangeMap S)" "bitmap_abs B (NewBitmapRangeMap S) = Map.empty"
  by (simp_all add: bitmap_inv_def NewBitmapRangeMap_def bs_test_zero bs_len_zero bitmap_abs_def fun_eq_iff)

lemma bitmap_bounded:
  assumes "bitmap_inv B S m" "bitmap_abs B m k = Some v"
  shows "k < key_limit"
proof -
  from assms(2) obtain leaf where "entries m (k div 256) = Some leaf"
    by (auto simp: bitmap_abs_def split: option.splits)
  from bitmap_invD(1) [OF assms(1) this] show ?thesis by (simp add: div_less_iff_less_mult)
qed

lemma first_set_nonempty:
  assumes "bitmap_inv B S m" "entries m i = Some leaf"
  shows "bm_FindFirstSet B (bm leaf) < 256" "bm_Get B (bm leaf) (bm_FindFirstSet B (bm leaf))"
    and "j < bm_FindFirstSet B (bm leaf) \<Longrightarrow> \<not> bm_Get B (bm leaf) j"
proof -
  obtain i0 where "i0 < 256" "bm_Get B (bm leaf) i0" using bitmap_invD(3) [OF assms] by blast
  note first_in_exists [OF bm_first_set this]
  then show "bm_FindFirstSet B (bm leaf) < 256" "bm_Get B (bm leaf) (bm_FindFirstSet B (bm leaf))"
    and "j < bm_FindFirstSet B (bm leaf) \<Longrightarrow> \<not> bm_Get B (bm leaf) j" .
qed

lemma Get_bitmap: "BitmapRangeMap_Get B m k = bitmap_abs B m k"
  by (auto simp: BitmapRangeMap_Get_def bitmap_abs_def getLeaf_def leaf_has_def leaf_bits
      split: option.splits)

text \<open>The first key at or after an index, found from the leaf of \<open>k\<close> and the leaf index.\<close>

lemma first_in_leaf:
  assumes "entries m (k div 256) = Some leaf" "n = bm_FindNextSet B (bm leaf) (k mod 256)" "n < 256"
  shows "(LEAST j. k \<le> j \<and> bitmap_abs B m j \<noteq> None) = 256 * (k div 256) + n"
    and "k \<le> 256 * (k div 256) + n" "bitmap_abs B m (256 * (k div 256) + n) \<noteq> None"
proof -
  have f: "first_in (bm_Get B (bm leaf)) (k mod 256) 256 n"
    using bm_next_set [of "k mod 256"] assms(2) by simp
  from f assms(3) have n: "k mod 256 \<le> n" "bm_Get B (bm leaf) n"
    and none: "\<And>i. k mod 256 \<le> i \<Longrightarrow> i < n \<Longrightarrow> \<not> bm_Get B (bm leaf) i"
    unfolding first_in_def by auto
  show e1: "k \<le> 256 * (k div 256) + n" using n(1) mult_div_mod_eq [of 256 k] by linarith
  show e2: "bitmap_abs B m (256 * (k div 256) + n) \<noteq> None"
    unfolding bitmap_abs_Some using assms n by simp
  show "(LEAST j. k \<le> j \<and> bitmap_abs B m j \<noteq> None) = 256 * (k div 256) + n"
  proof (rule Least_from [where P = "\<lambda>j. bitmap_abs B m j \<noteq> None", OF e1 e2])
    fix j assume j: "k \<le> j" "j < 256 * (k div 256) + n"
    then have d: "j div 256 = k div 256"
      using assms(3) mult_div_mod_eq [of 256 k] by (intro div_nat_eqI) simp_all
    with j have "k mod 256 \<le> j mod 256" "j mod 256 < n"
      using same_leaf [of k j] mult_div_mod_eq [of 256 j] by linarith+
    from none [OF this] show "\<not> bitmap_abs B m j \<noteq> None"
      unfolding bitmap_abs_Some d using assms(1) by simp
  qed
qed


text \<open>No key of the leaf of \<open>k\<close> at or after \<open>k\<close>.\<close>

lemma none_in_leaf:
  assumes "case entries m (k div 256) of None \<Rightarrow> True
    | Some leaf \<Rightarrow> \<not> bm_FindNextSet B (bm leaf) (k mod 256) < 256"
    and "k \<le> j" "j div 256 = k div 256"
  shows "bitmap_abs B m j = None"
proof (cases "entries m (k div 256)")
  case (Some leaf)
  have "first_in (bm_Get B (bm leaf)) (k mod 256) 256 (bm_FindNextSet B (bm leaf) (k mod 256))"
    by (rule bm_next_set) simp
  with assms Some same_leaf [OF assms(2,3)] show ?thesis
    by (simp add: bitmap_abs_def first_in_def)
qed (simp add: bitmap_abs_def assms(3))

lemma first_in_later_leaf:
  assumes inv: "bitmap_inv B S m"
    and here: "\<forall>j\<ge>k. j div 256 = k div 256 \<longrightarrow> bitmap_abs B m j = None"
    and n: "bs_NextSet S (partLeafIndex m) (Suc (k div 256)) = (n, True)" "entries m n = Some leaf"
  shows "(LEAST j. k \<le> j \<and> bitmap_abs B m j \<noteq> None) = 256 * n + bm_FindFirstSet B (bm leaf)"
    and "k \<le> 256 * n + bm_FindFirstSet B (bm leaf)"
    and "bitmap_abs B m (256 * n + bm_FindFirstSet B (bm leaf)) \<noteq> None"
proof -
  let ?f = "bm_FindFirstSet B (bm leaf)"
  note f = first_set_nonempty [OF inv n(2)]
  have nx: "Suc (k div 256) \<le> n" "\<And>i. Suc (k div 256) \<le> i \<Longrightarrow> i < n \<Longrightarrow> entries m i = None"
    using NextSet_Some [OF n(1)] by (auto simp: bitmap_invD(4) [OF inv])
  show e1: "k \<le> 256 * n + ?f" using nx(1) mult_div_mod_eq [of 256 k] mod_less_divisor [of 256 k] by linarith
  show e2: "bitmap_abs B m (256 * n + ?f) \<noteq> None"
    unfolding bitmap_abs_Some using n(2) f(1,2) by simp
  show "(LEAST j. k \<le> j \<and> bitmap_abs B m j \<noteq> None) = 256 * n + ?f"
  proof (rule Least_from [where P = "\<lambda>j. bitmap_abs B m j \<noteq> None", OF e1 e2])
    fix j assume j: "k \<le> j" "j < 256 * n + ?f"
    have le: "j div 256 \<le> n" using j(2) f(1) by (intro less_Suc_eq_le [THEN iffD1] less_mult_imp_div_less) simp
    consider "j div 256 = k div 256" | "j div 256 \<noteq> k div 256" "j div 256 < n" | "j div 256 = n"
      using le by linarith
    then show "\<not> bitmap_abs B m j \<noteq> None"
    proof cases
      case 1
      with here j(1) show ?thesis by simp
    next
      case 2
      from nx(2) [OF next_leaf [OF j(1) 2(1)] 2(2)] show ?thesis by (simp add: bitmap_abs_def)
    next
      case 3
      then have "j mod 256 < ?f" using j(2) mult_div_mod_eq [of 256 j] by linarith
      from f(3) [OF this] 3 n(2) show ?thesis by (simp add: bitmap_abs_def)
    qed
  qed
qed

lemma no_later_leaf:
  assumes inv: "bitmap_inv B S m"
    and here: "\<forall>j\<ge>k. j div 256 = k div 256 \<longrightarrow> bitmap_abs B m j = None"
    and n: "bs_NextSet S (partLeafIndex m) (Suc (k div 256)) = (n, False)"
    and "k \<le> j"
  shows "bitmap_abs B m j = None"
proof (cases "j div 256 = k div 256")
  case False
  from NextSet_None [OF n next_leaf [OF assms(4) this]] show ?thesis
    by (simp add: bitmap_invD(4) [OF inv] bitmap_abs_def)
qed (use here assms(4) in simp)

lemma leaf_u64:
  assumes "bitmap_inv B S m" "entries m n = Some leaf"
  shows "u64 (256 * n) = 256 * n" and "f < 256 \<Longrightarrow> u64 (256 * n + f) = 256 * n + f"
  using bitmap_invD(1) [OF assms] by (simp_all add: u64_id)

lemma NextKey_bitmap:
  assumes "bitmap_inv B S m"
  shows "BitmapRangeMap_NextKey B S m k =
    Some (if \<exists>j\<ge>k. bitmap_abs B m j \<noteq> None then (LEAST j. k \<le> j \<and> bitmap_abs B m j \<noteq> None, True)
      else (0, False))"
proof (cases "case entries m (k div 256) of None \<Rightarrow> True
    | Some leaf \<Rightarrow> \<not> bm_FindNextSet B (bm leaf) (k mod 256) < 256")
  case False
  then obtain leaf where leaf: "entries m (k div 256) = Some leaf" "bm_FindNextSet B (bm leaf) (k mod 256) < 256"
    by (auto split: option.splits)
  note f = first_in_leaf [OF leaf(1) refl leaf(2)]
  have "\<exists>j\<ge>k. bitmap_abs B m j \<noteq> None" using f(2,3) by blast
  then show ?thesis
    unfolding f(1) BitmapRangeMap_NextKey_def using leaf by (simp add: getLeaf_def leaf_bits)
next
  case True
  have here: "\<forall>j\<ge>k. j div 256 = k div 256 \<longrightarrow> bitmap_abs B m j = None"
    using none_in_leaf [OF True] by blast
  have run: "BitmapRangeMap_NextKey B S m k =
      (case bs_NextSet S (partLeafIndex m) (Suc (k div 256)) of
         (nextPartial, False) \<Rightarrow> Some (0, False)
       | (nextPartial, True) \<Rightarrow>
           (case entries m nextPartial of
              None \<Rightarrow> None
            | Some leaf \<Rightarrow>
                Some (u64 (u64 (256 * nextPartial) + bm_FindFirstSet B (bm leaf)), True)))"
    unfolding BitmapRangeMap_NextKey_def leaf_bits
    using True by (auto simp: getLeaf_def Let_def split: option.splits)
  obtain n ok where n: "bs_NextSet S (partLeafIndex m) (Suc (k div 256)) = (n, ok)" by fastforce
  show ?thesis
  proof (cases ok)
    case True
    with n have n': "bs_NextSet S (partLeafIndex m) (Suc (k div 256)) = (n, True)" by simp
    then obtain leaf where leaf: "entries m n = Some leaf"
      using NextSet_Some [OF n'] by (auto simp: bitmap_invD(4) [OF assms])
    note f = first_in_later_leaf [OF assms here n' leaf]
    have "\<exists>j\<ge>k. bitmap_abs B m j \<noteq> None" using f(2,3) by blast
    then show ?thesis
      unfolding f(1) run using first_set_nonempty(1) [OF assms leaf]
      by (simp add: n' leaf leaf_u64 [OF assms leaf])
  next
    case False
    with n have n': "bs_NextSet S (partLeafIndex m) (Suc (k div 256)) = (n, False)" by simp
    then show ?thesis using no_later_leaf [OF assms here n'] by (simp add: run)
  qed
qed


lemma clear_in_leaf:
  assumes "entries m (k div 256) = Some leaf" "n = bm_FindNextClear B (bm leaf) (k mod 256)" "n < 256"
  shows "(LEAST j. k \<le> j \<and> bitmap_abs B m j = None) = 256 * (k div 256) + n"
proof -
  have f: "first_in (\<lambda>i. \<not> bm_Get B (bm leaf) i) (k mod 256) 256 n"
    using bm_next_clear [of "k mod 256"] assms(2) by simp
  from f assms(3) have n: "k mod 256 \<le> n" "\<not> bm_Get B (bm leaf) n"
    and all: "\<And>i. k mod 256 \<le> i \<Longrightarrow> i < n \<Longrightarrow> bm_Get B (bm leaf) i"
    unfolding first_in_def by auto
  have e1: "k \<le> 256 * (k div 256) + n" using n(1) mult_div_mod_eq [of 256 k] by linarith
  have e2: "bitmap_abs B m (256 * (k div 256) + n) = None"
    using assms n by (simp add: bitmap_abs_def)
  show ?thesis
  proof (rule Least_from [where P = "\<lambda>j. bitmap_abs B m j = None", OF e1 e2])
    fix j assume j: "k \<le> j" "j < 256 * (k div 256) + n"
    then have d: "j div 256 = k div 256"
      using assms(3) mult_div_mod_eq [of 256 k] by (intro div_nat_eqI) simp_all
    with j have "k mod 256 \<le> j mod 256" "j mod 256 < n"
      using same_leaf [of k j] mult_div_mod_eq [of 256 j] by linarith+
    from all [OF this] show "bitmap_abs B m j \<noteq> None"
      unfolding bitmap_abs_Some d using assms(1) by simp
  qed
qed

text \<open>The leaf after the full ones that follow leaf \<open>i\<close>.\<close>

lemma next_non_full:
  assumes inv: "bitmap_inv B S m"
    and n: "n = (case bs_NextClear S (fullLeafIndex m) i of
        (n, True) \<Rightarrow> n
      | (n, False) \<Rightarrow> if i < bs_Len S (fullLeafIndex m) then bs_Len S (fullLeafIndex m) else i)"
  shows "i \<le> n" "\<not> bs_Test S (fullLeafIndex m) n" "n \<le> max i (2 ^ 55)"
    and "i \<le> j \<Longrightarrow> j < n \<Longrightarrow> bs_Test S (fullLeafIndex m) j"
proof -
  let ?F = "fullLeafIndex m"
  have len: "bs_Len S ?F \<le> 2 ^ 55" by (rule bitmap_invD(7) [OF inv])
  obtain c ok where c: "bs_NextClear S ?F i = (c, ok)" by fastforce
  have "i \<le> n \<and> \<not> bs_Test S ?F n \<and> n \<le> max i (2 ^ 55) \<and>
      (\<forall>j. i \<le> j \<longrightarrow> j < n \<longrightarrow> bs_Test S ?F j)"
  proof (cases ok)
    case True
    with c n have "c = n" and c': "bs_NextClear S ?F i = (n, True)" by simp_all
    from NextClear_Some [OF c'] have nc: "i \<le> n" "\<not> bs_Test S ?F n"
      "\<forall>j. i \<le> j \<longrightarrow> j < n \<longrightarrow> bs_Test S ?F j" by auto
    have "n \<le> max i (2 ^ 55)"
    proof (rule ccontr)
      assume "\<not> n \<le> max i (2 ^ 55)"
      then have "bs_Test S ?F (2 ^ 55) \<or> bs_Test S ?F i" using nc(3) by (auto simp: max_def split: if_splits)
      moreover have "i \<ge> 2 ^ 55 \<Longrightarrow> \<not> bs_Test S ?F i" using bs_test_len [of ?F i] len by auto
      moreover have "\<not> bs_Test S ?F (2 ^ 55)" using bs_test_len [of ?F "2 ^ 55"] len by auto
      moreover have "i < 2 ^ 55 \<Longrightarrow> bs_Test S ?F (2 ^ 55)"
        using nc(3) \<open>\<not> n \<le> max i (2 ^ 55)\<close> by (simp add: max_def)
      ultimately show False by (metis not_le)
    qed
    with nc show ?thesis by blast
  next
    case False
    with c have c': "bs_NextClear S ?F i = (c, False)" by simp
    with n have n': "n = max i (bs_Len S ?F)" by (simp add: max_def)
    have "\<not> bs_Test S ?F n" using bs_test_len [of ?F n] n' by auto
    with n' len NextClear_None [OF c'] show ?thesis by (auto simp: max_def)
  qed
  then show "i \<le> n" "\<not> bs_Test S ?F n" "n \<le> max i (2 ^ 55)"
    and "i \<le> j \<Longrightarrow> j < n \<Longrightarrow> bs_Test S ?F j" by blast+
qed

text \<open>The first absent key when the rest of the leaf of \<open>k\<close> and the leaves up to \<open>n\<close> are full,
  and the first absent key of leaf \<open>n\<close> is \<open>f\<close>.\<close>

lemma clear_in_later_leaf:
  assumes inv: "bitmap_inv B S m"
    and here: "entries m (k div 256) = Some leaf" "\<not> bm_FindNextClear B (bm leaf) (k mod 256) < 256"
    and full: "\<And>j. Suc (k div 256) \<le> j \<Longrightarrow> j < n \<Longrightarrow> bs_Test S (fullLeafIndex m) j"
    and n: "Suc (k div 256) \<le> n" "f < 256" "bitmap_abs B m (256 * n + f) = None"
      "\<And>i. i < f \<Longrightarrow> bitmap_abs B m (256 * n + i) \<noteq> None"
  shows "(LEAST j. k \<le> j \<and> bitmap_abs B m j = None) = 256 * n + f"
proof -
  have all: "bm_Get B (bm leaf) i" if "k mod 256 \<le> i" "i < 256" for i
    using bm_next_clear [of "k mod 256" "bm leaf"] here(2) that unfolding first_in_def by simp
  have e1: "k \<le> 256 * n + f"
    using n(1) mult_div_mod_eq [of 256 k] mod_less_divisor [of 256 k] by linarith
  show ?thesis
  proof (rule Least_from [where P = "\<lambda>j. bitmap_abs B m j = None", OF e1 n(3)])
    fix j assume j: "k \<le> j" "j < 256 * n + f"
    have le: "j div 256 \<le> n"
      using j(2) n(2) by (intro less_Suc_eq_le [THEN iffD1] less_mult_imp_div_less) simp
    consider "j div 256 = k div 256" | "j div 256 \<noteq> k div 256" "j div 256 < n" | "j div 256 = n"
      using le by linarith
    then show "bitmap_abs B m j \<noteq> None"
    proof cases
      case 1
      have "bm_Get B (bm leaf) (j mod 256)" by (intro all same_leaf j 1) simp
      with 1 here(1) show ?thesis by (simp add: bitmap_abs_def)
    next
      case 2
      from full [OF next_leaf [OF j(1) 2(1)] 2(2)] show ?thesis
        by (auto simp: bitmap_abs_def bitmap_invD(5) [OF inv])
    next
      case 3
      then have "j = 256 * n + j mod 256" "j mod 256 < f"
        using j(2) mult_div_mod_eq [of 256 j] by linarith+
      then show ?thesis using n(4) by metis
    qed
  qed
qed


lemma NextEmpty_run:
  assumes "entries m (k div 256) = Some leaf" "\<not> bm_FindNextClear B (bm leaf) (k mod 256) < 256"
    and "n = (case bs_NextClear S (fullLeafIndex m) (Suc (k div 256)) of
        (n, True) \<Rightarrow> n
      | (n, False) \<Rightarrow> if Suc (k div 256) < bs_Len S (fullLeafIndex m)
          then bs_Len S (fullLeafIndex m) else Suc (k div 256))"
  shows "BitmapRangeMap_NextEmpty B S m k =
    (case entries m n of
       None \<Rightarrow> Some (u64 (256 * n))
     | Some leaf \<Rightarrow> if bm_Full B (bm leaf) then None
         else Some (u64 (u64 (256 * n) + bm_FindFirstClear B (bm leaf))))"
  unfolding BitmapRangeMap_NextEmpty_def leaf_bits getLeaf_def leaf_full_def assms(3)
  using assms(1,2) by (simp add: Let_def split del: if_split)

lemma NextEmpty_bitmap:
  assumes inv: "bitmap_inv B S m" and k: "k < key_limit"
  shows "BitmapRangeMap_NextEmpty B S m k = Some (LEAST j. k \<le> j \<and> bitmap_abs B m j = None)"
proof (cases "entries m (k div 256)")
  case None
  then have "bitmap_abs B m k = None" by (simp add: bitmap_abs_def)
  then have "(LEAST j. k \<le> j \<and> bitmap_abs B m j = None) = k"
    by (intro Least_from [where P = "\<lambda>j. bitmap_abs B m j = None"]) auto
  with None show ?thesis by (simp add: BitmapRangeMap_NextEmpty_def getLeaf_def leaf_bits)
next
  case (Some leaf)
  show ?thesis
  proof (cases "bm_FindNextClear B (bm leaf) (k mod 256) < 256")
    case True
    from clear_in_leaf [OF Some refl this] Some True show ?thesis
      by (simp add: BitmapRangeMap_NextEmpty_def getLeaf_def leaf_bits)
  next
    case False
    define n where n: "n = (case bs_NextClear S (fullLeafIndex m) (Suc (k div 256)) of
        (n, True) \<Rightarrow> n
      | (n, False) \<Rightarrow> if Suc (k div 256) < bs_Len S (fullLeafIndex m)
          then bs_Len S (fullLeafIndex m) else Suc (k div 256))"
    note nf = next_non_full [OF inv n]
    note later = clear_in_later_leaf [OF inv Some False nf(4) nf(1)]
    have "k div 256 < 2 ^ 55" using k by (simp add: div_less_iff_less_mult)
    then have u: "u64 (256 * n) = 256 * n" using nf(3) by (simp add: u64_id max_def split: if_splits)
    show ?thesis
    proof (cases "entries m n")
      case None
      with later [of 0] u show ?thesis
        by (simp add: NextEmpty_run [OF Some False n] bitmap_abs_def)
    next
      case leaf': (Some leaf')
      let ?f = "bm_FindFirstClear B (bm leaf')"
      have nfull: "\<not> bm_Full B (bm leaf')" using nf(2) leaf' by (auto simp: bitmap_invD(5) [OF inv] bm_full)
      then obtain i where i: "i < 256" "\<not> bm_Get B (bm leaf') i" by (auto simp: bm_full)
      note f = first_in_exists [where P = "\<lambda>i. \<not> bm_Get B (bm leaf') i", OF bm_first_clear i]
      have "(LEAST j. k \<le> j \<and> bitmap_abs B m j = None) = 256 * n + ?f"
        using f leaf' by (intro later) (auto simp: bitmap_abs_def)
      with u f(1) nfull leaf' leaf_u64(2) [OF inv leaf'] show ?thesis
        by (simp add: NextEmpty_run [OF Some False n])
    qed
  qed
qed

lemma Begin_bitmap:
  assumes "bitmap_inv B S m"
  shows "BitmapRangeMap_Begin B S m =
    Some (if bitmap_abs B m = Map.empty then (0, False) else (LEAST k. bitmap_abs B m k \<noteq> None, True))"
proof -
  obtain n ok where n: "bs_NextSet S (partLeafIndex m) 0 = (n, ok)" by fastforce
  show ?thesis
  proof (cases ok)
    case False
    with n NextSet_None [of "partLeafIndex m" 0 n] have "entries m i = None" for i
      by (simp add: bitmap_invD(4) [OF assms])
    then have "bitmap_abs B m = Map.empty" by (simp add: bitmap_abs_def fun_eq_iff)
    with n False show ?thesis by (simp add: BitmapRangeMap_Begin_def)
  next
    case True
    with n have n': "bs_NextSet S (partLeafIndex m) 0 = (n, True)" by simp
    from NextSet_Some [OF n'] obtain leaf where leaf: "entries m n = Some leaf"
      and before: "\<And>i. i < n \<Longrightarrow> entries m i = None"
      by (auto simp: bitmap_invD(4) [OF assms])
    note f = first_set_nonempty [OF assms leaf]
    let ?e = "256 * n + bm_FindFirstSet B (bm leaf)"
    have e: "bitmap_abs B m ?e \<noteq> None" unfolding bitmap_abs_Some using leaf f(1,2) by simp
    have "bitmap_abs B m j = None" if j: "j < ?e" for j
    proof (cases "j div 256 < n")
      case False
      have "j div 256 \<le> n"
        using j f(1) by (intro less_Suc_eq_le [THEN iffD1] less_mult_imp_div_less) simp
      with False have d: "j div 256 = n" by simp
      then have "j mod 256 < bm_FindFirstSet B (bm leaf)" using j mult_div_mod_eq [of 256 j] by linarith
      from f(3) [OF this] d leaf show ?thesis by (simp add: bitmap_abs_def)
    qed (simp add: before bitmap_abs_def)
    then have l: "(LEAST k. bitmap_abs B m k \<noteq> None) = ?e"
      using Least_from [where P = "\<lambda>j. bitmap_abs B m j \<noteq> None", OF _ e, of 0] by simp
    have "bitmap_abs B m \<noteq> Map.empty" using e by auto
    then show ?thesis
      unfolding l using n' leaf f(1) leaf_u64(2) [OF assms leaf f(1)]
      by (simp add: BitmapRangeMap_Begin_def getLeaf_def leaf_bits add.commute)
  qed
qed

end

lemma last_index_Some: "last_index P n = Some i \<Longrightarrow> i < n \<and> P i \<and> (\<forall>j. i < j \<longrightarrow> j < n \<longrightarrow> \<not> P j)"
  by (induction n) (auto simp: less_Suc_eq split: if_splits)

lemma last_index_None: "last_index P n = None \<longleftrightarrow> (\<forall>j<n. \<not> P j)"
  by (induction n) (auto simp: less_Suc_eq)

context bitmap_sets
begin

lemma End_bitmap:
  assumes inv: "bitmap_inv B S m"
  shows "\<exists>e. BitmapRangeMap_End B S m = Some e \<and> (\<forall>k. bitmap_abs B m k \<noteq> None \<longrightarrow> k < e) \<and>
    (0 < e \<longrightarrow> bitmap_abs B m (e - 1) \<noteq> None)"
proof (cases "last_index (bs_Test S (partLeafIndex m)) (bs_Len S (partLeafIndex m))")
  case None
  have "entries m i = None" for i
    using None bs_test_len [of "partLeafIndex m" i] unfolding last_index_None bitmap_invD(4) [OF inv]
    by (cases "entries m i") auto
  then have "bitmap_abs B m = Map.empty" by (simp add: bitmap_abs_def fun_eq_iff)
  with None show ?thesis by (simp add: BitmapRangeMap_End_def)
next
  case (Some n)
  note n = last_index_Some [OF Some]
  then obtain leaf where leaf: "entries m n = Some leaf" by (auto simp: bitmap_invD(4) [OF inv])
  have after: "entries m i = None" if "n < i" for i
    using n that bs_test_len [of "partLeafIndex m" i] bitmap_invD(4) [OF inv, of i]
    by (cases "entries m i") auto
  have "last_index (leaf_has B leaf) 256 \<noteq> None"
    unfolding last_index_None using bitmap_invD(3) [OF inv leaf] by (auto simp: leaf_has_def)
  then obtain i where i: "last_index (leaf_has B leaf) 256 = Some i" by blast
  note li = last_index_Some [OF i, unfolded leaf_has_def]
  have run: "BitmapRangeMap_End B S m = Some (256 * n + i + 1)"
    using Some leaf i li bitmap_invD(1) [OF inv leaf]
    by (simp add: BitmapRangeMap_End_def getLeaf_def leaf_bits u64_id)
  have "k < 256 * n + i + 1" if k: "bitmap_abs B m k \<noteq> None" for k
  proof -
    from k obtain l where l: "entries m (k div 256) = Some l" "bm_Get B (bm l) (k mod 256)"
      unfolding bitmap_abs_Some by blast
    then have "k div 256 \<le> n" using after by (metis not_le option.distinct(1))
    moreover have "k mod 256 \<le> i" if "k div 256 = n"
      using li l leaf that mod_less_divisor [of 256 k] by (metis mod_mod_trivial not_le option.inject zero_less_numeral)
    ultimately show ?thesis
      using mult_div_mod_eq [of 256 k] mod_less_divisor [of 256 k] by (cases "k div 256 = n") linarith+
  qed
  moreover have "bitmap_abs B m (256 * n + i) \<noteq> None"
    unfolding bitmap_abs_Some using leaf li by auto
  ultimately show ?thesis using run by simp
qed


subsection \<open>Add\<close>

lemma leaf_insert_ok:
  assumes "length (items l) = 256" "i + n \<le> 256"
  shows "\<exists>l'. leaf_insert B l i n v = Some l' \<and> length (items l') = 256 \<and>
    (\<forall>j<256. (bm_Get B (bm l') j \<longleftrightarrow> i \<le> j \<and> j < i + n \<or> bm_Get B (bm l) j) \<and>
      items l' ! j = (if i \<le> j \<and> j < i + n then v else items l ! j))"
  using assms
proof (induction n arbitrary: l i)
  case (Suc n)
  let ?l = "l\<lparr>items := (items l)[i := v], bm := bm_Set B (bm l) (i mod 256)\<rparr>"
  from Suc.IH [of ?l "Suc i"] Suc.prems obtain l' where
    "leaf_insert B ?l (Suc i) n v = Some l'" "length (items l') = 256"
    and l': "\<And>j. j < 256 \<Longrightarrow> (bm_Get B (bm l') j \<longleftrightarrow> Suc i \<le> j \<and> j < Suc i + n \<or> bm_Get B (bm ?l) j) \<and>
      items l' ! j = (if Suc i \<le> j \<and> j < Suc i + n then v else items ?l ! j)"
    by auto
  moreover have "(bm_Get B (bm l') j \<longleftrightarrow> i \<le> j \<and> j < i + Suc n \<or> bm_Get B (bm l) j) \<and>
      items l' ! j = (if i \<le> j \<and> j < i + Suc n then v else items l ! j)" if "j < 256" for j
    using l' [OF that] Suc.prems that by (cases "j = i") (auto simp: bm_get_set)
  ultimately show ?case using Suc.prems by simp
qed auto

text \<open>One turn of the loop: the leaf of \<open>offset\<close> gets \<open>n\<close> values from there on.\<close>

definition add_leaf :: "('b, 's, 'v) BitmapRangeMap \<Rightarrow> nat \<Rightarrow> nat \<Rightarrow> 'v \<Rightarrow> ('b, 's, 'v) BitmapRangeMap option" where
  "add_leaf m offset n value =
     (let i = offset div 256;
          l = (case entries m i of Some l \<Rightarrow> l | None \<Rightarrow> \<lparr>bm = bm_zero B, items = replicate 256 zero\<rparr>);
          part = (if bm_Empty B (bm l) then bs_Set S (partLeafIndex m) i else partLeafIndex m)
      in map_option (\<lambda>l'. \<lparr>entries = (entries m)(i \<mapsto> l'),
             fullLeafIndex = (if bm_Full B (bm l') then bs_Set S (fullLeafIndex m) i else fullLeafIndex m),
             partLeafIndex = part\<rparr>)
           (leaf_insert B l (offset mod 256) n value))"

lemma Add_loop_step:
  assumes "offset < end" "n = min (256 - offset mod 256) (end - offset)"
  shows "BitmapRangeMap_Add_loop B S zero m offset end v =
    Option.bind (add_leaf m offset n v) (\<lambda>m. BitmapRangeMap_Add_loop B S zero m (offset + n) end v)"
proof -
  have n: "(if 256 - offset mod 256 > end - offset then end - offset else 256 - offset mod 256) = n"
    using assms(2) by simp
  show ?thesis
    by (subst BitmapRangeMap_Add_loop.simps,
        unfold Let_def leaf_bits n getOrCreateLeaf_def leaf_empty_def leaf_full_def add_leaf_def,
        cases m, cases "entries m (offset div 256)")
      (simp_all add: assms(1) split: option.splits)
qed


lemma add_leaf_inv:
  assumes inv: "bitmap_inv B S m" and i: "i < 2 ^ 55"
    and l: "l = (case entries m i of Some l \<Rightarrow> l | None \<Rightarrow> \<lparr>bm = bm_zero B, items = replicate 256 zero\<rparr>)"
    and l': "length (items l') = 256" "j < 256" "bm_Get B (bm l') j"
      "\<forall>j<256. bm_Get B (bm l) j \<longrightarrow> bm_Get B (bm l') j"
  shows "bitmap_inv B S \<lparr>entries = (entries m)(i \<mapsto> l'),
    fullLeafIndex = (if bm_Full B (bm l') then bs_Set S (fullLeafIndex m) i else fullLeafIndex m),
    partLeafIndex = (if bm_Empty B (bm l) then bs_Set S (partLeafIndex m) i else partLeafIndex m)\<rparr>"
proof -
  have "\<not> bm_Empty B (bm l) \<Longrightarrow> entries m i \<noteq> None"
    using l by (auto simp: bm_empty bm_get_zero split: option.splits)
  moreover have "bs_Test S (fullLeafIndex m) i \<Longrightarrow> bm_Full B (bm l')"
    using l l'(4) by (auto simp: bitmap_invD(5) [OF inv] bm_full)
  ultimately show ?thesis
    using i l'(1-3) inv unfolding bitmap_inv_def
    by (auto simp: bs_test_set bs_len_set bm_full split: if_splits)
qed

lemma add_leaf_ok:
  assumes inv: "bitmap_inv B S m" and off: "offset < key_limit"
    and n: "0 < n" "offset mod 256 + n \<le> 256"
  shows "\<exists>m'. add_leaf m offset n v = Some m' \<and> bitmap_inv B S m' \<and>
    bitmap_abs B m' = add_range offset n v (bitmap_abs B m)"
proof -
  let ?i = "offset div 256"
  have i: "?i < 2 ^ 55" using off by (simp add: div_less_iff_less_mult)
  define l where l: "l = (case entries m ?i of Some l \<Rightarrow> l | None \<Rightarrow> \<lparr>bm = bm_zero B, items = replicate 256 zero\<rparr>)"
  have "length (items l) = 256" using l bitmap_invD(2) [OF inv] by (auto split: option.splits)
  from leaf_insert_ok [OF this n(2), of v] obtain l' where
    ins: "leaf_insert B l (offset mod 256) n v = Some l'" and len: "length (items l') = 256"
    and l': "\<And>j. j < 256 \<Longrightarrow> bm_Get B (bm l') j \<longleftrightarrow>
        offset mod 256 \<le> j \<and> j < offset mod 256 + n \<or> bm_Get B (bm l) j"
      "\<And>j. j < 256 \<Longrightarrow> items l' ! j =
        (if offset mod 256 \<le> j \<and> j < offset mod 256 + n then v else items l ! j)"
    by auto
  let ?m = "\<lparr>entries = (entries m)(?i \<mapsto> l'),
    fullLeafIndex = (if bm_Full B (bm l') then bs_Set S (fullLeafIndex m) ?i else fullLeafIndex m),
    partLeafIndex = (if bm_Empty B (bm l) then bs_Set S (partLeafIndex m) ?i else partLeafIndex m)\<rparr>"
  have "add_leaf m offset n v = Some ?m"
    using ins unfolding add_leaf_def Let_def l [symmetric] by simp
  moreover have "bitmap_inv B S ?m"
    by (rule add_leaf_inv [OF inv i l len, of "offset mod 256"]) (use l'(1) n(1) in auto)
  moreover have "bitmap_abs B ?m k = add_range offset n v (bitmap_abs B m) k" for k
  proof (cases "k div 256 = ?i")
    case True
    then have "offset \<le> k \<longleftrightarrow> offset mod 256 \<le> k mod 256" "k < offset + n \<longleftrightarrow> k mod 256 < offset mod 256 + n"
      using mult_div_mod_eq [of 256 k] mult_div_mod_eq [of 256 offset] by linarith+
    moreover have "bitmap_abs B m k = (if bm_Get B (bm l) (k mod 256) then Some (items l ! (k mod 256)) else None)"
      using True l by (simp add: bitmap_abs_def bm_get_zero split: option.splits)
    ultimately show ?thesis using True l' [of "k mod 256"] by (simp add: bitmap_abs_def add_range_def)
  next
    case False
    have "\<not> (offset \<le> k \<and> k < offset + n)"
      using stays_in_leaf [of offset k n] n(2) False by blast
    then show ?thesis using False by (auto simp: bitmap_abs_def add_range_def)
  qed
  ultimately show ?thesis by blast
qed

lemma Add_loop_ok:
  assumes "bitmap_inv B S m" "end \<le> key_limit"
  shows "\<exists>m'. BitmapRangeMap_Add_loop B S zero m offset end v = Some m' \<and> bitmap_inv B S m' \<and>
    bitmap_abs B m' = add_range offset (end - offset) v (bitmap_abs B m)"
  using assms(1)
proof (induction "end - offset" arbitrary: m offset rule: less_induct)
  case less
  show ?case
  proof (cases "offset < end")
    case False
    then show ?thesis
      using less.prems by (subst BitmapRangeMap_Add_loop.simps) (auto simp: add_range_def fun_eq_iff)
  next
    case True
    define n where n: "n = min (256 - offset mod 256) (end - offset)"
    have pos: "0 < n" "offset mod 256 + n \<le> 256" using True by (auto simp: n)
    have le: "offset + n \<le> end" using True by (simp add: n)
    from add_leaf_ok [OF less.prems _ pos, of v] True assms(2) obtain m1 where
      m1: "add_leaf m offset n v = Some m1" "bitmap_inv B S m1"
        "bitmap_abs B m1 = add_range offset n v (bitmap_abs B m)" by auto
    have "end - (offset + n) < end - offset" using pos True by simp
    from less.hyps [OF this m1(2)] obtain m2 where
      m2: "BitmapRangeMap_Add_loop B S zero m1 (offset + n) end v = Some m2" "bitmap_inv B S m2"
        "bitmap_abs B m2 = add_range (offset + n) (end - (offset + n)) v (bitmap_abs B m1)" by auto
    have "bitmap_abs B m2 = add_range offset (end - offset) v (bitmap_abs B m)"
      unfolding m2(3) m1(3) using le by (auto simp: add_range_def fun_eq_iff)
    with m2(1,2) m1(1) show ?thesis by (simp add: Add_loop_step [OF True n])
  qed
qed

lemma Add_bitmap:
  assumes "bitmap_inv B S m" "off + len \<le> key_limit"
  shows "\<exists>m'. BitmapRangeMap_Add B S zero m off len v = Some m' \<and> bitmap_inv B S m' \<and>
    bitmap_abs B m' = add_range off len v (bitmap_abs B m)"
  using Add_loop_ok [OF assms, of off v] assms(2) by (simp add: BitmapRangeMap_Add_def u64_id)


end

subsection \<open>Iterate\<close>

text \<open>\<open>Iterate\<close> does to the single keys of the map what the extent map's \<open>Iterate\<close> does to its
  extents: \<open>key_units\<close> are the keys from \<open>lo\<close> up to \<open>hi\<close> as ranges of length one, and
  \<open>visit_flag\<close> is \<open>visit\<close> with the flag that says whether all were visited.\<close>

definition key_units :: "(nat \<rightharpoonup> 'v) \<Rightarrow> nat \<Rightarrow> nat \<Rightarrow> 'v RangeValue list" where
  "key_units f lo hi = map (\<lambda>k. \<lparr>Offset = k, Length = 1, Value = the (f k)\<rparr>)
     (filter (\<lambda>k. f k \<noteq> None) [lo..<hi])"

fun visit_flag :: "('i \<Rightarrow> 's \<Rightarrow> 's \<times> bool) \<Rightarrow> 'i list \<Rightarrow> 's \<Rightarrow> 's \<times> bool" where
  "visit_flag f [] s = (s, True)"
| "visit_flag f (x # xs) s = (case f x s of (s', b) \<Rightarrow> if b then visit_flag f xs s' else (s', False))"

lemma visit_fst_flag: "visit f xs s = fst (visit_flag f xs s)"
  by (induction xs arbitrary: s) (auto split: prod.splits bool.splits)

lemma visit_append: "visit f (xs @ ys) s =
    (case visit_flag f xs s of (s', b) \<Rightarrow> if b then visit f ys s' else s')"
  by (induction xs arbitrary: s) (auto split: prod.splits bool.splits)

lemma key_units_Cons: "lo < hi \<Longrightarrow> key_units f lo hi =
    (case f lo of None \<Rightarrow> key_units f (Suc lo) hi
     | Some v \<Rightarrow> \<lparr>Offset = lo, Length = 1, Value = v\<rparr> # key_units f (Suc lo) hi)"
  by (auto simp: key_units_def upt_conv_Cons split: option.splits)

lemma key_units_append: "lo \<le> mid \<Longrightarrow> mid \<le> hi \<Longrightarrow> key_units f lo hi = key_units f lo mid @ key_units f mid hi"
  using upt_add_eq_append [of lo mid "hi - mid"] by (simp add: key_units_def)

lemma key_units_empty: "(\<And>k. lo \<le> k \<Longrightarrow> k < hi \<Longrightarrow> f k = None) \<Longrightarrow> key_units f lo hi = []"
  by (auto simp: key_units_def filter_empty_conv)

lemma set_key_units: "ie \<in> set (key_units f lo hi) \<Longrightarrow>
    lo \<le> Offset ie \<and> Offset ie < hi \<and> Length ie = 1 \<and> f (Offset ie) = Some (Value ie)"
  by (auto simp: key_units_def)

lemma sorted_key_units: "sorted_wrt (\<lambda>a b. rend a \<le> Offset b) (key_units f lo hi)"
proof -
  have "sorted_wrt (<) (filter (\<lambda>k. f k \<noteq> None) [lo..<hi])" by (intro sorted_wrt_filter) simp
  then show ?thesis
    by (auto simp: key_units_def sorted_wrt_map elim!: sorted_wrt_mono_rel [rotated])
qed

lemma inside_unit: "inside k \<lparr>Offset = j, Length = Suc 0, Value = v\<rparr> \<longleftrightarrow> j = k"
  by (auto simp: inside_def)

lemma cover_key_units: "cover (key_units f lo hi) k = (if lo \<le> k \<and> k < hi then f k else None)"
proof (rule option_eqI)
  fix v
  have "(\<exists>r\<in>set (key_units f lo hi). inside k r \<and> Value r = v) \<longleftrightarrow> lo \<le> k \<and> k < hi \<and> f k = Some v"
    by (auto simp: key_units_def inside_unit image_iff)
  then show "cover (key_units f lo hi) k = Some v \<longleftrightarrow> (if lo \<le> k \<and> k < hi then f k else None) = Some v"
    unfolding cover_Some [OF sorted_separate [OF sorted_key_units]] by auto
qed

lemma coalesce_zero: "coalesce \<lparr>Offset = 0, Length = 0, Value = v\<rparr> xs =
    (case xs of [] \<Rightarrow> [] | y # ys \<Rightarrow> coalesce y ys)" if "\<forall>y\<in>set xs. Length y = (1 :: nat)"
  using that by (cases xs) (auto intro: arg_cong [of _ _ "\<lambda>r. coalesce r _"])

lemma runs_key_units:
  assumes "\<And>k. hi \<le> k \<Longrightarrow> f k = None"
  shows "is_runs f lo (coalesce \<lparr>Offset = 0, Length = 0, Value = v\<rparr> (key_units f lo hi))"
proof -
  let ?u = "key_units f lo hi"
  have len: "\<forall>y\<in>set ?u. Length y = 1" using set_key_units by blast
  have cov: "cover ?u k = (if lo \<le> k then f k else None)" for k
    using assms [of k] by (auto simp: cover_key_units)
  show ?thesis
  proof (cases ?u)
    case Nil
    with cov show ?thesis by (simp add: is_runs_def)
  next
    case (Cons y ys)
    have "sorted_wrt (\<lambda>a b. rend a \<le> Offset b) (y # ys)" "\<forall>q\<in>set (y # ys). 0 < Length q"
      using len sorted_key_units [of f lo hi] Cons by auto
    from coalesce_runs [OF this] cov Cons coalesce_zero [OF len, of v] show ?thesis
      unfolding is_runs_def by simp
  qed
qed

lemma visit_flag_stop:
  "visit_flag (ExtentRangeMap_Iterate_step 0 iter) xs (r, s) = ((r', s'), False) \<Longrightarrow> Length r' = 0"
proof (induction xs arbitrary: r s)
  case (Cons ie xs)
  obtain r1 s1 b where st: "ExtentRangeMap_Iterate_step 0 iter ie (r, s) = ((r1, s1), b)" by (metis surj_pair)
  show ?case
  proof (cases b)
    case True
    with st Cons show ?thesis by simp
  next
    case False
    with st have "Length r1 = 0"
      by (auto simp: ExtentRangeMap_Iterate_step_def split: if_splits prod.splits bool.splits)
    with False st Cons.prems show ?thesis by simp
  qed
qed simp

context bitmap_sets
begin

lemma Iterate_leaf_units:
  assumes "entries m (off div 256) = Some leaf" "j = off mod 256" "j + n \<le> 256" "off + n < 2 ^ 64"
    and "visit_flag (ExtentRangeMap_Iterate_step 0 iter) (key_units (bitmap_abs B m) off (off + n)) (r, s) =
      ((r', s'), b)"
  shows "\<exists>off'. Iterate_leaf B leaf iter n j off r s = ((off', r', s'), b) \<and> (b \<longrightarrow> off' = off + n)"
  using assms
proof (induction n arbitrary: off j r s)
  case 0
  then show ?case by (simp add: key_units_def)
next
  case (Suc n)
  have u: "u64 (Suc off) = Suc off" using Suc.prems(4) by (simp add: u64_id)
  have step: "ExtentRangeMap_Iterate_step 0 iter \<lparr>Offset = off, Length = 1, Value = v\<rparr> (r, s) =
      (if Value r = v \<and> u64 (rend r) = off then ((r\<lparr>Length := u64 (Length r + 1)\<rparr>, s), True)
       else if Length r > 0 then
         (case iter r s of
            (s', False) \<Rightarrow> ((r\<lparr>Length := 0\<rparr>, s'), False)
          | (s', True) \<Rightarrow> ((\<lparr>Offset = off, Length = 1, Value = v\<rparr>, s'), True))
       else ((\<lparr>Offset = off, Length = 1, Value = v\<rparr>, s), True))" for v
    by (auto simp: ExtentRangeMap_Iterate_step_def)
  have next_off: "entries m (Suc off div 256) = Some leaf" "Suc j = Suc off mod 256" if "n > 0"
  proof -
    have "Suc off div 256 = off div 256"
      using that Suc.prems(2,3) by (intro stays_in_leaf [of off _ 2]) auto
    then show "entries m (Suc off div 256) = Some leaf" using Suc.prems(1) by simp
    show "Suc j = Suc off mod 256"
      using that Suc.prems(2,3) by (simp add: mod_Suc)
  qed
  have IH: "\<exists>off'. Iterate_leaf B leaf iter n (Suc j) (Suc off) r1 s1 = ((off', r', s'), b) \<and> (b \<longrightarrow> off' = Suc off + n)"
    if "visit_flag (ExtentRangeMap_Iterate_step 0 iter) (key_units (bitmap_abs B m) (Suc off) (Suc off + n)) (r1, s1) =
      ((r', s'), b)" for r1 s1
    using that next_off Suc.IH [of "Suc off" "Suc j" r1 s1] Suc.prems(3,4)
    by (cases "n = 0") (simp_all add: key_units_def)
  have abs: "bitmap_abs B m off = (if leaf_has B leaf j then Some (items leaf ! j) else None)"
    using Suc.prems(1,2) by (simp add: bitmap_abs_def leaf_has_def)
  have units: "key_units (bitmap_abs B m) off (off + Suc n) =
      (case bitmap_abs B m off of None \<Rightarrow> key_units (bitmap_abs B m) (Suc off) (Suc off + n)
       | Some v \<Rightarrow> \<lparr>Offset = off, Length = 1, Value = v\<rparr> # key_units (bitmap_abs B m) (Suc off) (Suc off + n))"
    unfolding add_Suc_shift by (rule key_units_Cons) simp
  note run = Suc.prems(5) [unfolded units abs]
  obtain s1 b1 where it: "iter r s = (s1, b1)" by fastforce
  consider "\<not> leaf_has B leaf j"
    | "leaf_has B leaf j" "Value r = items leaf ! j \<and> u64 (rend r) = off"
    | "leaf_has B leaf j" "\<not> (Value r = items leaf ! j \<and> u64 (rend r) = off)" "Length r > 0"
    | "leaf_has B leaf j" "\<not> (Value r = items leaf ! j \<and> u64 (rend r) = off)" "Length r = 0"
    by (cases "Length r") blast+
  then show ?case
  proof cases
    case 1
    with run IH [of r s] show ?thesis by (simp add: u)
  next
    case 2
    with run IH [of "r\<lparr>Length := u64 (Length r + 1)\<rparr>" s] show ?thesis by (simp add: u step [simplified])
  next
    case 3
    with run IH [of "\<lparr>Offset = off, Length = 1, Value = items leaf ! j\<rparr>" s1] it show ?thesis
      by (cases b1) (auto simp: u step [simplified] Let_def)
  next
    case 4
    with run IH [of "\<lparr>Offset = off, Length = 1, Value = items leaf ! j\<rparr>" s] show ?thesis
      by (auto simp: u step [simplified] Let_def)
  qed
qed


lemma Iterate_loop_units:
  fixes r :: "'v RangeValue"
  assumes inv: "bitmap_inv B S m" and lim: "lim = 256 * bs_Len S (partLeafIndex m)"
  shows "Iterate_loop B S m iter off r s =
    Some (case visit (ExtentRangeMap_Iterate_step 0 iter) (key_units (bitmap_abs B m) off lim) (r, s) of
      (r', s') \<Rightarrow> if Length r' > 0 then fst (iter r' s') else s')"
proof (induction "lim - off" arbitrary: off r s rule: less_induct)
  case less
  have past: "bitmap_abs B m k \<noteq> None \<Longrightarrow> k < lim" for k
    using bs_test_len [of "partLeafIndex m" "k div 256"] bitmap_invD(4) [OF inv, of "k div 256"]
    unfolding bitmap_abs_Some lim by (auto simp: div_less_iff_less_mult mult.commute)
  show ?case
  proof (cases "entries m (off div 256)")
    case None
    let ?P = "\<lambda>j. off \<le> j \<and> bitmap_abs B m j \<noteq> None"
    show ?thesis
    proof (cases "\<exists>j. ?P j")
      case False
      then have "key_units (bitmap_abs B m) off lim = []" by (intro key_units_empty) blast
      moreover have "BitmapRangeMap_NextKey B S m off = Some (0, False)"
        using False unfolding NextKey_bitmap [OF inv] by auto
      ultimately show ?thesis
        using None by (subst Iterate_loop.simps) (simp add: getLeaf_def leaf_bits)
    next
      case True
      define n where "n = Least ?P"
      from True obtain j where "?P j" by blast
      from Least_first [of ?P, OF this n_def] have n: "?P n" "\<forall>j<n. \<not> ?P j" by blast+
      have "off \<noteq> n" using n(1) None by (auto simp: bitmap_abs_def)
      with n(1) past [of n] have lt: "lim - n < lim - off" "n \<le> lim" by auto
      have nk: "BitmapRangeMap_NextKey B S m off = Some (n, True)"
        unfolding NextKey_bitmap [OF inv] n_def using True by auto
      have "key_units (bitmap_abs B m) off n = []" using n(2) by (intro key_units_empty) blast
      then have u: "key_units (bitmap_abs B m) off lim = key_units (bitmap_abs B m) n lim"
        using key_units_append [of off n lim "bitmap_abs B m"] n(1) lt(2) by simp
      from less.hyps [OF lt(1), of r s] None nk show ?thesis
        unfolding u by (subst Iterate_loop.simps) (simp add: getLeaf_def leaf_bits)
    qed
  next
    case (Some leaf)
    let ?n = "256 - off mod 256"
    let ?step = "ExtentRangeMap_Iterate_step 0 iter"
    have i: "off div 256 < bs_Len S (partLeafIndex m)" "off div 256 < 2 ^ 55"
      using bs_test_len [of "partLeafIndex m" "off div 256"] bitmap_invD(1,4) [OF inv] Some by auto
    have e: "off + ?n = 256 * Suc (off div 256)"
      using mult_div_mod_eq [of 256 off] mod_less_divisor [of 256 off] by (simp only: mult_Suc_right)
    have le: "off + ?n \<le> lim" unfolding e lim using i(1) by (intro mult_le_mono2) simp
    have bnd: "off + ?n < 2 ^ 64" unfolding e using i(2) by simp
    obtain r' s' b where v: "visit_flag ?step (key_units (bitmap_abs B m) off (off + ?n)) (r, s) = ((r', s'), b)"
      by (metis surj_pair)
    from Iterate_leaf_units [OF Some refl _ bnd v] obtain off' where
      leaf: "Iterate_leaf B leaf iter ?n (off mod 256) off r s = ((off', r', s'), b)" "b \<Longrightarrow> off' = off + ?n"
      by auto
    have u: "visit ?step (key_units (bitmap_abs B m) off lim) (r, s) =
        (if b then visit ?step (key_units (bitmap_abs B m) (off + ?n) lim) (r', s') else (r', s'))"
      using key_units_append [of off "off + ?n" lim "bitmap_abs B m"] le v by (simp add: visit_append)
    have "lim - (off + ?n) < lim - off" using le by (intro diff_less_mono2) auto
    note IH = less.hyps [OF this, of r' s']
    show ?thesis
    proof (cases b)
      case True
      with leaf Some IH u show ?thesis
        by (subst Iterate_loop.simps) (simp add: getLeaf_def leaf_bits)
    next
      case False
      with v have "Length r' = 0" by (auto dest: visit_flag_stop)
      with False leaf Some u show ?thesis
        by (subst Iterate_loop.simps) (simp add: getLeaf_def leaf_bits)
    qed
  qed
qed

definition bitmap_run_list :: "('b, 's, 'v) BitmapRangeMap \<Rightarrow> nat \<Rightarrow> 'v RangeValue list" where
  "bitmap_run_list m start = coalesce \<lparr>Offset = 0, Length = 0, Value = zero\<rparr>
     (key_units (bitmap_abs B m) start (256 * bs_Len S (partLeafIndex m)))"

lemma Iterate_bitmap:
  assumes inv: "bitmap_inv B S m"
  shows "BitmapRangeMap_Iterate B S zero m start iter s = Some (visit iter (bitmap_run_list m start) s)"
proof -
  have "good_range ie" if "ie \<in> set (key_units (bitmap_abs B m) start (256 * bs_Len S (partLeafIndex m)))" for ie
    using set_key_units [OF that] bitmap_bounded [OF inv, of "Offset ie"] by (simp add: good_range_def)
  then show ?thesis
    unfolding BitmapRangeMap_Iterate_def Iterate_loop_units [OF inv refl] bitmap_run_list_def
    by (simp add: visit_coalesce)
qed

lemma bitmap_run_list_runs:
  assumes inv: "bitmap_inv B S m"
  shows "is_runs (bitmap_abs B m) start (bitmap_run_list m start)"
  unfolding bitmap_run_list_def
proof (rule runs_key_units)
  fix k assume "256 * bs_Len S (partLeafIndex m) \<le> k"
  then show "bitmap_abs B m k = None"
    using bs_test_len [of "partLeafIndex m" "k div 256"] bitmap_invD(4) [OF inv, of "k div 256"]
    by (cases "entries m (k div 256)") (auto simp: bitmap_abs_def div_less_iff_less_mult)
qed

lemma bitmap_runs_list:
  assumes inv: "bitmap_inv B S m"
  shows "bitmap_runs B S zero m start = Some (bitmap_run_list m start)"
  unfolding bitmap_runs_def Iterate_bitmap [OF inv] by (simp add: visit_collect)

end

sublocale bitmap_sets \<subseteq> brm: range_map
  "BitmapRangeMap_Add B S zero" "BitmapRangeMap_Get B" "BitmapRangeMap_Begin B S"
  "BitmapRangeMap_End B S" "BitmapRangeMap_NextKey B S" "BitmapRangeMap_NextEmpty B S"
  "bitmap_runs B S zero" "bitmap_inv B S" "bitmap_abs B"
proof (unfold_locales, goal_cases)
  case 1 then show ?case by (rule bitmap_bounded)
next
  case 2 then show ?case by (rule Add_bitmap)
next
  case 3 then show ?case by (simp add: Get_bitmap)
next
  case 4 then show ?case by (rule Begin_bitmap)
next
  case 5 then show ?case by (rule End_bitmap)
next
  case 6 show ?case by (rule NextKey_bitmap [OF 6(1)])
next
  case 7 then show ?case by (rule NextEmpty_bitmap)
next
  case 8 then show ?case using bitmap_runs_list bitmap_run_list_runs by blast
qed

context bitmap_sets
begin

lemmas bitmap_range_map = brm.range_map_axioms

end

interpretation list_bitmaps: bitmap_sets list_bitmap list_bitset zero for zero
  by unfold_locales

interpretation list_maps: range_map_pair
  "ExtentRangeMap_Add (list_tree Range_Key)" "ExtentRangeMap_Get (list_tree Range_Key)"
  "\<lambda>m. Some (ExtentRangeMap_Begin (list_tree Range_Key) m)"
  "\<lambda>m. Some (ExtentRangeMap_End (list_tree Range_Key) m)"
  "\<lambda>m k. Some (ExtentRangeMap_NextKey (list_tree Range_Key) m k)"
  "\<lambda>m k. Some (ExtentRangeMap_NextEmpty (list_tree Range_Key) m k)"
  "\<lambda>m k. Some (extent_runs (list_tree Range_Key) zero m k)"
  "extent_inv (list_tree Range_Key) (list_tree_ok Range_Key)" "extent_abs (list_tree Range_Key)"
  "BitmapRangeMap_Add list_bitmap list_bitset zero" "BitmapRangeMap_Get list_bitmap"
  "BitmapRangeMap_Begin list_bitmap list_bitset" "BitmapRangeMap_End list_bitmap list_bitset"
  "BitmapRangeMap_NextKey list_bitmap list_bitset" "BitmapRangeMap_NextEmpty list_bitmap list_bitset"
  "bitmap_runs list_bitmap list_bitset zero" "bitmap_inv list_bitmap list_bitset" "bitmap_abs list_bitmap"
  for zero
  by (intro range_map_pair.intro list_extents.extent_range_map list_bitmaps.bitmap_range_map)

section \<open>Properties\<close>

text \<open>\<open>Add\<close> on the bitmap map: over any number of leaves it overwrites exactly the keys of the
  range, keeps the two leaf indexes in step with the leaves, and never indexes outside a leaf.\<close>

theorem bitmap_Add_overwrites:
  assumes "bitmap256 B" "bitset S" "bitmap_inv B S m" "off + len \<le> key_limit"
  shows "\<exists>m'. BitmapRangeMap_Add B S zero m off len v = Some m' \<and> bitmap_inv B S m' \<and>
    (\<forall>k. BitmapRangeMap_Get B m' k =
      (if off \<le> k \<and> k < off + len then Some v else BitmapRangeMap_Get B m k))"
proof -
  have BS: "bitmap_sets B S" using assms(1,2) by (simp add: bitmap_sets_def)
  from bitmap_sets.Add_bitmap [OF BS assms(3,4), of zero v] obtain m' where
    "BitmapRangeMap_Add B S zero m off len v = Some m'" "bitmap_inv B S m'"
    "bitmap_abs B m' = add_range off len v (bitmap_abs B m)" by blast
  then show ?thesis
    by (auto simp: add_range_def bitmap_sets.Get_bitmap [OF BS])
qed

theorem bitmap_Add_overwrites_witness:
  "\<exists>m'. BitmapRangeMap_Add list_bitmap list_bitset 0 (NewBitmapRangeMap list_bitset) 200 600 (7 :: nat) = Some m' \<and>
    bitmap_inv list_bitmap list_bitset m' \<and>
    BitmapRangeMap_Get list_bitmap m' 199 = None \<and> BitmapRangeMap_Get list_bitmap m' 799 = Some 7"
  using bitmap_Add_overwrites [where off = 200 and len = 600 and v = "7 :: nat" and zero = 0,
      OF list_bitmap.bitmap256_axioms list_bitset.bitset_axioms list_bitmaps.empty_bitmap(1)]
  by (force simp: list_bitmaps.Get_bitmap list_bitmaps.empty_bitmap(2))

text \<open>C20. \<open>Iterate\<close> on the bitmap map returns, and calls back with the maximal runs of equal values
  at and after \<open>start\<close>, joined across leaf boundaries.\<close>

theorem bitmap_Iterate_runs:
  assumes "bitmap256 B" "bitset S" "bitmap_inv B S m"
  shows "\<exists>rs. is_runs (BitmapRangeMap_Get B m) start rs \<and>
    BitmapRangeMap_Iterate B S zero m start iter s = Some (visit iter rs s)"
proof -
  have BS: "bitmap_sets B S" using assms(1,2) by (simp add: bitmap_sets_def)
  have "BitmapRangeMap_Get B m = bitmap_abs B m"
    by (rule ext) (rule bitmap_sets.Get_bitmap [OF BS])
  then show ?thesis
    using bitmap_sets.Iterate_bitmap [OF BS assms(3)] bitmap_sets.bitmap_run_list_runs [OF BS assms(3)] by metis
qed

theorem bitmap_Iterate_runs_witness:
  "\<exists>m rs. BitmapRangeMap_Add list_bitmap list_bitset 0 (NewBitmapRangeMap list_bitset) 255 2 (7 :: nat) = Some m \<and>
    is_runs (BitmapRangeMap_Get list_bitmap m) 0 rs \<and>
    BitmapRangeMap_Iterate list_bitmap list_bitset 0 m 0 (\<lambda>r acc. (acc @ [r], True)) [] =
      Some (visit (\<lambda>r acc. (acc @ [r], True)) rs [])"
proof -
  obtain m where m: "BitmapRangeMap_Add list_bitmap list_bitset 0 (NewBitmapRangeMap list_bitset) 255 2 (7 :: nat) = Some m"
    "bitmap_inv list_bitmap list_bitset m"
    using list_bitmaps.Add_bitmap [OF list_bitmaps.empty_bitmap(1), of 255 2 0 "7 :: nat"] by auto
  with bitmap_Iterate_runs [OF list_bitmap.bitmap256_axioms list_bitset.bitset_axioms m(2)]
  show ?thesis by metis
qed

text \<open>C16. The two range maps are interchangeable: after any sequence of \<open>Add\<close> calls from empty, the
  bitmap map and the extent map give the same answer to every \<open>Get\<close>, \<open>Begin\<close>, \<open>End\<close>, \<open>NextKey\<close>,
  \<open>NextEmpty\<close> and the same ranges, in the same order, to \<open>Iterate\<close>.\<close>

theorem bitmap_extent_equivalent:
  assumes T: "radix_tree T Range_Key ok" and B: "bitmap256 B" and S: "bitset S" and ws: "writes_ok ws"
  shows "\<exists>me mb. add_all (ExtentRangeMap_Add T) ws (ExtentRangeMap_empty T) = Some me \<and>
    add_all (BitmapRangeMap_Add B S zero) ws (NewBitmapRangeMap S) = Some mb \<and>
    ExtentRangeMap_Get T me = BitmapRangeMap_Get B mb \<and>
    Some (ExtentRangeMap_Begin T me) = BitmapRangeMap_Begin B S mb \<and>
    Some (ExtentRangeMap_End T me) = BitmapRangeMap_End B S mb \<and>
    (\<forall>k<key_limit. Some (ExtentRangeMap_NextKey T me k) = BitmapRangeMap_NextKey B S mb k \<and>
      Some (ExtentRangeMap_NextEmpty T me k) = BitmapRangeMap_NextEmpty B S mb k \<and>
      Some (extent_runs T zero me k) = bitmap_runs B S zero mb k)"
proof -
  have t: "extent_tree T ok" and bs: "bitmap_sets B S"
    using T B S by (simp_all add: extent_tree_def bitmap_sets_def)
  have pair: "range_map_pair (ExtentRangeMap_Add T) (ExtentRangeMap_Get T)
      (\<lambda>m. Some (ExtentRangeMap_Begin T m)) (\<lambda>m. Some (ExtentRangeMap_End T m))
      (\<lambda>m k. Some (ExtentRangeMap_NextKey T m k)) (\<lambda>m k. Some (ExtentRangeMap_NextEmpty T m k))
      (\<lambda>m k. Some (extent_runs T zero m k)) (extent_inv T ok) (extent_abs T)
      (BitmapRangeMap_Add B S zero) (BitmapRangeMap_Get B) (BitmapRangeMap_Begin B S)
      (BitmapRangeMap_End B S) (BitmapRangeMap_NextKey B S) (BitmapRangeMap_NextEmpty B S)
      (bitmap_runs B S zero) (bitmap_inv B S) (bitmap_abs B)"
    by (intro range_map_pair.intro extent_tree.extent_range_map bitmap_sets.bitmap_range_map t bs)
  have "extent_abs T (ExtentRangeMap_empty T) = bitmap_abs B (NewBitmapRangeMap S)"
    by (simp add: extent_tree.empty_extent [OF t] bitmap_sets.empty_bitmap [OF bs])
  from range_map_pair.same_after_adds [OF pair extent_tree.empty_extent(1) [OF t]
      bitmap_sets.empty_bitmap(1) [OF bs] this ws]
  obtain me mb where m: "add_all (ExtentRangeMap_Add T) ws (ExtentRangeMap_empty T) = Some me"
    "add_all (BitmapRangeMap_Add B S zero) ws (NewBitmapRangeMap S) = Some mb"
    and i: "extent_inv T ok me" "bitmap_inv B S mb" "extent_abs T me = bitmap_abs B mb" by blast
  note same = range_map_pair.same_answers [OF pair i]
  show ?thesis
    by (rule exI [of _ me], rule exI [of _ mb], intro conjI allI impI ext) (simp_all add: m same)
qed

theorem bitmap_extent_equivalent_witness:
  "\<exists>me mb. add_all (ExtentRangeMap_Add (list_tree Range_Key)) [(250, 20, 1 :: nat), (255, 3, 2)]
      (ExtentRangeMap_empty (list_tree Range_Key)) = Some me \<and>
    add_all (BitmapRangeMap_Add list_bitmap list_bitset 0) [(250, 20, 1 :: nat), (255, 3, 2)]
      (NewBitmapRangeMap list_bitset) = Some mb \<and>
    Some (ExtentRangeMap_NextEmpty (list_tree Range_Key) me 251) =
      BitmapRangeMap_NextEmpty list_bitmap list_bitset mb 251"
  using bitmap_extent_equivalent [where ws = "[(250, 20, 1 :: nat), (255, 3, 2)]" and zero = 0,
      OF list_tree.radix_tree_axioms list_bitmap.bitmap256_axioms list_bitset.bitset_axioms]
  by fastforce

end
