(* ===== verification/Adaptors.thy ===== *)
theory Adaptors
  imports Reader_Interfaces Third_Party
begin

text \<open>
  \<open>internal/adaptor\<close>: the adaptors between byte-addressed and block-addressed readers and
  writers. \<open>io_reader.go\<close> and \<open>io_read_writer.go\<close> read and write bytes through a block device,
  \<open>block_reader.go\<close> reads and writes blocks through a byte device. The buffer pool \<open>P\<close> is a
  parameter; a writer is a state and the function that writes to it.
\<close>

section \<open>io_reader.go\<close>

text \<open>A zero block size divides by zero, which panics. The slice expressions panic outside the
  buffer's capacity.\<close>

definition Reader_ReadAt :: "'bf bufferpool_ops \<Rightarrow>
    (bytes \<Rightarrow> int \<Rightarrow> (bytes \<times> int \<times> go_error option) option) \<Rightarrow> int \<Rightarrow> bytes \<Rightarrow> int \<Rightarrow>
    (bytes \<times> int \<times> go_error option) option" where
  "Reader_ReadAt P readBlocks blockSize b off =
     (if off < 0 \<or> blockSize = 0 then None
      else if go_mod (int (length b)) blockSize \<noteq> 0 \<or> go_mod off blockSize \<noteq> 0 then
        let startBlock = go_div off blockSize;
            endBlock = go_div (s64 (off + int (length b) + blockSize - 1)) blockSize;
            bufSize = s64 ((endBlock - startBlock) * blockSize);
            readSize = bufSize;
            readBuffer = bp_GetBuffer P (nat readSize);
            avail = bp_AvailableBuffer P readBuffer
        in if readSize < 0 \<or> int (length avail) < readSize then None
           else do {
             (blockBuf, blocksRead, err) \<leftarrow> readBlocks (take (nat readSize) avail) startBlock;
             if err \<noteq> None \<and> err \<noteq> Some EOF then Some (b, 0, err)
             else if blocksRead * blockSize < 0 \<or> blocksRead * blockSize > int (length avail) then None
             else let readBuffer = bp_Write P readBuffer (take (nat (blocksRead * blockSize)) blockBuf);
                      blockOff = go_mod off blockSize;
                      readBuffer = bp_Next P readBuffer (nat blockOff);
                      (d, err) = bp_Read P readBuffer (length b)
                  in Some (d @ drop (length d) b, int (length d), err)
           }
      else
        let blockIndex = go_div off blockSize
        in do {
          (b, count, err) \<leftarrow> readBlocks b blockIndex;
          let n = s64 (count * blockSize);
          Some (b, n, err)
        })"

definition HoleReader_NextData :: "BlockHoleReader \<Rightarrow> int \<Rightarrow> int \<Rightarrow> (int \<times> go_error option) option" where
  "HoleReader_NextData h blockSize off =
     (if off < 0 \<or> blockSize = 0 then None
      else let blockOff = go_div off blockSize
        in do {
          (nextBlock, err) \<leftarrow> NextBlockData h blockOff;
          if nextBlock = blockOff then Some (off, err)
          else Some (s64 (nextBlock * blockSize), err)
        })"

definition HoleReader_NextHole :: "BlockHoleReader \<Rightarrow> int \<Rightarrow> int \<Rightarrow> (int \<times> go_error option) option" where
  "HoleReader_NextHole h blockSize off =
     (if off < 0 \<or> blockSize = 0 then None
      else let blockOff = go_div off blockSize
        in do {
          (nextHole, err) \<leftarrow> NextBlockHole h blockOff;
          if nextHole = blockOff then Some (off, err)
          else Some (s64 (nextHole * blockSize), err)
        })"

definition NewHoleReader :: "'bf bufferpool_ops \<Rightarrow> BlockHoleReader \<Rightarrow> int \<Rightarrow> HoleReaderAt" where
  "NewHoleReader P br blockSize =
     \<lparr>ReadAt = Reader_ReadAt P (ReadBlocks br) blockSize,
      NextData = HoleReader_NextData br blockSize,
      NextHole = HoleReader_NextHole br blockSize\<rparr>"

section \<open>io_read_writer.go\<close>

definition readWriter_WriteAt :: "('w \<Rightarrow> bytes \<Rightarrow> int \<Rightarrow> ('w \<times> int \<times> go_error option) option) \<Rightarrow>
    int \<Rightarrow> 'w \<Rightarrow> bytes \<Rightarrow> int \<Rightarrow> ('w \<times> int \<times> go_error option) option" where
  "readWriter_WriteAt writeBlocks blockSize w b off =
     (if off < 0 \<or> blockSize = 0 then None
      else if go_mod (int (length b)) blockSize \<noteq> 0 then Some (w, 0, Some (Err ''invalid write size''))
      else if go_mod off blockSize \<noteq> 0 then Some (w, 0, Some (Err ''invalid offset''))
      else do {
        (w, count, err) \<leftarrow> writeBlocks w b (go_div off blockSize);
        let n = s64 (count * blockSize);
        Some (w, n, err)
      })"

text \<open>\<open>NewReadWriter\<close> wraps a \<open>BlockReadWriter\<close>; a flush is passed on when it has one.\<close>

record 'w ReadWriterAt =
  rw_ReadAt :: "'w \<Rightarrow> bytes \<Rightarrow> int \<Rightarrow> (bytes \<times> int \<times> go_error option) option"
  rw_WriteAt :: "'w \<Rightarrow> bytes \<Rightarrow> int \<Rightarrow> ('w \<times> int \<times> go_error option) option"
  rw_Flush :: "('w \<Rightarrow> 'w \<times> go_error option) option"

definition NewReadWriter :: "'bf bufferpool_ops \<Rightarrow>
    ('w \<Rightarrow> bytes \<Rightarrow> int \<Rightarrow> (bytes \<times> int \<times> go_error option) option) \<Rightarrow>
    ('w \<Rightarrow> bytes \<Rightarrow> int \<Rightarrow> ('w \<times> int \<times> go_error option) option) \<Rightarrow>
    ('w \<Rightarrow> 'w \<times> go_error option) option \<Rightarrow> int \<Rightarrow> 'w ReadWriterAt" where
  "NewReadWriter P readBlocks writeBlocks flush blockSize =
     \<lparr>rw_ReadAt = (\<lambda>w. Reader_ReadAt P (readBlocks w) blockSize),
      rw_WriteAt = readWriter_WriteAt writeBlocks blockSize,
      rw_Flush = flush\<rparr>"

section \<open>block_reader.go\<close>

definition BlockReader_ReadBlocks :: "HoleReaderAt \<Rightarrow> int \<Rightarrow> bytes \<Rightarrow> int \<Rightarrow>
    (bytes \<times> int \<times> go_error option) option" where
  "BlockReader_ReadBlocks r blockSize buf off =
     (if blockSize = 0 then None
      else if go_mod (int (length buf)) blockSize \<noteq> 0 then Some (buf, 0, Some (Err ''invalid read size''))
      else do {
        (buf, n, err) \<leftarrow> ReadAt r buf (s64 (off * blockSize));
        Some (buf, go_div n blockSize, err)
      })"

definition BlockReader_NextBlockData :: "HoleReaderAt \<Rightarrow> int \<Rightarrow> int \<Rightarrow> (int \<times> go_error option) option" where
  "BlockReader_NextBlockData r blockSize off =
     (if blockSize = 0 then None
      else do {
        (nextOff, err) \<leftarrow> NextData r (s64 (off * blockSize));
        Some (go_div nextOff blockSize, err)
      })"

definition BlockReader_NextBlockHole :: "HoleReaderAt \<Rightarrow> int \<Rightarrow> int \<Rightarrow> (int \<times> go_error option) option" where
  "BlockReader_NextBlockHole r blockSize off =
     (if blockSize = 0 then None
      else do {
        (nextOff, err) \<leftarrow> NextHole r (s64 (off * blockSize));
        Some (go_div nextOff blockSize, err)
      })"

definition NewBlockReader :: "HoleReaderAt \<Rightarrow> int \<Rightarrow> BlockHoleReader" where
  "NewBlockReader r blockSize =
     \<lparr>ReadBlocks = BlockReader_ReadBlocks r blockSize,
      NextBlockData = BlockReader_NextBlockData r blockSize,
      NextBlockHole = BlockReader_NextBlockHole r blockSize\<rparr>"

definition BlockReadWriter_WriteBlocks :: "('w \<Rightarrow> bytes \<Rightarrow> int \<Rightarrow> ('w \<times> int \<times> go_error option) option) \<Rightarrow>
    int \<Rightarrow> 'w \<Rightarrow> bytes \<Rightarrow> int \<Rightarrow> ('w \<times> int \<times> go_error option) option" where
  "BlockReadWriter_WriteBlocks writeAt blockSize w buf off =
     (if blockSize = 0 then None
      else if go_mod (int (length buf)) blockSize \<noteq> 0 then Some (w, 0, Some (Err ''invalid write size''))
      else do {
        (w, n, err) \<leftarrow> writeAt w buf (s64 (off * blockSize));
        Some (w, go_div n blockSize, err)
      })"

section \<open>Content by bytes and by blocks\<close>

definition to_blocks :: "nat \<Rightarrow> (nat \<rightharpoonup> byte) \<Rightarrow> nat \<rightharpoonup> bytes" where
  "to_blocks bs c i = (if c (i * bs) = None then None else Some (read_data c (i * bs) bs))"

definition to_bytes :: "nat \<Rightarrow> (nat \<rightharpoonup> bytes) \<Rightarrow> nat \<rightharpoonup> byte" where
  "to_bytes bs c k = map_option (\<lambda>b. b ! (k mod bs)) (c (k div bs))"

text \<open>A content of whole blocks.\<close>

definition block_aligned :: "nat \<Rightarrow> (nat \<rightharpoonup> 'a) \<Rightarrow> bool" where
  "block_aligned bs c \<longleftrightarrow> (\<forall>k. c k = None \<longleftrightarrow> c (k div bs * bs) = None)"


lemma concat_read_data_Suc: "concat (read_data c k (Suc n)) = concat (read_data c k n) @ the (c (k + n))"
  by (simp add: read_data_def)

lemma concat_to_blocks:
  assumes "all_data (to_blocks bs c) k n"
  shows "concat (read_data (to_blocks bs c) k n) = read_data c (k * bs) (n * bs)"
  using assms
proof (induction n)
  case (Suc n)
  then have IH: "concat (read_data (to_blocks bs c) k n) = read_data c (k * bs) (n * bs)"
    by (simp add: all_data_def)
  have "to_blocks bs c (k + n) \<noteq> None" using Suc.prems by (simp add: all_data_def)
  then have "the (to_blocks bs c (k + n)) = read_data c ((k + n) * bs) bs"
    by (auto simp: to_blocks_def split: if_splits)
  then show ?case
    unfolding concat_read_data_Suc IH
    using read_data_append [of c "k * bs" "n * bs" bs] by (simp add: algebra_simps)
qed (simp add: read_data_def)

lemma all_data_blocks:
  assumes "block_aligned bs c" "0 < bs"
  shows "all_data (to_blocks bs c) k n \<longleftrightarrow> all_data c (k * bs) (n * bs)"
proof
  assume a: "all_data (to_blocks bs c) k n"
  have "c (k * bs + i) \<noteq> None" if "i < n * bs" for i
  proof -
    have "i div bs < n" using that by (simp add: less_mult_imp_div_less)
    with a have "c ((k + i div bs) * bs) \<noteq> None" by (auto simp: all_data_def to_blocks_def split: if_splits)
    moreover have "(k * bs + i) div bs * bs = (k + i div bs) * bs" using assms(2) by simp
    ultimately show ?thesis using assms(1) unfolding block_aligned_def by metis
  qed
  then show "all_data c (k * bs) (n * bs)" by (simp add: all_data_def)
next
  assume a: "all_data c (k * bs) (n * bs)"
  have "c ((k + i) * bs) \<noteq> None" if "i < n" for i
  proof -
    have "i * bs < n * bs" using that assms(2) by simp
    with a have "c (k * bs + i * bs) \<noteq> None" unfolding all_data_def by blast
    then show ?thesis by (simp add: algebra_simps)
  qed
  then show "all_data (to_blocks bs c) k n" by (fastforce simp: all_data_def to_blocks_def)
qed

lemma next_data_blocks:
  assumes al: "block_aligned bs c" and bs: "0 < bs"
  shows "next_data c (k * bs) = map_option (\<lambda>j. j * bs) (next_data (to_blocks bs c) k)"
proof (cases "next_data (to_blocks bs c) k")
  case None
  have "c j = None" if "k * bs \<le> j" for j
  proof -
    have "k \<le> j div bs" using that bs by (simp add: less_eq_div_iff_mult_less_eq)
    with None have "c (j div bs * bs) = None" by (auto simp: next_data_None to_blocks_def split: if_splits)
    with al show ?thesis unfolding block_aligned_def by metis
  qed
  then have "next_data c (k * bs) = None" by (simp add: next_data_None)
  with None show ?thesis by simp
next
  case (Some j)
  then have j: "k \<le> j" "c (j * bs) \<noteq> None" and first: "\<And>i. k \<le> i \<Longrightarrow> i < j \<Longrightarrow> c (i * bs) = None"
    unfolding next_data_Some by (auto simp: to_blocks_def split: if_splits)
  have "c i = None" if "k * bs \<le> i" "i < j * bs" for i
  proof -
    have "k \<le> i div bs" "i div bs < j" using that bs
      by (simp_all add: less_eq_div_iff_mult_less_eq div_less_iff_less_mult)
    from first [OF this] al show ?thesis unfolding block_aligned_def by metis
  qed
  with j have "next_data c (k * bs) = Some (j * bs)" unfolding next_data_Some by simp
  with Some show ?thesis by simp
qed

lemma next_hole_blocks:
  assumes al: "block_aligned bs c" and bs: "0 < bs" and bd: "\<forall>k. c k \<noteq> None \<longrightarrow> k < b"
  shows "next_hole c (k * bs) = next_hole (to_blocks bs c) k * bs"
proof -
  let ?h = "next_hole (to_blocks bs c) k"
  have "\<forall>j. to_blocks bs c j \<noteq> None \<longrightarrow> j < b"
  proof (intro allI impI)
    fix j assume that: "to_blocks bs c j \<noteq> None"
    have "j * bs < b" using bd [THEN spec, of "j * bs"] that by (auto simp: to_blocks_def split: if_splits)
    then show "j < b" using le_mult_pos [OF bs, of j] by linarith
  qed
  from next_hole_eq [of "to_blocks bs c" b k ?h, OF this]
  have h: "k \<le> ?h" "c (?h * bs) = None" and all: "\<And>i. k \<le> i \<Longrightarrow> i < ?h \<Longrightarrow> c (i * bs) \<noteq> None"
    by (auto simp: to_blocks_def split: if_splits)
  have "c i \<noteq> None" if "k * bs \<le> i" "i < ?h * bs" for i
  proof -
    have "k \<le> i div bs" "i div bs < ?h" using that bs
      by (simp_all add: less_eq_div_iff_mult_less_eq div_less_iff_less_mult)
    from all [OF this] al show ?thesis unfolding block_aligned_def by metis
  qed
  with h show ?thesis
    unfolding next_hole_eq [of c b "k * bs" "?h * bs", OF bd] by simp
qed

lemma to_bytes_to_blocks:
  assumes "block_aligned bs c" "0 < bs"
  shows "to_bytes bs (to_blocks bs c) = c"
proof
  fix k
  have "c k = None \<longleftrightarrow> c (k div bs * bs) = None" using assms(1) unfolding block_aligned_def by blast
  then show "to_bytes bs (to_blocks bs c) k = c k"
    using assms(2) by (auto simp: to_bytes_def to_blocks_def nth_read_data)
qed

lemma to_bytes_aligned: "0 < bs \<Longrightarrow> block_aligned bs (to_bytes bs c)"
  by (simp add: block_aligned_def to_bytes_def)

lemma to_blocks_to_bytes:
  assumes "0 < bs" "\<And>i b. c i = Some b \<Longrightarrow> length b = bs"
  shows "to_blocks bs (to_bytes bs c) = c"
proof
  fix i
  have "read_data (to_bytes bs c) (i * bs) bs = b" if "c i = Some b" for b
    using that assms by (intro nth_equalityI) (auto simp: nth_read_data to_bytes_def div_mult_self3)
  then show "to_blocks bs (to_bytes bs c) i = c i"
    using assms(1) by (auto simp: to_blocks_def to_bytes_def)
qed

section \<open>Blocks over bytes\<close>

lemma s64_mult: "k * bs \<le> max_off \<Longrightarrow> s64 (int k * int bs) = int (k * bs)"
  by (subst s64_id) (simp_all flip: of_nat_mult)

lemma go_div_mult: "0 < bs \<Longrightarrow> go_div (int (j * bs)) (int bs) = int j"
  by (simp add: go_div_nonneg)

lemma go_mod_mult: "0 < bs \<Longrightarrow> go_mod (int (n * bs)) (int bs) = 0"
  by (simp add: go_mod_nonneg)

locale aligned_hole_reader = hole_reader_at +
  fixes bs :: nat
  assumes bs_positive: "0 < bs" and aligned: "block_aligned bs c"

sublocale aligned_hole_reader \<subseteq> blk: block_hole_reader bs "NewBlockReader R (int bs)" "to_blocks bs c"
proof (unfold_locales, goal_cases)
  case 1 show ?case by (rule bs_positive)
next
  case 2 then show ?case by (auto simp: to_blocks_def split: if_splits)
next
  case (3 i)
  then have "c (i * bs) \<noteq> None" by (auto simp: to_blocks_def split: if_splits)
  moreover have "(i * bs + (bs - 1)) div bs = i"
    using bs_positive by (intro div_nat_eqI) (simp_all add: algebra_simps)
  ultimately have "c (i * bs + (bs - 1)) \<noteq> None" using aligned unfolding block_aligned_def by metis
  from byte_bounded [OF this] bs_positive show ?case by simp
next
  case (4 k j)
  then have "NextData R (int (k * bs)) = Some (int (j * bs), None)"
    using next_data_blocks [OF aligned bs_positive, of k] by (intro NextData_ok) simp_all
  with 4 bs_positive show ?case
    by (simp add: NewBlockReader_def BlockReader_NextBlockData_def s64_mult go_div_mult del: of_nat_mult)
next
  case (5 k)
  then obtain e where "NextData R (int (k * bs)) = Some (e, Some EOF)"
    using next_data_blocks [OF aligned bs_positive, of k] NextData_end [of "k * bs"] by auto
  with 5 bs_positive show ?case
    by (simp add: NewBlockReader_def BlockReader_NextBlockData_def s64_mult del: of_nat_mult)
next
  case (6 k)
  then have "NextHole R (int (k * bs)) = Some (int (next_hole (to_blocks bs c) k * bs), None)"
    using next_hole_blocks [OF aligned bs_positive, of max_off k] byte_bounded NextHole_ok [of "k * bs"] by simp
  with 6 bs_positive show ?case
    by (simp add: NewBlockReader_def BlockReader_NextBlockHole_def s64_mult go_div_mult del: of_nat_mult)
next
  case (7 n k buf)
  then have data: "all_data c (k * bs) (length buf)" "buf \<noteq> []"
    using all_data_blocks [OF aligned bs_positive] bs_positive by auto
  then have "c (k * bs) \<noteq> None" unfolding all_data_def by (metis add.right_neutral length_greater_0_conv)
  from byte_bounded [OF this] have "k * bs \<le> max_off" by simp
  with 7 ReadAt_ok [OF data(2,1)] bs_positive concat_to_blocks [OF 7(2)] show ?case
    by (simp add: NewBlockReader_def BlockReader_ReadBlocks_def s64_mult go_div_mult go_mod_mult del: of_nat_mult)
qed

section \<open>Bytes over blocks\<close>

lemma to_bytes_None: "to_bytes bs c k = None \<longleftrightarrow> c (k div bs) = None"
  by (simp add: to_bytes_def)

lemma block_of: "0 < bs \<Longrightarrow> k div bs * bs \<le> k" "0 < bs \<Longrightarrow> k < Suc (k div bs) * (bs :: nat)"
  using div_mult_mod_eq [of k bs] mod_less_divisor [of bs k] by (simp_all, linarith)

lemma next_data_bytes:
  assumes "0 < bs"
  shows "next_data (to_bytes bs c) k =
    (if c (k div bs) \<noteq> None then Some k else map_option (\<lambda>j. j * bs) (next_data c (k div bs)))"
proof (cases "c (k div bs) = None")
  case False
  then have "next_data (to_bytes bs c) k = Some k"
    unfolding next_data_Some to_bytes_None by auto
  with False show ?thesis by simp
next
  case True
  show ?thesis
  proof (cases "next_data c (k div bs)")
    case None
    then have "next_data (to_bytes bs c) k = None"
      unfolding next_data_None to_bytes_None by (simp add: div_le_mono)
    with True None show ?thesis by simp
  next
    case (Some j)
    then have j: "k div bs \<le> j" "c j \<noteq> None" "\<And>i. k div bs \<le> i \<Longrightarrow> i < j \<Longrightarrow> c i = None"
      unfolding next_data_Some by auto
    with True have lt: "k div bs < j" by (metis le_neq_implies_less)
    have "next_data (to_bytes bs c) k = Some (j * bs)"
      unfolding next_data_Some to_bytes_None
    proof (intro conjI allI impI)
      show "k \<le> j * bs" using lt block_of(2) [OF assms, of k]
        by (metis Suc_leI less_imp_le_nat mult_le_mono1 order_less_le_trans)
      show "c (j * bs div bs) \<noteq> None" using j(2) assms by simp
    next
      fix i assume "k \<le> i" "i < j * bs"
      then show "c (i div bs) = None"
        using assms by (intro j(3) div_le_mono) (simp_all add: div_less_iff_less_mult)
    qed
    with True Some show ?thesis by simp
  qed
qed

lemma drop_take_read_data: "d + n \<le> m \<Longrightarrow> take n (drop d (read_data c k m)) = read_data c (k + d) n"
  by (intro nth_equalityI) (auto simp: nth_read_data add.assoc)

lemma round_up:
  assumes "0 < (bs :: nat)" "0 < n"
  shows "k div bs < (k + n + bs - 1) div bs" "k + n \<le> (k + n + bs - 1) div bs * bs"
    and "i < (k + n + bs - 1) div bs \<Longrightarrow> i * bs < k + n"
proof -
  let ?e = "(k + n + bs - 1) div bs"
  show up: "k + n \<le> ?e * bs" using block_of(2) [OF assms(1), of "k + n + bs - 1"] assms by simp
  then have "k < ?e * bs" using assms(2) by linarith
  then show "k div bs < ?e" using assms(1) by (simp add: div_less_iff_less_mult)
  assume "i < ?e"
  then have "Suc i * bs \<le> k + n + bs - 1"
    using block_of(1) [OF assms(1), of "k + n + bs - 1"] by (metis Suc_leI le_trans mult_le_mono1)
  then show "i * bs < k + n" using assms by simp
qed

context bufferpool
begin

text \<open>What an unaligned \<open>ReadAt\<close> does with the blocks it gets.\<close>

lemma unaligned_eval:
  assumes bs: "0 < bs" and L: "0 < length buf" and un: "length buf mod bs \<noteq> 0 \<or> k mod bs \<noteq> 0"
    and e: "e = (k + length buf + bs - 1) div bs" and n: "n = e - k div bs"
    and bound: "Suc e * bs \<le> max_off"
    and rd: "readBlocks (take (n * bs) (bp_AvailableBuffer P (bp_GetBuffer P (n * bs)))) (int (k div bs)) =
      Some (blk, int m, err)" and len: "length blk = n * bs" and m: "m \<le> n"
    and err: "err = None \<or> err = Some EOF" and some: "k mod bs < m * bs"
  shows "Reader_ReadAt P readBlocks (int bs) buf (int k) =
    (let d = take (length buf) (drop (k mod bs) (take (m * bs) blk))
     in Some (d @ drop (length d) buf, int (length d), None))"
proof -
  let ?L = "length buf" and ?s = "k div bs"
  note up = round_up [OF bs L, of k, folded e]
  have b1: "k + ?L + bs - 1 \<le> max_off" "n * bs \<le> max_off"
    using up(2) n bound by (auto simp: algebra_simps diff_mult_distrib intro: order_trans)
  have s1: "s64 (int k + int ?L + int bs - 1) = int (k + ?L + bs - 1)"
    using b1(1) bs by (subst s64_id) (auto simp: of_nat_diff)
  have ge: "go_div (int (k + ?L + bs - 1)) (int bs) = int e" "go_div (int k) (int bs) = int ?s"
    using bs by (simp_all add: go_div_nonneg e zdiv_int)
  have sz: "s64 ((int e - int ?s) * int bs) = int (n * bs)"
    using b1(2) up(1) n s64_mult [of n bs] by (simp add: of_nat_diff)
  have gm: "go_mod (int ?L) (int bs) \<noteq> 0 \<or> go_mod (int k) (int bs) \<noteq> 0" "go_mod (int k) (int bs) = int (k mod bs)"
    using un bs by (simp_all add: go_mod_nonneg zmod_int [symmetric])
  let ?b = "bp_GetBuffer P (n * bs)"
  have cap: "n * bs \<le> length (bp_AvailableBuffer P ?b)" by (rule bp_capacity)
  have "m * bs \<le> n * bs" using m by simp
  with cap have cap': "m * bs \<le> length (bp_AvailableBuffer P ?b)" by linarith
  let ?q = "bp_Next P (bp_Write P ?b (take (m * bs) blk)) (k mod bs)"
  have q: "cont ?q = drop (k mod bs) (take (m * bs) blk)"
    by (simp add: bp_next bp_write bp_get)
  then have "cont ?q \<noteq> []" using some len \<open>m * bs \<le> n * bs\<close> by simp
  from bp_read [OF this, of ?L]
  have "bp_Read P ?q ?L = (take ?L (drop (k mod bs) (take (m * bs) blk)), None)" unfolding q .
  with gm bs cap cap' rd err show ?thesis
    unfolding Reader_ReadAt_def Let_def s1 ge sz by (auto simp flip: of_nat_mult)
qed

end

locale pooled_block_reader = block_hole_reader bs R c + bufferpool P cont
  for bs :: nat and R :: BlockHoleReader and c :: "nat \<rightharpoonup> bytes"
    and P :: "'bf bufferpool_ops" and cont :: "'bf \<Rightarrow> bytes" +
  assumes slack: "c i \<noteq> None \<Longrightarrow> Suc (Suc i) * bs \<le> max_off"
begin

lemma next_hole_bytes:
  "next_hole (to_bytes bs c) k = (if c (k div bs) = None then k else next_hole c (k div bs) * bs)"
proof -
  have bd: "\<forall>j. to_bytes bs c j \<noteq> None \<longrightarrow> j < max_off"
    using block_bounded block_of(2) [OF bs_pos] unfolding to_bytes_None by (meson less_le_trans)
  note eq = next_hole_eq [of "to_bytes bs c" max_off k, OF bd, unfolded to_bytes_None]
  show ?thesis
  proof (cases "c (k div bs) = None")
    case True
    then have "next_hole (to_bytes bs c) k = k" unfolding eq by auto
    with True show ?thesis by simp
  next
    case False
    let ?h = "next_hole c (k div bs)"
    have h: "k div bs \<le> ?h" "c ?h = None" "\<And>i. k div bs \<le> i \<Longrightarrow> i < ?h \<Longrightarrow> c i \<noteq> None"
      using hole_eq [of "k div bs" ?h] by auto
    with False have lt: "k div bs < ?h" by (metis le_neq_implies_less)
    have "next_hole (to_bytes bs c) k = ?h * bs"
      unfolding eq
    proof (intro conjI allI impI)
      show "k \<le> ?h * bs" using lt block_of(2) [OF bs_pos, of k]
        by (metis Suc_leI less_imp_le_nat mult_le_mono1 order_less_le_trans)
      show "c (?h * bs div bs) = None" using h(2) bs_pos by simp
    next
      fix i assume "k \<le> i" "i < ?h * bs"
      then show "c (i div bs) \<noteq> None"
        using bs_pos by (intro h(3) div_le_mono) (simp_all add: div_less_iff_less_mult)
    qed
    with False show ?thesis by auto
  qed
qed

lemma concat_to_bytes:
  assumes "all_data c k n"
  shows "concat (read_data c k n) = read_data (to_bytes bs c) (k * bs) (n * bs)"
proof -
  have b: "to_blocks bs (to_bytes bs c) = c" by (rule to_blocks_to_bytes [OF bs_pos block_len])
  show ?thesis using concat_to_blocks [of bs "to_bytes bs c" k n] assms unfolding b by simp
qed

lemma all_data_bytes:
  assumes "all_data (to_bytes bs c) k n" "0 < n" "e = (k + n + bs - 1) div bs"
  shows "all_data c (k div bs) (e - k div bs)"
  unfolding all_data_def
proof (intro allI impI)
  fix i assume i: "i < e - k div bs"
  let ?j = "max k ((k div bs + i) * bs)"
  have "(k div bs + i) * bs < k + n" using round_up(3) [OF bs_pos assms(2), of "k div bs + i" k] i assms(3) by simp
  then have "?j - k < n" using assms(2) by auto
  with assms(1) have "to_bytes bs c (k + (?j - k)) \<noteq> None" unfolding all_data_def by blast
  then have "c (?j div bs) \<noteq> None" unfolding to_bytes_None by simp
  moreover have "?j div bs = k div bs + i"
  proof (cases "i = 0")
    case True
    then show ?thesis using block_of(1) [OF bs_pos, of k] by (simp add: max_absorb1)
  next
    case False
    then have "Suc (k div bs) * bs \<le> (k div bs + i) * bs" by (intro mult_le_mono1) simp
    then have "?j = (k div bs + i) * bs" using block_of(2) [OF bs_pos, of k] by simp
    then show ?thesis using bs_pos by simp
  qed
  ultimately show "c (k div bs + i) \<noteq> None" by simp
qed


lemma unaligned_read:
  assumes data: "all_data (to_bytes bs c) k (length buf)" and ne: "buf \<noteq> []"
    and un: "length buf mod bs \<noteq> 0 \<or> k mod bs \<noteq> 0"
  shows "Reader_ReadAt P (ReadBlocks R) (int bs) buf (int k) =
    Some (read_data (to_bytes bs c) k (length buf), int (length buf), None)"
proof -
  let ?L = "length buf" and ?s = "k div bs"
  define e where e: "e = (k + ?L + bs - 1) div bs"
  define n where n: "n = e - ?s"
  have L: "0 < ?L" using ne by simp
  note up = round_up [OF bs_pos L, of k, folded e]
  have cd: "all_data c ?s n" unfolding n by (rule all_data_bytes [OF data L e])
  have np: "0 < n" using up(1) n by simp
  then have "n - 1 < n" by simp
  with cd have "c (?s + (n - 1)) \<noteq> None" unfolding all_data_def by blast
  from slack [OF this] have bound: "Suc e * bs \<le> max_off" using np up(1) n by simp
  let ?b = "bp_GetBuffer P (n * bs)"
  have rd: "ReadBlocks R (take (n * bs) (bp_AvailableBuffer P ?b)) (int ?s) =
      Some (concat (read_data c ?s n), int n, None)"
    using bp_capacity [of "n * bs"] by (intro ReadBlocks_ok np cd) simp
  have len: "length (concat (read_data c ?s n)) = n * bs" by (rule length_blocks [OF cd])
  have "n * bs = e * bs - ?s * bs" by (simp add: n diff_mult_distrib)
  then have fits: "k mod bs + ?L \<le> n * bs" using up(2) div_mult_mod_eq [of k bs] by linarith
  have "k mod bs < n * bs" using fits L by linarith
  moreover have "take ?L (drop (k mod bs) (concat (read_data c ?s n))) = read_data (to_bytes bs c) k ?L"
    unfolding concat_to_bytes [OF cd]
    using drop_take_read_data [OF fits, of "to_bytes bs c" "?s * bs"] by simp
  ultimately show ?thesis
    using unaligned_eval [where readBlocks = "ReadBlocks R", OF bs_pos L un e n bound rd len order_refl] len by simp
qed

lemma aligned_read:
  assumes data: "all_data (to_bytes bs c) k (length buf)" and ne: "buf \<noteq> []"
    and al: "length buf mod bs = 0" "k mod bs = 0"
  shows "Reader_ReadAt P (ReadBlocks R) (int bs) buf (int k) =
    Some (read_data (to_bytes bs c) k (length buf), int (length buf), None)"
proof -
  define n where n: "n = length buf div bs"
  have len: "length buf = n * bs" and k: "k div bs * bs = k" using al by (auto simp: n)
  have np: "0 < n" using len ne by (cases n) auto
  have cd: "all_data c (k div bs) n"
    using all_data_blocks [OF to_bytes_aligned [OF bs_pos] bs_pos, of c "k div bs" n] data k len
      to_blocks_to_bytes [OF bs_pos block_len] by simp
  have "n - 1 < n" using np by simp
  with cd have "c (k div bs + (n - 1)) \<noteq> None" unfolding all_data_def by blast
  from block_bounded [OF this] np have "n * bs \<le> max_off" by (simp add: algebra_simps)
  moreover have "concat (read_data c (k div bs) n) = read_data (to_bytes bs c) k (n * bs)"
    using concat_to_bytes [OF cd] k by simp
  ultimately show ?thesis
    using ReadBlocks_ok [OF np cd len] bs_pos len al
    by (simp add: Reader_ReadAt_def go_mod_nonneg go_div_nonneg s64_mult zdiv_int zmod_int [symmetric])
qed

end

sublocale pooled_block_reader \<subseteq> byt: hole_reader_at "NewHoleReader P R (int bs)" "to_bytes bs c"
proof (unfold_locales, goal_cases)
  case (1 k)
  then have "Suc (k div bs) * bs \<le> max_off" by (intro block_bounded) (simp add: to_bytes_None)
  with block_of(2) [OF bs_pos, of k] show ?case by linarith
next
  case (2 k j)
  have k: "k div bs * bs \<le> max_off" using block_of(1) [OF bs_pos, of k] 2(1) by linarith
  show ?case
  proof (cases "c (k div bs) = None")
    case False
    then have "next_data c (k div bs) = Some (k div bs)" unfolding next_data_Some by auto
    from NextBlockData_ok [OF k this] False 2(2) bs_pos show ?thesis
      by (simp add: NewHoleReader_def HoleReader_NextData_def go_div_nonneg next_data_bytes zdiv_int)
  next
    case True
    with 2(2) obtain b where b: "next_data c (k div bs) = Some b" "j = b * bs"
      by (auto simp: next_data_bytes [OF bs_pos])
    then have "c b \<noteq> None" "b \<noteq> k div bs" using True unfolding next_data_Some by auto
    with block_bounded [of b] have "b * bs \<le> max_off" by simp
    with NextBlockData_ok [OF k b(1)] b(2) bs_pos \<open>b \<noteq> k div bs\<close> show ?thesis
      by (simp add: NewHoleReader_def HoleReader_NextData_def go_div_nonneg s64_mult zdiv_int [symmetric])
  qed
next
  case (3 k)
  have k: "k div bs * bs \<le> max_off" using block_of(1) [OF bs_pos, of k] 3(1) by linarith
  from 3(2) have "next_data c (k div bs) = None"
    by (simp add: next_data_bytes [OF bs_pos] split: if_splits)
  from NextBlockData_end [OF k this] bs_pos show ?case
    by (auto simp: NewHoleReader_def HoleReader_NextData_def go_div_nonneg zdiv_int [symmetric])
next
  case (4 k)
  have k: "k div bs * bs \<le> max_off" using block_of(1) [OF bs_pos, of k] 4 by linarith
  have "next_hole c (k div bs) = k div bs \<longleftrightarrow> c (k div bs) = None" unfolding hole_eq by auto
  with NextBlockHole_ok [OF k] hole_bound [OF k] bs_pos show ?case
    by (auto simp: NewHoleReader_def HoleReader_NextHole_def go_div_nonneg next_hole_bytes s64_mult
        zdiv_int [symmetric])
next
  case (5 buf k)
  then show ?case
    using aligned_read [of k buf] unaligned_read [of k buf] by (auto simp: NewHoleReader_def)
qed

context aligned_hole_reader
begin

lemmas as_block_reader = blk.block_hole_reader_axioms

end

context pooled_block_reader
begin

lemmas as_hole_reader = byt.hole_reader_at_axioms

end

lemma mem_aligned:
  assumes "0 < bs" "length xs mod bs = 0"
  shows "block_aligned bs (mem_content xs)"
proof -
  define q where "q = length xs div bs"
  have "length xs = q * bs" using assms(2) by (auto simp: q_def)
  moreover have "k div bs * bs < q * bs \<longleftrightarrow> k < q * bs" for k
    using assms(1) by (simp add: div_less_iff_less_mult)
  ultimately show ?thesis by (simp add: block_aligned_def mem_content_def)
qed

text \<open>The adaptors over a byte slice.\<close>

interpretation ram: aligned_hole_reader "mem_reader [1, 2, 3, 4]" "mem_content [1, 2, 3, 4]" 2
  using mem_reader_ok [of "[1, 2, 3, 4]"] mem_aligned [of 2 "[1, 2, 3, 4] :: bytes"]
  by (simp add: aligned_hole_reader_def aligned_hole_reader_axioms_def)

interpretation ram_bytes: pooled_block_reader 2 "NewBlockReader (mem_reader [1, 2, 3, 4]) (int 2)"
  "to_blocks 2 (mem_content [1, 2, 3, 4])" list_pool snd
  by unfold_locales (auto simp: to_blocks_def mem_content_def split: if_splits)

section \<open>Properties\<close>

text \<open>C25. The block adaptor: over any byte reader whose content comes in whole blocks, \<open>NextBlockData\<close>,
  \<open>NextBlockHole\<close> and \<open>ReadBlocks\<close> scan and read exactly those blocks.\<close>

theorem NewBlockReader_refines:
  assumes "hole_reader_at R c" "block_aligned bs c" "0 < bs"
  shows "block_hole_reader bs (NewBlockReader R (int bs)) (to_blocks bs c)"
  by (rule aligned_hole_reader.as_block_reader)
    (simp add: aligned_hole_reader_def aligned_hole_reader_axioms_def assms)

theorem NewBlockReader_refines_witness:
  "block_hole_reader 2 (NewBlockReader (mem_reader [1, 2, 3, 4]) 2) (to_blocks 2 (mem_content [1, 2, 3, 4]))"
proof -
  have "block_aligned 2 (mem_content ([1, 2, 3, 4] :: bytes))"
    by (rule mem_aligned) simp_all
  then show ?thesis
    using NewBlockReader_refines [of "mem_reader [1, 2, 3, 4]" "mem_content [1, 2, 3, 4]" 2]
      mem_reader_ok [of "[1, 2, 3, 4]"] by simp
qed

text \<open>C26. The byte adaptor: over any block reader, \<open>NextData\<close>, \<open>NextHole\<close> and \<open>ReadAt\<close>, at aligned
  and unaligned offsets and lengths, scan and read exactly the bytes of its blocks. The last block
  leaves room for the rounding of the end offset in an \<open>int64\<close>.\<close>

theorem NewHoleReader_refines:
  assumes "block_hole_reader bs R c" "bufferpool P cont"
    and "\<And>i. c i \<noteq> None \<Longrightarrow> Suc (Suc i) * bs \<le> max_off"
  shows "hole_reader_at (NewHoleReader P R (int bs)) (to_bytes bs c)"
  by (rule pooled_block_reader.as_hole_reader [where cont = cont],
      unfold pooled_block_reader_def pooled_block_reader_axioms_def) (use assms in blast)

theorem NewHoleReader_refines_witness:
  "hole_reader_at (NewHoleReader list_pool (NewBlockReader (mem_reader [1, 2, 3, 4]) 2) 2)
     (to_bytes 2 (to_blocks 2 (mem_content [1, 2, 3, 4])))"
proof -
  have al: "block_aligned 2 (mem_content ([1, 2, 3, 4] :: bytes))"
    by (rule mem_aligned) simp_all
  have "block_hole_reader 2 (NewBlockReader (mem_reader [1, 2, 3, 4]) (int 2)) (to_blocks 2 (mem_content [1, 2, 3, 4]))"
    by (rule aligned_hole_reader.as_block_reader)
      (simp add: aligned_hole_reader_def aligned_hole_reader_axioms_def al mem_reader_ok)
  moreover have "Suc (Suc i) * 2 \<le> max_off" if "to_blocks 2 (mem_content ([1, 2, 3, 4] :: bytes)) i \<noteq> None" for i
    using that by (auto simp: to_blocks_def mem_content_def split: if_splits)
  ultimately show ?thesis
    using NewHoleReader_refines [of 2 "NewBlockReader (mem_reader [1, 2, 3, 4]) (int 2)"
        "to_blocks 2 (mem_content [1, 2, 3, 4])" list_pool snd] list_pool.bufferpool_axioms by simp
qed

text \<open>C29. An unaligned \<open>ReadAt\<close> that meets the end of the device returns fewer bytes than asked with a
  nil error: the end-of-file of the block read is dropped, where \<open>io.ReaderAt\<close> asks for a non-nil
  error on a short read.\<close>

theorem unaligned_short_read_no_error:
  assumes "bufferpool P cont" "0 < bs" "buf \<noteq> []" "length buf mod bs \<noteq> 0 \<or> k mod bs \<noteq> 0"
    and "n = (k + length buf + bs - 1) div bs - k div bs"
    and "Suc ((k + length buf + bs - 1) div bs) * bs \<le> max_off"
    and "\<And>b. length b = n * bs \<Longrightarrow> readBlocks b (int (k div bs)) = Some (blk, int m, Some EOF)"
    and "length blk = n * bs" "m \<le> n" "k mod bs < m * bs" "m * bs < k mod bs + length buf"
  shows "\<exists>buf'. Reader_ReadAt P readBlocks (int bs) buf (int k) =
    Some (buf', int (m * bs - k mod bs), None) \<and> m * bs - k mod bs < length buf"
proof -
  have L: "0 < length buf" using assms(3) by simp
  have rd: "readBlocks (take (n * bs) (bp_AvailableBuffer P (bp_GetBuffer P (n * bs)))) (int (k div bs)) =
      Some (blk, int m, Some EOF)"
    using bufferpool.bp_capacity [OF assms(1), of "n * bs"] by (intro assms(7)) simp
  have "m * bs \<le> length blk" using assms(8,9) by simp
  with bufferpool.unaligned_eval [where readBlocks = readBlocks, OF assms(1,2) L assms(4) refl assms(5,6) rd assms(8,9) _ assms(10)] assms(10,11)
  show ?thesis by (auto simp: Let_def min_def)
qed

theorem unaligned_short_read_no_error_witness:
  "\<exists>buf'. Reader_ReadAt list_pool (\<lambda>b _. Some (replicate 4 7, 1, Some EOF)) 2 [0, 0, 0] 1 =
    Some (buf', 1, None)"
  using unaligned_short_read_no_error [where P = list_pool and cont = snd and bs = 2 and buf = "[0, 0, 0]"
      and k = 1 and n = 2 and m = 1 and blk = "replicate 4 7"
      and readBlocks = "\<lambda>b _. Some (replicate 4 7, 1, Some EOF)", OF list_pool.bufferpool_axioms]
  by simp



end
