(* ===== verification/Stacked_Reader.thy ===== *)
theory Stacked_Reader
  imports Adaptors
begin

text \<open>
  \<open>internal/readers/stacked_block_reader.go\<close>: a read through a stack of block readers, the newest
  first. A block comes from the first reader of the stack that has it, and is zero when none has.
\<close>

section \<open>Operations\<close>

record StackedBlockReader =
  sbr_rs :: "BlockHoleReader list"
  sbr_blockSize :: int
  sbr_numBlocks :: int

definition NewStackedBlockReader :: "BlockHoleReader list \<Rightarrow> int \<Rightarrow> int \<Rightarrow> StackedBlockReader" where
  "NewStackedBlockReader rs blockSize numBlocks =
     \<lparr>sbr_rs = rs, sbr_blockSize = blockSize, sbr_numBlocks = numBlocks\<rparr>"

definition StackedBlockReader_Size :: "StackedBlockReader \<Rightarrow> int" where
  "StackedBlockReader_Size r = s64 (sbr_blockSize r * sbr_numBlocks r)"

text \<open>The part of the loop body that reads from the top reader up to its next hole. \<open>Inl\<close> is a
  return from the function (the \<open>break\<close> included), \<open>Inr\<close> goes on with what is left of the buffer.\<close>

definition read_top :: "int \<Rightarrow> BlockHoleReader \<Rightarrow> bytes \<Rightarrow> int \<Rightarrow> int \<Rightarrow> int \<Rightarrow>
    ((bytes \<times> int \<times> go_error option) + (bytes \<times> bytes \<times> int \<times> int)) option" where
  "read_top bs tr p off blocksRead nextHole =
     (if nextHole > off then
        let readLen = (if go_div (int (length p)) bs > nextHole - off
              then (nextHole - off) * bs else int (length p));
            readBlocks = go_div readLen bs
        in do {
          (q, n, err) \<leftarrow> ReadBlocks tr (take (nat readLen) p) off;
          if n * bs < 0 \<or> n * bs > int (length p) then None
          else let p = q @ drop (nat readLen) p;
                   front = take (nat (n * bs)) p;
                   p' = drop (nat (n * bs)) p;
                   err = (if err = Some EOF \<and> n = readBlocks then None else err)
               in if err \<noteq> None then Some (Inl (p, n, err))
                  else if n \<noteq> readBlocks then None
                  else if p' = [] then Some (Inl (p, blocksRead + n, None))
                  else Some (Inr (front, p', off + n, blocksRead + n))
        }
      else Some (Inr ([], p, off, blocksRead)))"

text \<open>\<open>readBlocksFrom\<close> with the variables of its loop as arguments; it is called with
  \<open>blocksRead = 0\<close>. The buffer \<open>p\<close> is what is left to read, and is returned filled.\<close>

partial_function (option) readBlocksFrom :: "int \<Rightarrow> int \<Rightarrow> BlockHoleReader list \<Rightarrow> bytes \<Rightarrow> int \<Rightarrow>
    int \<Rightarrow> (bytes \<times> int \<times> go_error option) option" where
  "readBlocksFrom bs nb readers p off blocksRead =
     (case readers of
        [] \<Rightarrow> Some (replicate (length p) 0, go_div (int (length p)) bs, None)
      | tr # below \<Rightarrow>
          if p = [] then Some (p, blocksRead, None)
          else if off \<ge> nb then Some (p, blocksRead, Some EOF)
          else do {
            (nextHole, _) \<leftarrow> NextBlockHole tr off;
            top \<leftarrow> read_top bs tr p off blocksRead nextHole;
            (case top of
               Inl res \<Rightarrow> Some res
             | Inr st \<Rightarrow> (case st of (front, p, off, blocksRead) \<Rightarrow> do {
                 (nextData, err) \<leftarrow> NextBlockData tr off;
                 if err \<noteq> None \<and> err \<noteq> Some EOF then Some (front @ p, blocksRead, err)
                 else let nextData = (if err = Some EOF then nb else nextData);
                          readLen = (if go_div (int (length p)) bs > nextData - off
                            then (nextData - off) * bs else int (length p))
                      in if readLen < 0 then None
                         else do {
                           (q, n, err) \<leftarrow> readBlocksFrom bs nb below (take (nat readLen) p) off 0;
                           if n * bs < 0 \<or> n * bs > int (length p) then None
                           else let p = q @ drop (nat readLen) p in
                             if err \<noteq> None then Some (front @ p, blocksRead + n, err)
                             else do {
                               (q, blocksRead, err) \<leftarrow>
                                 readBlocksFrom bs nb readers (drop (nat (n * bs)) p) (off + n) (blocksRead + n);
                               Some (front @ take (nat (n * bs)) p @ q, blocksRead, err)
                             }
                         }
               }))
          })"

definition StackedBlockReader_ReadBlocks :: "StackedBlockReader \<Rightarrow> bytes \<Rightarrow> int \<Rightarrow>
    (bytes \<times> int \<times> go_error option) option" where
  "StackedBlockReader_ReadBlocks r buf off =
     (if sbr_blockSize r = 0 then None
      else if go_mod (int (length buf)) (sbr_blockSize r) \<noteq> 0
      then Some (buf, 0, Some (Err ''invalid read size''))
      else readBlocksFrom (sbr_blockSize r) (sbr_numBlocks r) (sbr_rs r) buf off 0)"

section \<open>What a stack stands for\<close>

fun layered :: "(nat \<rightharpoonup> 'a) list \<Rightarrow> nat \<rightharpoonup> 'a" where
  "layered [] i = None"
| "layered (c # cs) i = (case c i of Some b \<Rightarrow> Some b | None \<Rightarrow> layered cs i)"

text \<open>The bytes of \<open>n\<close> blocks from \<open>k\<close> on, zero where there is none.\<close>

definition blocks_or_zero :: "nat \<Rightarrow> (nat \<rightharpoonup> bytes) \<Rightarrow> nat \<Rightarrow> nat \<Rightarrow> bytes" where
  "blocks_or_zero bs c k n =
     concat (map (\<lambda>i. case c (k + i) of Some b \<Rightarrow> b | None \<Rightarrow> replicate bs 0) [0..<n])"

lemma blocks_or_zero_Suc: "blocks_or_zero bs c k (Suc n) =
    blocks_or_zero bs c k n @ (case c (k + n) of Some b \<Rightarrow> b | None \<Rightarrow> replicate bs 0)"
  by (simp add: blocks_or_zero_def)

lemma blocks_or_zero_append:
  "blocks_or_zero bs c k (m + n) = blocks_or_zero bs c k m @ blocks_or_zero bs c (k + m) n"
  by (induction n) (simp_all add: blocks_or_zero_Suc add.assoc blocks_or_zero_def)

lemma blocks_or_zero_0 [simp]: "blocks_or_zero bs c k 0 = []"
  by (simp add: blocks_or_zero_def)

lemma blocks_or_zero_cong:
  "(\<And>i. i < n \<Longrightarrow> c (k + i) = d (k + i)) \<Longrightarrow> blocks_or_zero bs c k n = blocks_or_zero bs d k n"
  unfolding blocks_or_zero_def by (intro arg_cong [of _ _ concat] map_cong) auto

lemma blocks_or_zero_data: "all_data c k n \<Longrightarrow> blocks_or_zero bs c k n = concat (read_data c k n)"
  unfolding blocks_or_zero_def read_data_def all_data_def
  by (intro arg_cong [of _ _ concat] map_cong) auto

lemma blocks_or_zero_none: "(\<And>i. i < n \<Longrightarrow> c (k + i) = None) \<Longrightarrow> blocks_or_zero bs c k n = replicate (n * bs) 0"
  by (induction n) (auto simp: blocks_or_zero_def replicate_add [symmetric] add.commute)

lemma length_blocks_or_zero:
  "(\<And>i b. c i = Some b \<Longrightarrow> length b = bs) \<Longrightarrow> length (blocks_or_zero bs c k n) = n * bs"
  by (induction n) (auto simp: blocks_or_zero_def split: option.splits)

lemma layered_len:
  "\<forall>c\<in>set cs. \<forall>i b. c i = Some b \<longrightarrow> length b = bs \<Longrightarrow> layered cs i = Some b \<Longrightarrow> length b = bs"
  by (induction cs) (auto split: option.splits)

text \<open>The blocks of a read that fall before the end of the device.\<close>

abbreviation in_device :: "nat \<Rightarrow> nat \<Rightarrow> nat \<Rightarrow> nat" where
  "in_device nb k n \<equiv> min n (nb - k)"

locale stack_layer = block_hole_reader bs tr c
  for bs :: nat and tr :: BlockHoleReader and c :: "nat \<rightharpoonup> bytes" +
  fixes nb :: nat
  assumes in_dev: "c i \<noteq> None \<Longrightarrow> i < nb" and dev_bound: "nb * bs \<le> max_off"
begin

lemma off_bound: "k < nb \<Longrightarrow> k * bs \<le> max_off"
  using dev_bound by (meson less_imp_le_nat mult_le_mono1 order_trans)

lemma hole_in_dev:
  assumes "k < nb"
  shows "next_hole c k \<le> nb" "k \<le> next_hole c k" "c (next_hole c k) = None"
    and "all_data c k (next_hole c k - k)"
proof -
  have h: "k \<le> next_hole c k \<and> c (next_hole c k) = None \<and> (\<forall>i. k \<le> i \<longrightarrow> i < next_hole c k \<longrightarrow> c i \<noteq> None)"
    using hole_eq [of k "next_hole c k"] by simp
  then show "k \<le> next_hole c k" "c (next_hole c k) = None" by blast+
  show "next_hole c k \<le> nb"
  proof (rule ccontr)
    assume "\<not> next_hole c k \<le> nb"
    with h assms have "c nb \<noteq> None" by simp
    from in_dev [OF this] show False by simp
  qed
  show "all_data c k (next_hole c k - k)" using h by (simp add: all_data_def)
qed

text \<open>Reading from the top reader up to its next hole.\<close>

lemma read_top_ok:
  assumes p: "length p = n * bs" "0 < n" and k: "k < nb" and h: "h = next_hole c k"
  shows "read_top (int bs) tr p (int k) br (int h) =
    Some (if n \<le> h - k then Inl (concat (read_data c k n), br + int n, None)
      else Inr (concat (read_data c k (h - k)), drop ((h - k) * bs) p, int h, br + int (h - k)))"
proof (cases "k < h")
  case False
  with hole_in_dev(2) [OF k] h have "h = k" by simp
  with p show ?thesis by (simp add: read_top_def read_data_def)
next
  case True
  have gd: "go_div (int (length p)) (int bs) = int n" using p bs_pos by (simp add: go_div_nonneg)
  obtain d where hd: "h = k + d" "0 < d" using True less_imp_add_positive by blast
  let ?m = "min n d"
  have m: "0 < ?m" using hd(2) p(2) by simp
  have "all_data c k d" using hole_in_dev(4) [OF k, folded h] hd(1) by simp
  then have data: "all_data c k ?m" by (simp add: all_data_def)
  let ?L = "?m * bs"
  have rl: "(if go_div (int (length p)) (int bs) > int h - int k
      then (int h - int k) * int bs else int (length p)) = int ?L"
    unfolding gd using p hd(1) by (auto simp: min_def)
  have gr: "go_div (int ?L) (int bs) = int ?m" using bs_pos by (simp add: go_div_nonneg)
  have le: "?L \<le> length p" using p by simp
  have rd: "ReadBlocks tr (take ?L p) (int k) = Some (concat (read_data c k ?m), int ?m, None)"
    using le by (intro ReadBlocks_ok m data) simp
  have len: "length (concat (read_data c k ?m)) = ?L" by (rule length_blocks [OF data])
  have fin: "drop ?L p = [] \<longleftrightarrow> n \<le> d" using p bs_pos by auto
  from True show ?thesis
    unfolding read_top_def rl gr Let_def using rd len le fin p hd(1)
    by (auto simp: min_def simp flip: of_nat_mult)
qed


text \<open>From a hole of the top reader on, the blocks up to its next data come from below.\<close>

lemma next_step:
  assumes "k \<le> nb" "c k = None"
  obtains nd err e where "NextBlockData tr (int k) = Some (nd, err)" "err = None \<or> err = Some EOF"
    "(if err = Some EOF then int nb else nd) = int e" "k \<le> e" "e \<le> nb" "k < nb \<Longrightarrow> k < e"
    "\<And>i. k \<le> i \<Longrightarrow> i < e \<Longrightarrow> c i = None"
proof -
  have kb: "k * bs \<le> max_off" using assms(1) dev_bound by (meson mult_le_mono1 order_trans)
  show ?thesis
  proof (cases "next_data c k")
    case None
    from NextBlockData_end [OF kb this] obtain e where "NextBlockData tr (int k) = Some (e, Some EOF)" by blast
    with None assms show ?thesis by (intro that [of e "Some EOF" nb]) (simp_all add: next_data_None)
  next
    case (Some j)
    then have j: "k \<le> j" "c j \<noteq> None" "\<And>i. k \<le> i \<Longrightarrow> i < j \<Longrightarrow> c i = None"
      unfolding next_data_Some by auto
    from assms(2) j have "k \<noteq> j" by auto
    with NextBlockData_ok [OF kb Some] j in_dev [OF j(2)] show ?thesis
      by (intro that [of "int j" None j]) simp_all
  qed
qed

end

lemma in_device_split: "a \<le> n \<Longrightarrow> k + a \<le> nb \<Longrightarrow> in_device nb k n = a + in_device nb (k + a) (n - a)"
  by (auto simp: min_def)

lemma layered_top: "all_data c k n \<Longrightarrow> blocks_or_zero bs (layered (c # cs)) k n = concat (read_data c k n)"
proof -
  assume a: "all_data c k n"
  then have "blocks_or_zero bs (layered (c # cs)) k n = blocks_or_zero bs c k n"
    by (intro blocks_or_zero_cong) (auto simp: all_data_def)
  with blocks_or_zero_data [OF a] show ?thesis by simp
qed

text \<open>One turn of the loop: \<open>m\<^sub>1\<close> blocks from the top reader, then \<open>m\<^sub>2\<close> from below.\<close>

lemma stack_turn:
  assumes tr: "stack_layer bs tr c nb"
    and below: "\<forall>q m j. length q = m * bs \<longrightarrow> j + m \<le> nb \<longrightarrow>
      readBlocksFrom (int bs) (int nb) below q (int j) 0 = Some (blocks_or_zero bs (layered cs) j m, int m, None)"
    and len: "\<forall>j m. length (blocks_or_zero bs (layered (c # cs)) j m) = m * bs"
    and p: "length p = n * bs" "0 < n" and k: "k < nb"
  obtains "n \<le> nb - k" "readBlocksFrom (int bs) (int nb) (tr # below) p (int k) br =
      Some (blocks_or_zero bs (layered (c # cs)) k n, br + int n, None)"
  | m where "0 < m" "m \<le> n" "k + m \<le> nb"
    "readBlocksFrom (int bs) (int nb) (tr # below) p (int k) br =
      map_option (\<lambda>(q, b, err). (blocks_or_zero bs (layered (c # cs)) k m @ q, b, err))
        (readBlocksFrom (int bs) (int nb) (tr # below) (drop (m * bs) p) (int (k + m)) (br + int m))"
proof -
  define h where h: "h = next_hole c k"
  note hole = stack_layer.hole_in_dev [OF tr k, folded h]
  have bs: "0 < bs" using tr by (simp add: stack_layer_def block_hole_reader_def)
  have nh: "NextBlockHole tr (int k) = Some (int h, None)"
    unfolding h
    by (rule block_hole_reader.NextBlockHole_ok [OF stack_layer.axioms(1) [OF tr] stack_layer.off_bound [OF tr k]])
  note top = stack_layer.read_top_ok [OF tr p k h, of br]
  have pne: "p \<noteq> []" using p bs by (cases p) auto
  show thesis
  proof (cases "n \<le> h - k")
    case True
    have "all_data c k n" using hole(4) True by (simp add: all_data_def)
    then have "readBlocksFrom (int bs) (int nb) (tr # below) p (int k) br =
        Some (blocks_or_zero bs (layered (c # cs)) k n, br + int n, None)"
      using pne k nh top True by (subst readBlocksFrom.simps) (simp add: layered_top)
    moreover have "n \<le> nb - k" using True hole(1) by linarith
    ultimately show thesis by (intro that(1))
  next
    case False
    let ?m1 = "h - k" and ?p = "drop ((h - k) * bs) p"
    from stack_layer.next_step [OF tr hole(1,3)] obtain nd err e where nd:
      "NextBlockData tr (int h) = Some (nd, err)" "err = None \<or> err = Some EOF"
      "(if err = Some EOF then int nb else nd) = int e" "h \<le> e" "e \<le> nb" "h < nb \<Longrightarrow> h < e"
      "\<And>i. h \<le> i \<Longrightarrow> i < e \<Longrightarrow> c i = None" by blast
    define m2 where m2: "m2 = min (n - ?m1) (e - h)"
    have lp: "length ?p = (n - ?m1) * bs" using p(1) by (simp add: diff_mult_distrib)
    have gd: "go_div (int (length ?p)) (int bs) = int (n - ?m1)" unfolding lp using bs by (simp add: go_div_nonneg)
    have rl: "(if go_div (int (length ?p)) (int bs) > int e - int h
        then (int e - int h) * int bs else int (length ?p)) = int (m2 * bs)"
      unfolding gd unfolding lp using nd(4) False by (auto simp: m2 min_def of_nat_diff)
    have le: "m2 * bs \<le> length ?p" unfolding lp using m2 by simp
    have hm: "h + m2 \<le> nb" using m2 nd(4,5) by linarith
    have sub: "readBlocksFrom (int bs) (int nb) below (take (m2 * bs) ?p) (int h) 0 =
        Some (blocks_or_zero bs (layered cs) h m2, int m2, None)"
      using le hm by (intro below [rule_format]) simp_all
    have same: "blocks_or_zero bs (layered cs) h m2 = blocks_or_zero bs (layered (c # cs)) h m2"
    proof (intro blocks_or_zero_cong)
      fix i assume "i < m2"
      then have "c (h + i) = None" using m2 by (intro nd(7)) auto
      then show "layered cs (h + i) = layered (c # cs) (h + i)" by simp
    qed
    have all: "blocks_or_zero bs (layered (c # cs)) k (?m1 + m2) =
        concat (read_data c k ?m1) @ blocks_or_zero bs (layered cs) h m2"
      unfolding blocks_or_zero_append layered_top [OF hole(4)] same using hole(2) by simp
    have nat_m: "nat (int m2 * int bs) = m2 * bs" "\<not> int m2 * int bs < 0"
      "\<not> int (length ?p) < int m2 * int bs"
      using le by (simp_all flip: of_nat_mult)
    have bind_map: "Option.bind x (\<lambda>(q, b, e). Some (f q, b, e)) = map_option (\<lambda>(q, b, e). (f q, b, e)) x"
      for x :: "(bytes \<times> int \<times> go_error option) option" and f :: "bytes \<Rightarrow> bytes"
      by (cases x) auto
    have run: "readBlocksFrom (int bs) (int nb) (tr # below) p (int k) br =
      map_option (\<lambda>(q, b, err). (blocks_or_zero bs (layered (c # cs)) k (?m1 + m2) @ q, b, err))
        (readBlocksFrom (int bs) (int nb) (tr # below) (drop (m2 * bs) ?p) (int (h + m2)) (br + int ?m1 + int m2))"
      using pne k nh top False nd(1-3) rl sub le len [rule_format, of h m2] nd(2) nat_m bind_map unfolding all
      by (subst readBlocksFrom.simps) (auto simp: Let_def same simp del: of_nat_mult)
    define m where m: "m = ?m1 + m2"
    have "0 < m" using k p(2) m2 nd(6) hole(2) m by (cases "h = k") auto
    moreover have "m \<le> n" using m m2 False by linarith
    moreover have km: "h + m2 = k + m" using m hole(2) by simp
    moreover have dr: "drop (m2 * bs) ?p = drop (m * bs) p" by (simp add: m algebra_simps)
    moreover have bm: "br + int ?m1 + int m2 = br + int m" by (simp add: m)
    ultimately show thesis
      using run hm unfolding dr km bm m [symmetric] by (intro that(2) [of m]) simp_all
  qed
qed

lemma readBlocksFrom_ok:
  assumes "list_all2 (\<lambda>tr c. stack_layer bs tr c nb) readers cs" "0 < bs" "length p = n * bs"
    and "readers = [] \<Longrightarrow> br = 0 \<and> k + n \<le> nb"
  shows "readBlocksFrom (int bs) (int nb) readers p (int k) br =
    (let m = in_device nb k n in
     Some (blocks_or_zero bs (layered cs) k m @ drop (m * bs) p, br + int m, if m < n then Some EOF else None))"
  using assms
proof (induction readers arbitrary: cs p n k br)
  case Nil
  then have "in_device nb k n = n" by auto
  moreover have "blocks_or_zero bs (layered cs) k n = replicate (n * bs) 0"
    using Nil by (intro blocks_or_zero_none) simp
  ultimately show ?case
    using Nil by (subst readBlocksFrom.simps) (simp add: go_div_nonneg)
next
  case (Cons tr below)
  from Cons.prems(1) obtain c ds where cs: "cs = c # ds" and tr: "stack_layer bs tr c nb"
    and below: "list_all2 (\<lambda>tr c. stack_layer bs tr c nb) below ds"
    by (auto simp: list_all2_Cons1)
  have sub: "\<forall>q m j. length q = m * bs \<longrightarrow> j + m \<le> nb \<longrightarrow>
      readBlocksFrom (int bs) (int nb) below q (int j) 0 = Some (blocks_or_zero bs (layered ds) j m, int m, None)"
  proof (intro allI impI)
    fix q :: bytes and m j assume q: "length q = m * bs" "j + m \<le> nb"
    then have "in_device nb j m = m" by simp
    with Cons.IH [OF below Cons.prems(2) q(1), of 0 j] q
    show "readBlocksFrom (int bs) (int nb) below q (int j) 0 = Some (blocks_or_zero bs (layered ds) j m, int m, None)"
      by simp
  qed
  have "\<forall>c\<in>set cs. \<forall>i b. c i = Some b \<longrightarrow> length b = bs"
    using Cons.prems(1)
    by (auto simp: list_all2_conv_all_nth in_set_conv_nth stack_layer_def block_hole_reader_def)
  then have len: "\<forall>j m. length (blocks_or_zero bs (layered (c # ds)) j m) = m * bs"
    unfolding cs [symmetric] by (intro allI length_blocks_or_zero) (rule layered_len)
  show ?case
    unfolding cs using Cons.prems(3)
  proof (induction n arbitrary: p k br rule: less_induct)
    case (less n)
    show ?case
    proof (cases "n = 0 \<or> nb \<le> k")
      case True
      have "p = [] \<longleftrightarrow> n = 0" using less.prems Cons.prems(2) by auto
      with True show ?thesis by (subst readBlocksFrom.simps) auto
    next
      case False
      then have n: "0 < n" "k < nb" by simp_all
      show ?thesis
      proof (rule stack_turn [OF tr sub len less.prems n, of br], goal_cases)
        case 1
        then have "in_device nb k n = n" by simp
        with 1 less.prems show ?thesis by (simp del: layered.simps)
      next
        case (2 m)
        have "length (drop (m * bs) p) = (n - m) * bs" using less.prems by (simp add: diff_mult_distrib)
        define m' where m': "m' = in_device nb (k + m) (n - m)"
        have "n - m < n" using 2(1) n(1) by simp
        note IH = less.IH [OF this \<open>length (drop (m * bs) p) = (n - m) * bs\<close>, of "k + m" "br + int m", folded m']
        have split: "in_device nb k n = m + m'" unfolding m' by (rule in_device_split [OF 2(2,3)])
        have "m' < n - m \<longleftrightarrow> m + m' < n" by linarith
        then show ?thesis
          unfolding 2(4) IH split Let_def blocks_or_zero_append
          by (simp add: add.commute add_mult_distrib del: layered.simps)
      qed
    qed
  qed
qed

section \<open>Properties\<close>

lemma mem_layer:
  assumes "0 < bs" "length xs = q * bs" "q \<le> nb" "nb * bs \<le> max_off"
  shows "stack_layer bs (NewBlockReader (mem_reader xs) (int bs)) (to_blocks bs (mem_content xs)) nb"
proof -
  have "length xs \<le> max_off" using assms(2-4) by (metis mult_le_mono1 order_trans)
  then have "aligned_hole_reader (mem_reader xs) (mem_content xs) bs"
    using assms(1,2) mem_aligned [of bs xs] mem_reader_ok
    by (simp add: aligned_hole_reader_def aligned_hole_reader_axioms_def)
  moreover have "i < nb" if "to_blocks bs (mem_content xs) i \<noteq> None" for i
    using that assms(1-3) by (auto simp: to_blocks_def mem_content_def split: if_splits)
  ultimately show ?thesis
    using assms(4) aligned_hole_reader.as_block_reader [of "mem_reader xs" "mem_content xs" bs]
    unfolding stack_layer_def stack_layer_axioms_def by blast
qed

interpretation ram_layer: stack_layer 2 "NewBlockReader (mem_reader [1, 2, 3, 4]) (int 2)"
  "to_blocks 2 (mem_content [1, 2, 3, 4])" 8
  by (rule mem_layer [where q = 2]) simp_all

text \<open>C24. A read through the stack returns, block by block, the block of the first reader that has it
  and zeros where none has; blocks past the end of the device are not read, and then the read ends
  with end-of-file and the count of the blocks before it.\<close>

theorem stacked_read:
  assumes "list_all2 (\<lambda>tr c. stack_layer bs tr c nb) readers cs" "readers \<noteq> []" "0 < bs"
    and "length p = n * bs"
  shows "StackedBlockReader_ReadBlocks (NewStackedBlockReader readers (int bs) (int nb)) p (int k) =
    (let m = in_device nb k n in
     Some (blocks_or_zero bs (layered cs) k m @ drop (m * bs) p, int m, if m < n then Some EOF else None))"
  using readBlocksFrom_ok [OF assms(1,3,4), of 0 k] assms(2-4) go_mod_mult [of bs n]
  by (simp add: StackedBlockReader_ReadBlocks_def NewStackedBlockReader_def Let_def)

theorem stacked_read_witness:
  "StackedBlockReader_ReadBlocks (NewStackedBlockReader
      [NewBlockReader (mem_reader [1, 1]) 2, NewBlockReader (mem_reader [2, 2, 3, 3]) 2] 2 3)
      [9, 9, 9, 9, 9, 9, 9, 9] 0 =
   Some ([1, 1, 3, 3, 0, 0, 9, 9], 3, Some EOF)"
proof -
  have "list_all2 (\<lambda>tr c. stack_layer 2 tr c 3)
      [NewBlockReader (mem_reader [1, 1]) (int 2), NewBlockReader (mem_reader [2, 2, 3, 3]) (int 2)]
      [to_blocks 2 (mem_content [1, 1]), to_blocks 2 (mem_content [2, 2, 3, 3])]"
    using mem_layer [of 2 "[1, 1]" 1 3] mem_layer [of 2 "[2, 2, 3, 3]" 2 3] by simp
  from stacked_read [OF this, of "[9, 9, 9, 9, 9, 9, 9, 9]" 4 0] show ?thesis
    by (simp add: Let_def blocks_or_zero_def to_blocks_def mem_content_def read_data_def numeral_eq_Suc upt_rec)
qed



end
