(* ===== verification/Block_Map.thy ===== *)
theory Block_Map
  imports Bitmap_Range_Map Stacked_Reader "HOL-Library.AList" "HOL-Library.Multiset"
begin

text \<open>
  \<open>internal/blockmap/reader.go\<close>: the index of which reader holds the live copy of each block. The
  readers are shared objects compared by identity: \<open>'r\<close> is the type of their identities and \<open>env\<close>
  gives the methods of each. The bitmap and bit set operations \<open>B\<close> and \<open>S\<close> are parameters. Every
  operation runs under the reader's lock, so it is one step on the state; \<open>PushReader\<close> releases it
  between batches, and the readers it scans do not change.
\<close>

section \<open>Operations\<close>

record ('b, 's, 'r) blockmapReader =
  bmr_blockSize :: int
  bmr_numBlocks :: int
  rangeMap :: "('b, 's, nat) BitmapRangeMap"
  valueMap :: "nat \<rightharpoonup> 'r"
  indexMap :: "'r \<rightharpoonup> nat"
  freeSet :: 's
  bmr_rs :: "'r list"

definition uint16 :: "nat \<Rightarrow> nat" where
  "uint16 n = n mod 2 ^ 16"

definition blockmap_NewReader :: "'s bitset_ops \<Rightarrow> int \<Rightarrow> int \<Rightarrow> ('b, 's, 'r) blockmapReader" where
  "blockmap_NewReader S blockSize numBlocks =
     \<lparr>bmr_blockSize = blockSize, bmr_numBlocks = numBlocks,
      rangeMap = NewBitmapRangeMap S, valueMap = Map.empty, indexMap = Map.empty,
      freeSet = bs_Clear S (bs_SetAll S (bs_New S (2 ^ 16))) 0, bmr_rs = []\<rparr>"

definition blockmap_NextBlockData :: "'b bitmap256_ops \<Rightarrow> 's bitset_ops \<Rightarrow> ('b, 's, 'r) blockmapReader \<Rightarrow>
    int \<Rightarrow> (int \<times> go_error option) option" where
  "blockmap_NextBlockData B S r off = do {
     (next, ok) \<leftarrow> BitmapRangeMap_NextKey B S (rangeMap r) (uint64 off);
     if \<not> ok then Some (0, Some EOF) else Some (int64 next, None)
   }"

definition blockmap_NextBlockHole :: "'b bitmap256_ops \<Rightarrow> 's bitset_ops \<Rightarrow> ('b, 's, 'r) blockmapReader \<Rightarrow>
    int \<Rightarrow> (int \<times> go_error option) option" where
  "blockmap_NextBlockHole B S r off = do {
     next \<leftarrow> BitmapRangeMap_NextEmpty B S (rangeMap r) (uint64 off);
     Some (int64 next, None)
   }"

definition fetchOrAddValueIndex :: "'s bitset_ops \<Rightarrow> ('b, 's, 'r) blockmapReader \<Rightarrow> 'r \<Rightarrow>
    (nat \<times> ('b, 's, 'r) blockmapReader) option" where
  "fetchOrAddValueIndex S r br =
     (case indexMap r br of
        Some iv \<Rightarrow> Some (iv, r)
      | None \<Rightarrow>
          (case bs_NextSet S (freeSet r) 1 of
             (nv, ok) \<Rightarrow>
               if \<not> ok then None
               else Some (uint16 nv, r\<lparr>freeSet := bs_Clear S (freeSet r) nv,
                      valueMap := (valueMap r)(uint16 nv \<mapsto> br),
                      indexMap := (indexMap r)(br \<mapsto> uint16 nv)\<rparr>)))"

text \<open>\<open>doAdd\<close> enters the batch \<open>rl\<close> of block ranges under index \<open>iv\<close>.\<close>

definition doAdd :: "'b bitmap256_ops \<Rightarrow> 's bitset_ops \<Rightarrow> nat \<Rightarrow> (int \<times> int) list \<Rightarrow>
    ('b, 's, nat) BitmapRangeMap \<Rightarrow> ('b, 's, nat) BitmapRangeMap option" where
  "doAdd B S iv rl rm =
     add_all (BitmapRangeMap_Add B S 0) (map (\<lambda>(offset, len). (uint64 offset, uint64 len, iv)) rl) rm"

definition BatchSize :: nat where
  "BatchSize = 4096"

partial_function (option) PushReader_loop :: "'b bitmap256_ops \<Rightarrow> 's bitset_ops \<Rightarrow> BlockHoleReader \<Rightarrow> nat \<Rightarrow>
    ('b, 's, nat) BitmapRangeMap \<Rightarrow> (int \<times> int) list \<Rightarrow> int \<Rightarrow> ('b, 's, nat) BitmapRangeMap option" where
  "PushReader_loop B S br iv rm rl offset = do {
     (startOffset, err) \<leftarrow> NextBlockData br offset;
     if err = Some EOF then doAdd B S iv rl rm
     else if err \<noteq> None then None
     else do {
       (endOffset, err) \<leftarrow> NextBlockHole br startOffset;
       if err \<noteq> None then None
       else let rl = rl @ [(startOffset, s64 (endOffset - startOffset))]
            in if length rl \<ge> BatchSize
               then do {
                 rm \<leftarrow> doAdd B S iv rl rm;
                 PushReader_loop B S br iv rm [] endOffset
               }
               else PushReader_loop B S br iv rm rl endOffset
     }
   }"

definition blockmap_PushReader :: "'b bitmap256_ops \<Rightarrow> 's bitset_ops \<Rightarrow> ('r \<Rightarrow> BlockHoleReader) \<Rightarrow>
    ('b, 's, 'r) blockmapReader \<Rightarrow> 'r \<Rightarrow> ('b, 's, 'r) blockmapReader option" where
  "blockmap_PushReader B S env r br =
     (if br \<in> set (bmr_rs r) then None
      else let r = r\<lparr>bmr_rs := bmr_rs r @ [br]\<rparr>
        in do {
          (iv, r) \<leftarrow> fetchOrAddValueIndex S r br;
          rm \<leftarrow> PushReader_loop B S (env br) iv (rangeMap r) [] 0;
          Some (r\<lparr>rangeMap := rm\<rparr>)
        })"

text \<open>A missing key reads as the zero value.\<close>

definition blockmap_RemoveTable :: "'s bitset_ops \<Rightarrow> ('b, 's, 'r) blockmapReader \<Rightarrow> 'r \<Rightarrow>
    ('b, 's, 'r) blockmapReader option" where
  "blockmap_RemoveTable S r br =
     (let r = r\<lparr>bmr_rs := remove1 br (bmr_rs r)\<rparr>;
          iv = (case indexMap r br of Some iv \<Rightarrow> iv | None \<Rightarrow> 0)
      in if iv = 0 then None
         else Some (r\<lparr>indexMap := (indexMap r)(br := None), valueMap := (valueMap r)(iv := None),
                freeSet := bs_Set S (freeSet r) iv\<rparr>))"

definition blockmap_ListReaders :: "('b, 's, 'r) blockmapReader \<Rightarrow> 'r list" where
  "blockmap_ListReaders r = bmr_rs r"

definition blockmap_LiveBlocks :: "'b bitmap256_ops \<Rightarrow> 's bitset_ops \<Rightarrow> ('b, 's, 'r) blockmapReader \<Rightarrow>
    int option" where
  "blockmap_LiveBlocks B S r = do {
     count \<leftarrow> BitmapRangeMap_Iterate B S 0 (rangeMap r) 0 (\<lambda>rg count. (u64 (count + Length rg), True)) 0;
     Some (int64 count)
   }"

text \<open>\<open>blockCount\<close> is a Go map, ranged over in an order the language leaves open: \<open>order\<close> stands
  for that choice. The nil reader is the key of an index no reader has.\<close>

definition blockCount_of :: "'b bitmap256_ops \<Rightarrow> 's bitset_ops \<Rightarrow> ('b, 's, 'r) blockmapReader \<Rightarrow>
    (nat \<times> int) list option" where
  "blockCount_of B S r = BitmapRangeMap_Iterate B S 0 (rangeMap r) 0
     (\<lambda>rg m. (AList.update (Value rg)
        (s64 ((case map_of m (Value rg) of Some c \<Rightarrow> c | None \<Rightarrow> 0) + int64 (Length rg))) m, True)) []"

definition blockmap_GetLiveBlocks :: "'b bitmap256_ops \<Rightarrow> 's bitset_ops \<Rightarrow>
    ((nat \<times> int) list \<Rightarrow> (nat \<times> int) list) \<Rightarrow> ('b, 's, 'r) blockmapReader \<Rightarrow> ('r option \<rightharpoonup> int) option" where
  "blockmap_GetLiveBlocks B S order r = do {
     blockCount \<leftarrow> blockCount_of B S r;
     let liveBlocks = fold (\<lambda>br m. m(Some br \<mapsto> 0)) (bmr_rs r) Map.empty;
     Some (fold (\<lambda>(iv, c) m. m(valueMap r iv \<mapsto> c)) (order blockCount) liveBlocks)
   }"

text \<open>The loop of \<open>ReaderForLiveBytes\<close> over the chosen readers; \<open>readers\<close> is the set of their indices.\<close>

fun live_readers :: "'s bitset_ops \<Rightarrow> ('b, 's, 'r) blockmapReader \<Rightarrow> 'r list \<Rightarrow>
    ('b, 's, 'r) blockmapReader \<Rightarrow> nat set \<Rightarrow> (('b, 's, 'r) blockmapReader \<times> nat set) option" where
  "live_readers S r [] newReader readers = Some (newReader, readers)"
| "live_readers S r (br # rs) newReader readers =
     (case indexMap r br of
        None \<Rightarrow> None
      | Some iv \<Rightarrow> live_readers S r rs
          (newReader\<lparr>freeSet := bs_Clear S (freeSet newReader) iv,
             valueMap := (valueMap newReader)(iv \<mapsto> br), indexMap := (indexMap newReader)(br \<mapsto> iv)\<rparr>)
          (insert iv readers))"

definition blockmap_ReaderForLiveBytes :: "'b bitmap256_ops \<Rightarrow> 's bitset_ops \<Rightarrow>
    ('b, 's, 'r) blockmapReader \<Rightarrow> 'r list \<Rightarrow> ('b, 's, 'r) blockmapReader option" where
  "blockmap_ReaderForLiveBytes B S r rs =
     (let newReader = (blockmap_NewReader S (bmr_blockSize r) (bmr_numBlocks r))\<lparr>bmr_rs := rs\<rparr>
      in do {
        (newReader, readers) \<leftarrow> live_readers S r rs newReader {};
        rm \<leftarrow> BitmapRangeMap_Iterate B S 0 (rangeMap r) 0
          (\<lambda>rg rm. case rm of
             None \<Rightarrow> (None, False)
           | Some m \<Rightarrow> if Value rg \<in> readers
               then (case BitmapRangeMap_Add B S 0 m (Offset rg) (Length rg) (Value rg) of
                       None \<Rightarrow> (None, False) | Some m \<Rightarrow> (Some m, True))
               else (Some m, True))
          (Some (rangeMap newReader));
        rm \<leftarrow> rm;
        Some (newReader\<lparr>rangeMap := rm\<rparr>)
      })"

definition blockmap_find :: "'b bitmap256_ops \<Rightarrow> ('b, 's, 'r) blockmapReader \<Rightarrow> int \<Rightarrow> 'r option" where
  "blockmap_find B r off =
     (case BitmapRangeMap_Get B (rangeMap r) (uint64 off) of
        None \<Rightarrow> None
      | Some iv \<Rightarrow> valueMap r iv)"

text \<open>How many of the next \<open>rem\<close> blocks after the first \<open>readSizeBlocks\<close> have the same reader.\<close>

fun same_reader :: "'b bitmap256_ops \<Rightarrow> ('b, 's, 'r) blockmapReader \<Rightarrow> 'r \<Rightarrow> int \<Rightarrow> nat \<Rightarrow> nat \<Rightarrow> nat" where
  "same_reader B r br off 0 readSizeBlocks = readSizeBlocks"
| "same_reader B r br off (Suc rem) readSizeBlocks =
     (if blockmap_find B r (s64 (off + int readSizeBlocks)) \<noteq> Some br then readSizeBlocks
      else same_reader B r br off rem (Suc readSizeBlocks))"

partial_function (option) blockmap_ReadBlocks_loop :: "'b bitmap256_ops \<Rightarrow> ('r \<Rightarrow> BlockHoleReader) \<Rightarrow>
    ('b, 's, 'r) blockmapReader \<Rightarrow> bytes \<Rightarrow> int \<Rightarrow> int \<Rightarrow> (bytes \<times> int \<times> go_error option) option" where
  "blockmap_ReadBlocks_loop B env r b off n =
     (if b = [] then Some ([], n, None)
      else case blockmap_find B r off of
        None \<Rightarrow>
          if int (length b) < bmr_blockSize r \<or> bmr_blockSize r < 0 then None
          else do {
            (q, n, err) \<leftarrow> blockmap_ReadBlocks_loop B env r (drop (nat (bmr_blockSize r)) b) (s64 (off + 1)) (n + 1);
            Some (replicate (nat (bmr_blockSize r)) 0 @ q, n, err)
          }
      | Some br \<Rightarrow>
          let rem = go_div (int (length b)) (bmr_blockSize r) - 1;
              readSizeBlocks = same_reader B r br off (nat rem) 1;
              readLen = int readSizeBlocks * bmr_blockSize r
          in if readLen < 0 \<or> int (length b) < readLen then None
             else do {
               (q, blocksRead, err) \<leftarrow> ReadBlocks (env br) (take (nat readLen) b) off;
               let b = q @ drop (nat readLen) b;
               if err \<noteq> None then Some (b, n + blocksRead, err)
               else if blocksRead * bmr_blockSize r < 0 \<or> int (length b) < blocksRead * bmr_blockSize r then None
               else do {
                 (q, n, err) \<leftarrow> blockmap_ReadBlocks_loop B env r
                   (drop (nat (blocksRead * bmr_blockSize r)) b) (s64 (off + blocksRead)) (n + blocksRead);
                 Some (take (nat (blocksRead * bmr_blockSize r)) b @ q, n, err)
               }
             })"

definition blockmap_ReadBlocks :: "'b bitmap256_ops \<Rightarrow> ('r \<Rightarrow> BlockHoleReader) \<Rightarrow>
    ('b, 's, 'r) blockmapReader \<Rightarrow> bytes \<Rightarrow> int \<Rightarrow> (bytes \<times> int \<times> go_error option) option" where
  "blockmap_ReadBlocks B env r b off =
     (if bmr_blockSize r = 0 then None
      else if go_mod (int (length b)) (bmr_blockSize r) \<noteq> 0
      then Some (b, 0, Some (Err ''invalid read size''))
      else blockmap_ReadBlocks_loop B env r b off 0)"

text \<open>The block map as a \<open>BlockHoleReader\<close>.\<close>

definition blockmap_reader :: "'b bitmap256_ops \<Rightarrow> 's bitset_ops \<Rightarrow> ('r \<Rightarrow> BlockHoleReader) \<Rightarrow>
    ('b, 's, 'r) blockmapReader \<Rightarrow> BlockHoleReader" where
  "blockmap_reader B S env r =
     \<lparr>ReadBlocks = blockmap_ReadBlocks B env r, NextBlockData = blockmap_NextBlockData B S r,
      NextBlockHole = blockmap_NextBlockHole B S r\<rparr>"

section \<open>Invariant and abstraction\<close>

text \<open>The indices in use and the free ones split \<open>1 ..< 2 ^ 16\<close>, the two maps are inverse to each
  other on the listed readers, and the range map holds no index without a reader.\<close>

definition blockmap_inv :: "'b bitmap256_ops \<Rightarrow> 's bitset_ops \<Rightarrow> ('b, 's, 'r) blockmapReader \<Rightarrow> bool" where
  "blockmap_inv B S r \<longleftrightarrow>
     bitmap_inv B S (rangeMap r) \<and> distinct (bmr_rs r) \<and>
     dom (indexMap r) = set (bmr_rs r) \<and>
     (\<forall>br iv. indexMap r br = Some iv \<longleftrightarrow> valueMap r iv = Some br) \<and>
     (\<forall>iv. bs_Test S (freeSet r) iv \<longleftrightarrow> 0 < iv \<and> iv < 2 ^ 16 \<and> valueMap r iv = None) \<and>
     (\<forall>iv. valueMap r iv \<noteq> None \<longrightarrow> 0 < iv \<and> iv < 2 ^ 16) \<and>
     (\<forall>k iv. bitmap_abs B (rangeMap r) k = Some iv \<longrightarrow> valueMap r iv \<noteq> None)"

definition owner :: "'b bitmap256_ops \<Rightarrow> ('b, 's, 'r) blockmapReader \<Rightarrow> nat \<rightharpoonup> 'r" where
  "owner B r k = Option.bind (bitmap_abs B (rangeMap r) k) (valueMap r)"

lemma blockmap_invD:
  assumes "blockmap_inv B S r"
  shows "bitmap_inv B S (rangeMap r)" "distinct (bmr_rs r)" "dom (indexMap r) = set (bmr_rs r)"
    and "indexMap r br = Some iv \<longleftrightarrow> valueMap r iv = Some br"
    and "bs_Test S (freeSet r) iv \<longleftrightarrow> 0 < iv \<and> iv < 2 ^ 16 \<and> valueMap r iv = None"
    and "valueMap r iv \<noteq> None \<Longrightarrow> 0 < iv \<and> iv < 2 ^ 16"
    and "bitmap_abs B (rangeMap r) k = Some iv \<Longrightarrow> valueMap r iv \<noteq> None"
  using assms unfolding blockmap_inv_def by blast+

lemma blockmap_value_inj:
  assumes "blockmap_inv B S r" "valueMap r i = Some br" "valueMap r j = Some br"
  shows "i = j"
  using assms(2,3) unfolding blockmap_invD(4) [OF assms(1), symmetric] by simp

lemma owner_None: "blockmap_inv B S r \<Longrightarrow> owner B r k = None \<longleftrightarrow> bitmap_abs B (rangeMap r) k = None"
  using blockmap_invD(7) [of B S r k] by (cases "bitmap_abs B (rangeMap r) k") (auto simp: owner_def)

lemma owner_index:
  assumes "blockmap_inv B S r" "valueMap r iv = Some br"
  shows "owner B r k = Some br \<longleftrightarrow> bitmap_abs B (rangeMap r) k = Some iv"
proof
  assume "owner B r k = Some br"
  then obtain i where i: "bitmap_abs B (rangeMap r) k = Some i" "valueMap r i = Some br"
    by (auto simp: owner_def bind_eq_Some_conv)
  from blockmap_value_inj [OF assms(1) i(2) assms(2)] i(1)
  show "bitmap_abs B (rangeMap r) k = Some iv" by simp
qed (simp add: owner_def assms(2))

lemma owner_listed: "blockmap_inv B S r \<Longrightarrow> owner B r k = Some br \<Longrightarrow> br \<in> set (bmr_rs r)"
proof -
  assume inv: "blockmap_inv B S r" and "owner B r k = Some br"
  then obtain i where "valueMap r i = Some br" by (auto simp: owner_def bind_eq_Some_conv)
  then have "br \<in> dom (indexMap r)" unfolding blockmap_invD(4) [OF inv, symmetric] by blast
  then show "br \<in> set (bmr_rs r)" unfolding blockmap_invD(3) [OF inv] .
qed

text \<open>Less than \<open>2 ^ 16 - 1\<close> readers leave a free index.\<close>

lemma blockmap_index_free:
  assumes inv: "blockmap_inv B S r" and len: "length (bmr_rs r) < 2 ^ 16 - 1"
  shows "\<exists>iv. 0 < iv \<and> iv < 2 ^ 16 \<and> valueMap r iv = None"
proof (rule ccontr)
  assume "\<not> (\<exists>iv. 0 < iv \<and> iv < 2 ^ 16 \<and> valueMap r iv = None)"
  then have "\<forall>iv\<in>{1..<2 ^ 16}. valueMap r iv \<noteq> None" by auto
  then have sub: "(\<lambda>iv. the (valueMap r iv)) ` {1..<2 ^ 16} \<subseteq> set (bmr_rs r)"
    unfolding blockmap_invD(3) [OF inv, symmetric]
    by (auto simp: dom_def blockmap_invD(4) [OF inv])
  have "inj_on (\<lambda>iv. the (valueMap r iv)) {1..<2 ^ 16}"
  proof (rule inj_onI)
    fix i j assume "i \<in> {1..<2 ^ 16}" "j \<in> {1..<2 ^ 16}" "the (valueMap r i) = the (valueMap r j)"
    with \<open>\<forall>iv\<in>{1..<2 ^ 16}. valueMap r iv \<noteq> None\<close> show "i = j"
      by (metis blockmap_value_inj [OF inv] option.collapse)
  qed
  then have "card ((\<lambda>iv. the (valueMap r iv)) ` {1..<(2 :: nat) ^ 16}) = 2 ^ 16 - 1"
    by (simp add: card_image)
  moreover have "card ((\<lambda>iv. the (valueMap r iv)) ` {1..<(2 :: nat) ^ 16}) \<le> card (set (bmr_rs r))"
    using sub by (intro card_mono) simp_all
  ultimately show False using len distinct_card [OF blockmap_invD(2) [OF inv]] by linarith
qed

locale block_index = bitmap_sets B S "0 :: nat" for B :: "'b bitmap256_ops" and S :: "'s bitset_ops"
begin

lemma new_blockmap:
  "blockmap_inv B S (blockmap_NewReader S bs nb :: ('b, 's, 'r) blockmapReader)"
  "owner B (blockmap_NewReader S bs nb :: ('b, 's, 'r) blockmapReader) k = None"
  by (simp_all add: blockmap_inv_def blockmap_NewReader_def empty_bitmap bs_test_clear bs_test_setall bs_len_new
      owner_def)

text \<open>A fresh index for a reader not yet listed.\<close>

lemma fetch_new:
  assumes inv: "blockmap_inv B S r" and new: "br \<notin> set (bmr_rs r)" and len: "length (bmr_rs r) < 2 ^ 16 - 1"
  obtains iv r' where "fetchOrAddValueIndex S (r\<lparr>bmr_rs := bmr_rs r @ [br]\<rparr>) br = Some (iv, r')"
    "blockmap_inv B S r'" "bmr_rs r' = bmr_rs r @ [br]" "rangeMap r' = rangeMap r" "valueMap r' iv = Some br"
    "\<And>k. owner B r' k = owner B r k" "valueMap r iv = None" "bmr_blockSize r' = bmr_blockSize r"
proof -
  have none: "indexMap r br = None" using new blockmap_invD(3) [OF inv] by blast
  obtain nv ok where nv: "bs_NextSet S (freeSet r) 1 = (nv, ok)" by fastforce
  have "\<exists>j\<ge>1. bs_Test S (freeSet r) j"
    using blockmap_index_free [OF inv len] blockmap_invD(5) [OF inv] by (metis Suc_leI One_nat_def)
  then have ok: "ok" using bs_next_set_found [of "freeSet r" 1] nv by simp
  with nv NextSet_Some [of "freeSet r" 1 nv] have "bs_Test S (freeSet r) nv" by simp
  then have free: "0 < nv" "nv < 2 ^ 16" "valueMap r nv = None" unfolding blockmap_invD(5) [OF inv] by auto
  then have u: "uint16 nv = nv" by (simp add: uint16_def)
  let ?r = "r\<lparr>bmr_rs := bmr_rs r @ [br], freeSet := bs_Clear S (freeSet r) nv,
      valueMap := (valueMap r)(nv \<mapsto> br), indexMap := (indexMap r)(br \<mapsto> nv)\<rparr>"
  have "fetchOrAddValueIndex S (r\<lparr>bmr_rs := bmr_rs r @ [br]\<rparr>) br = Some (nv, ?r)"
    using none nv ok u by (simp add: fetchOrAddValueIndex_def)
  moreover have "blockmap_inv B S ?r"
    using inv free new none unfolding blockmap_inv_def by (auto simp: bs_test_clear)
  moreover have "owner B ?r k = owner B r k" for k
    using blockmap_invD(7) [OF inv, of k nv] free(3)
    by (cases "bitmap_abs B (rangeMap r) k") (auto simp: owner_def)
  ultimately show thesis using free(3) by (intro that [of nv ?r]) simp_all
qed


subsection \<open>PushReader\<close>

abbreviation batch :: "nat \<Rightarrow> (nat \<times> nat) list \<Rightarrow> (nat \<times> nat \<times> nat) list" where
  "batch iv ws \<equiv> map (\<lambda>(offset, len). (offset, len, iv)) ws"

lemma doAdd_ok:
  assumes "bitmap_inv B S rm" "\<forall>(offset, len)\<in>set ws. offset + len \<le> max_off"
  obtains rm' where "doAdd B S iv (map (\<lambda>(offset, len). (int offset, int len)) ws) rm = Some rm'"
    "bitmap_inv B S rm'" "bitmap_abs B rm' = apply_writes (batch iv ws) (bitmap_abs B rm)"
proof -
  have same: "map (\<lambda>(offset, len). (uint64 offset, uint64 len, iv)) (map (\<lambda>(offset, len). (int offset, int len)) ws) = batch iv ws"
    using assms(2) by (auto simp: uint64_def)
  have "writes_ok (batch iv ws)" using assms(2) by fastforce
  from brm.add_all_ok [OF assms(1) this] show thesis
    using that unfolding doAdd_def same by blast
qed

lemma batch_empty: "apply_writes (batch iv []) m = m"
  by simp

lemma PushReader_loop_ok:
  assumes br: "block_hole_reader bs br c"
  shows "bitmap_inv B S rm \<Longrightarrow> \<forall>(offset, len)\<in>set ws. offset + len \<le> max_off \<Longrightarrow> k * bs \<le> max_off \<Longrightarrow>
    \<exists>rm'. PushReader_loop B S br iv rm (map (\<lambda>(offset, len). (int offset, int len)) ws) (int k) = Some rm' \<and>
      bitmap_inv B S rm' \<and>
      bitmap_abs B rm' = (\<lambda>i. if k \<le> i \<and> c i \<noteq> None then Some iv else apply_writes (batch iv ws) (bitmap_abs B rm) i)"
proof (induction "max_off - k" arbitrary: k rm ws rule: less_induct)
  case less
  show ?case
  proof (cases "next_data c k")
    case None
    from block_hole_reader.NextBlockData_end [OF br less.prems(3) None] obtain e where
      e: "NextBlockData br (int k) = Some (e, Some EOF)" by blast
    obtain rm' where rm': "doAdd B S iv (map (\<lambda>(offset, len). (int offset, int len)) ws) rm = Some rm'"
      "bitmap_inv B S rm'" "bitmap_abs B rm' = apply_writes (batch iv ws) (bitmap_abs B rm)"
      by (rule doAdd_ok [OF less.prems(1,2)])
    have "(\<lambda>i. if k \<le> i \<and> c i \<noteq> None then Some iv else apply_writes (batch iv ws) (bitmap_abs B rm) i) =
        bitmap_abs B rm'"
      using None by (auto simp: next_data_None rm'(3) fun_eq_iff)
    with e rm' show ?thesis by (subst PushReader_loop.simps) simp
  next
    case (Some s)
    then have s: "k \<le> s" "c s \<noteq> None" "\<And>i. k \<le> i \<Longrightarrow> i < s \<Longrightarrow> c i = None"
      unfolding next_data_Some by auto
    note nd = block_hole_reader.NextBlockData_ok [OF br less.prems(3) Some]
    have sb: "s * bs \<le> max_off" using block_hole_reader.block_bounded [OF br s(2)] by simp
    define e where "e = next_hole c s"
    note nh = block_hole_reader.NextBlockHole_ok [OF br sb, folded e_def]
    have e: "s \<le> e" "c e = None" "\<And>i. s \<le> i \<Longrightarrow> i < e \<Longrightarrow> c i \<noteq> None"
      using block_hole_reader.hole_eq [OF br, of s e] e_def by auto
    have eb: "e * bs \<le> max_off" unfolding e_def by (rule block_hole_reader.hole_bound [OF br sb])
    have "0 < bs" using br by (simp add: block_hole_reader_def)
    then have em: "e \<le> max_off" using le_mult_pos [of bs e] eb by linarith
    have se: "s < e" using e(1,2) s(2) by (metis le_neq_implies_less)
    let ?ws = "ws @ [(s, e - s)]"
    have len: "s64 (int e - int s) = int (e - s)"
      using em se by (subst s64_id) (auto simp: of_nat_diff)
    have ws: "\<forall>(offset, len)\<in>set ?ws. offset + len \<le> max_off" using less.prems(2) em se by auto
    have lt: "max_off - e < max_off - k" using em se s(1) by simp
    have grow: "(\<lambda>i. if e \<le> i \<and> c i \<noteq> None then Some iv else apply_writes (batch iv ?ws) m i) =
        (\<lambda>i. if k \<le> i \<and> c i \<noteq> None then Some iv else apply_writes (batch iv ws) m i)" for m :: "nat \<rightharpoonup> nat"
    proof
      fix i
      consider "i < k" | "k \<le> i" "i < s" | "s \<le> i" "i < e" | "e \<le> i" by linarith
      then show "(if e \<le> i \<and> c i \<noteq> None then Some iv else apply_writes (batch iv ?ws) m i) =
          (if k \<le> i \<and> c i \<noteq> None then Some iv else apply_writes (batch iv ws) m i)"
        using s(1,3) e(3) se by cases (auto simp: add_range_def)
    qed
    show ?thesis
    proof (cases "length ?ws \<ge> BatchSize")
      case True
      obtain rm' where rm': "doAdd B S iv (map (\<lambda>(offset, len). (int offset, int len)) ?ws) rm = Some rm'"
        "bitmap_inv B S rm'" "bitmap_abs B rm' = apply_writes (batch iv ?ws) (bitmap_abs B rm)"
        by (rule doAdd_ok [OF less.prems(1) ws])
      from less.hyps [OF lt rm'(2) _ eb, of "[]", unfolded batch_empty rm'(3) grow] rm'(1) True nd nh len
      show ?thesis by (subst PushReader_loop.simps) simp
    next
      case False
      from less.hyps [OF lt less.prems(1) ws eb] False nd nh len show ?thesis
        unfolding grow by (subst PushReader_loop.simps) simp
    qed
  qed
qed

lemma PushReader_ok:
  assumes inv: "blockmap_inv B S r" and new: "br \<notin> set (bmr_rs r)" and len: "length (bmr_rs r) < 2 ^ 16 - 1"
    and br: "block_hole_reader bs (env br) c"
  obtains r' where "blockmap_PushReader B S env r br = Some r'" "blockmap_inv B S r'"
    "bmr_rs r' = bmr_rs r @ [br]" "\<And>k. owner B r' k = (if c k \<noteq> None then Some br else owner B r k)"
    "bmr_blockSize r' = bmr_blockSize r"
proof -
  obtain iv r1 where r1: "fetchOrAddValueIndex S (r\<lparr>bmr_rs := bmr_rs r @ [br]\<rparr>) br = Some (iv, r1)"
    "blockmap_inv B S r1" "bmr_rs r1 = bmr_rs r @ [br]" "rangeMap r1 = rangeMap r" "valueMap r1 iv = Some br"
    "\<And>k. owner B r1 k = owner B r k" "bmr_blockSize r1 = bmr_blockSize r"
    using fetch_new [OF inv new len] by metis
  from PushReader_loop_ok [OF br blockmap_invD(1) [OF r1(2)], of "[]" 0 iv, unfolded batch_empty] obtain rm where
    rm: "PushReader_loop B S (env br) iv (rangeMap r1) [] 0 = Some rm" "bitmap_inv B S rm"
      "bitmap_abs B rm = (\<lambda>i. if c i \<noteq> None then Some iv else bitmap_abs B (rangeMap r1) i)" by auto
  let ?r = "r1\<lparr>rangeMap := rm\<rparr>"
  have "blockmap_PushReader B S env r br = Some ?r"
    using new r1(1) rm(1) by (simp add: blockmap_PushReader_def Let_def)
  moreover have "blockmap_inv B S ?r"
    using r1(2,5) rm(2,3) unfolding blockmap_inv_def by (auto split: if_splits)
  moreover have "owner B ?r k = (if c k \<noteq> None then Some br else owner B r k)" for k
    using r1(5) r1(6) [of k] by (simp add: owner_def rm(3))
  ultimately show thesis using r1(3,7) by (intro that [of ?r]) simp_all
qed

text \<open>Removing a reader that owns no block.\<close>

lemma RemoveTable_ok:
  assumes inv: "blockmap_inv B S r" and br: "br \<in> set (bmr_rs r)" and unused: "\<And>k. owner B r k \<noteq> Some br"
  obtains r' where "blockmap_RemoveTable S r br = Some r'" "blockmap_inv B S r'"
    "bmr_rs r' = remove1 br (bmr_rs r)" "\<And>k. owner B r' k = owner B r k"
proof -
  from br blockmap_invD(3) [OF inv] obtain iv where iv: "indexMap r br = Some iv" by blast
  then have v: "valueMap r iv = Some br" unfolding blockmap_invD(4) [OF inv] .
  with blockmap_invD(6) [OF inv, of iv] have pos: "0 < iv" "iv < 2 ^ 16" by auto
  have no: "bitmap_abs B (rangeMap r) k \<noteq> Some iv" for k
    using unused [of k] owner_index [OF inv v, of k] by blast
  let ?r = "r\<lparr>bmr_rs := remove1 br (bmr_rs r), indexMap := (indexMap r)(br := None),
      valueMap := (valueMap r)(iv := None), freeSet := bs_Set S (freeSet r) iv\<rparr>"
  have "blockmap_RemoveTable S r br = Some ?r"
    using iv pos by (simp add: blockmap_RemoveTable_def)
  moreover have "blockmap_inv B S ?r"
  proof -
    have inv_maps: "((indexMap r)(br := None)) b = Some i \<longleftrightarrow> ((valueMap r)(iv := None)) i = Some b" for b i
      using blockmap_invD(4) [OF inv, of b i] blockmap_invD(4) [OF inv, of br i] iv v by (cases "i = iv") auto
    have "dom ((indexMap r)(br := None)) = set (remove1 br (bmr_rs r))"
      using blockmap_invD(2,3) [OF inv] by (auto simp: set_remove1_eq)
    moreover have "bs_Test S (bs_Set S (freeSet r) iv) i \<longleftrightarrow> 0 < i \<and> i < 2 ^ 16 \<and> ((valueMap r)(iv := None)) i = None" for i
      using pos blockmap_invD(5) [OF inv, of i] by (auto simp: bs_test_set)
    moreover have "((valueMap r)(iv := None)) i \<noteq> None \<Longrightarrow> 0 < i \<and> i < 2 ^ 16" for i
      using blockmap_invD(6) [OF inv, of i] by (auto split: if_splits)
    moreover have "bitmap_abs B (rangeMap r) k = Some i \<Longrightarrow> ((valueMap r)(iv := None)) i \<noteq> None" for k i
      using blockmap_invD(7) [OF inv, of k i] no [of k] by auto
    ultimately show ?thesis
      unfolding blockmap_inv_def using blockmap_invD(1,2) [OF inv] inv_maps by simp
  qed
  moreover have "owner B ?r k = owner B r k" for k
    using no [of k] by (cases "bitmap_abs B (rangeMap r) k") (auto simp: owner_def)
  ultimately show thesis by (intro that [of ?r]) simp_all
qed


end

section \<open>The block map as a block reader\<close>

definition blockmap_content :: "'b bitmap256_ops \<Rightarrow> ('r \<Rightarrow> nat \<rightharpoonup> bytes) \<Rightarrow> ('b, 's, 'r) blockmapReader \<Rightarrow>
    nat \<rightharpoonup> bytes" where
  "blockmap_content B C r k = Option.bind (owner B r k) (\<lambda>br. C br k)"

locale block_map = block_index B S
  for B :: "'b bitmap256_ops" and S :: "'s bitset_ops" +
  fixes env :: "'r \<Rightarrow> BlockHoleReader" and C :: "'r \<Rightarrow> nat \<rightharpoonup> bytes" and bs :: nat
    and r :: "('b, 's, 'r) blockmapReader"
  assumes map_inv: "blockmap_inv B S r" and map_bs: "bmr_blockSize r = int bs" and map_pos: "0 < bs"
    and map_readers: "br \<in> set (bmr_rs r) \<Longrightarrow> block_hole_reader bs (env br) (C br)"
    and map_owned: "owner B r k = Some br \<Longrightarrow> C br k \<noteq> None"
begin

abbreviation content :: "nat \<rightharpoonup> bytes" where
  "content \<equiv> blockmap_content B C r"

lemma content_None: "content k = None \<longleftrightarrow> bitmap_abs B (rangeMap r) k = None"
  using map_owned [of k] owner_None [OF map_inv, of k]
  by (cases "owner B r k") (auto simp: blockmap_content_def)

lemma content_owner: "owner B r k = Some br \<Longrightarrow> content k = C br k"
  by (simp add: blockmap_content_def)

lemma owner_reader: "owner B r k = Some br \<Longrightarrow> block_hole_reader bs (env br) (C br)"
  using owner_listed [OF map_inv] map_readers by blast

lemma content_block: "content i = Some b \<Longrightarrow> length b = bs" "content i \<noteq> None \<Longrightarrow> Suc i * bs \<le> max_off"
proof -
  show "length b = bs" if c: "content i = Some b"
  proof -
    from c obtain br where br: "owner B r i = Some br" "C br i = Some b"
      by (auto simp: blockmap_content_def bind_eq_Some_conv)
    from block_hole_reader.block_len [OF owner_reader [OF br(1)] br(2)] show ?thesis .
  qed
  show "Suc i * bs \<le> max_off" if c: "content i \<noteq> None"
  proof -
    from c obtain br where br: "owner B r i = Some br" "C br i \<noteq> None"
      by (cases "owner B r i") (auto simp: blockmap_content_def)
    from block_hole_reader.block_bounded [OF owner_reader [OF br(1)] br(2)] show ?thesis .
  qed
qed

lemma find_owner: "k \<le> max_off \<Longrightarrow> blockmap_find B r (int k) = owner B r k"
  by (auto simp: blockmap_find_def owner_def Get_bitmap uint64_def split: option.splits)

lemma same_reader_ok:
  assumes "\<forall>i<m. owner B r (k + i) = Some br" "k + m + rem \<le> max_off"
    and "m' = same_reader B r br (int k) rem m"
  shows "m \<le> m' \<and> m' \<le> m + rem \<and> (\<forall>i<m'. owner B r (k + i) = Some br)"
  using assms
proof (induction rem arbitrary: m m')
  case (Suc rem)
  have s: "s64 (int k + int m) = int (k + m)" using Suc.prems(2) by (subst s64_id) auto
  have f: "blockmap_find B r (int (k + m)) = owner B r (k + m)" by (rule find_owner) (use Suc.prems(2) in simp)
  show ?case
  proof (cases "owner B r (k + m) = Some br")
    case False
    with Suc.prems(1,3) show ?thesis by (simp add: s f del: of_nat_add)
  next
    case True
    with Suc.prems(1) have "\<forall>i<Suc m. owner B r (k + i) = Some br" by (simp add: less_Suc_eq)
    from Suc.IH [OF this] True Suc.prems(2,3) show ?thesis by (simp add: s f del: of_nat_add)
  qed
qed simp

lemma content_run:
  assumes "\<forall>i<m. owner B r (k + i) = Some br"
  shows "all_data (C br) k m" "concat (read_data (C br) k m) = blocks_or_zero bs content k m"
proof -
  show d: "all_data (C br) k m" using assms map_owned by (simp add: all_data_def)
  have "blocks_or_zero bs content k m = blocks_or_zero bs (C br) k m"
    by (rule blocks_or_zero_cong) (simp add: assms content_owner)
  then show "concat (read_data (C br) k m) = blocks_or_zero bs content k m"
    using blocks_or_zero_data [OF d, of bs] by simp
qed

lemma ReadBlocks_loop_ok:
  assumes "length b = n * bs" "k + n \<le> max_off"
  shows "blockmap_ReadBlocks_loop B env r b (int k) c = Some (blocks_or_zero bs content k n, c + int n, None)"
  using assms
proof (induction n arbitrary: b k c rule: less_induct)
  case (less n)
  show ?case
  proof (cases "n = 0")
    case True
    with less.prems show ?thesis by (subst blockmap_ReadBlocks_loop.simps) simp
  next
    case False
    then have ne: "b \<noteq> []" and bl: "bs \<le> length b" using less.prems(1) map_pos by (auto simp: Suc_le_eq)
    have f: "blockmap_find B r (int k) = owner B r k" using less.prems(2) by (intro find_owner) simp
    show ?thesis
    proof (cases "owner B r k")
      case None
      have s: "s64 (int k + 1) = int (Suc k)" using less.prems(2) False by (subst s64_id) auto
      have "length (drop bs b) = (n - 1) * bs" using less.prems(1) by (simp add: diff_mult_distrib)
      from less.IH [OF _ this, of "Suc k" "c + 1"] less.prems(2) False
      have IH: "blockmap_ReadBlocks_loop B env r (drop bs b) (int (Suc k)) (c + 1) =
          Some (blocks_or_zero bs content (Suc k) (n - 1), c + int n, None)" by (simp add: of_nat_diff)
      have "content k = None" using None by (simp add: blockmap_content_def)
      then have "blocks_or_zero bs content k n = replicate bs 0 @ blocks_or_zero bs content (Suc k) (n - 1)"
        using blocks_or_zero_append [of bs content k 1 "n - 1"] False by (simp add: blocks_or_zero_def)
      with None f IH s ne bl show ?thesis
        by (subst blockmap_ReadBlocks_loop.simps) (simp add: map_bs del: of_nat_Suc)
    next
      case (Some br)
      define m where m: "m = same_reader B r br (int k) (n - 1) 1"
      have run: "1 \<le> m" "m \<le> n" "\<forall>i<m. owner B r (k + i) = Some br"
        using same_reader_ok [of 1 k br "n - 1" m] Some m less.prems(2) False by auto
      have rem: "nat (go_div (int (length b)) (int bs) - 1) = n - 1"
        using less.prems(1) map_pos False by (simp add: go_div_nonneg nat_diff_distrib)
      have ml: "m * bs \<le> length b" using run(2) less.prems(1) by simp
      have rd: "ReadBlocks (env br) (take (m * bs) b) (int k) = Some (concat (read_data (C br) k m), int m, None)"
        using run(1) ml content_run(1) [OF run(3)]
        by (intro block_hole_reader.ReadBlocks_ok [OF owner_reader [OF Some]]) auto
      have len: "length (blocks_or_zero bs content k m) = m * bs"
        by (rule length_blocks_or_zero) (rule content_block)
      have s: "s64 (int k + int m) = int (k + m)" using less.prems(2) run(2) by (subst s64_id) auto
      have "length (drop (m * bs) b) = (n - m) * bs" using less.prems(1) by (simp add: diff_mult_distrib)
      from less.IH [OF _ this, of "k + m" "c + int m"] run(1,2) less.prems(2)
      have IH: "blockmap_ReadBlocks_loop B env r (drop (m * bs) b) (int (k + m)) (c + int m) =
          Some (blocks_or_zero bs content (k + m) (n - m), c + int n, None)" by (simp add: of_nat_diff)
      have app: "blocks_or_zero bs content k n = blocks_or_zero bs content k m @ blocks_or_zero bs content (k + m) (n - m)"
        using blocks_or_zero_append [of bs content k m "n - m"] run(2) by simp
      have i: "int m * int bs = int (m * bs)" by simp
      show ?thesis
        unfolding app using Some f IH s ne ml rd len
        by (subst blockmap_ReadBlocks_loop.simps)
          (simp add: map_bs rem m [symmetric, simplified] i content_run(2) [OF run(3)] Let_def del: of_nat_mult of_nat_add)
    qed
  qed
qed


lemma content_nd: "next_data content k = next_data (bitmap_abs B (rangeMap r)) k"
  and content_nh: "next_hole content k = next_hole (bitmap_abs B (rangeMap r)) k"
  by (simp_all only: next_data_def next_hole_def content_None)

end

sublocale block_map \<subseteq> rdr: block_hole_reader bs "blockmap_reader B S env r" "blockmap_content B C r"
proof (unfold_locales, goal_cases)
  case 1 show ?case by (rule map_pos)
next
  case 2 then show ?case by (rule content_block)
next
  case 3 then show ?case by (rule content_block)
next
  case (4 k j)
  have k: "k \<le> max_off" using 4(1) le_mult_pos [OF map_pos, of k] by linarith
  have "bitmap_abs B (rangeMap r) j \<noteq> None" using 4(2) unfolding content_nd next_data_Some by blast
  with brm.bounded [OF blockmap_invD(1) [OF map_inv], of j] have j: "j < key_limit" by blast
  have nk: "BitmapRangeMap_NextKey B S (rangeMap r) k = Some (j, True)"
    using 4(2) [unfolded content_nd] unfolding next_data_def NextKey_bitmap [OF blockmap_invD(1) [OF map_inv]]
    by (auto split: if_splits)
  have "uint64 (int k) = k" using k by (simp add: uint64_def)
  with nk j show ?case
    by (simp add: blockmap_reader_def blockmap_NextBlockData_def int64_id)
next
  case (5 k)
  have k: "k \<le> max_off" using 5(1) le_mult_pos [OF map_pos, of k] by linarith
  have nk: "BitmapRangeMap_NextKey B S (rangeMap r) k = Some (0, False)"
    using 5(2) [unfolded content_nd] unfolding next_data_def NextKey_bitmap [OF blockmap_invD(1) [OF map_inv]]
    by (auto split: if_splits)
  have "uint64 (int k) = k" using k by (simp add: uint64_def)
  with nk show ?case by (simp add: blockmap_reader_def blockmap_NextBlockData_def)
next
  case (6 k)
  have k: "k \<le> max_off" using 6 le_mult_pos [OF map_pos, of k] by linarith
  then have u: "uint64 (int k) = k" and kl: "k < key_limit" by (simp_all add: uint64_def)
  have bd: "\<forall>j. content j \<noteq> None \<longrightarrow> j < max_off"
  proof (intro allI impI)
    fix j assume "content j \<noteq> None"
    from content_block(2) [OF this] le_mult_pos [OF map_pos, of "Suc j"] show "j < max_off" by linarith
  qed
  have hole: "next_hole content k \<le> max_off"
  proof (rule ccontr)
    let ?h = "next_hole content k"
    assume "\<not> ?h \<le> max_off"
    moreover have "\<forall>i. k \<le> i \<longrightarrow> i < ?h \<longrightarrow> content i \<noteq> None"
      using next_hole_eq [OF bd, of k ?h] by blast
    ultimately have "content max_off \<noteq> None" using k by (meson not_le)
    with bd show False by blast
  qed
  then have "int64 (next_hole content k) = int (next_hole content k)" by (intro int64_id) simp
  with NextEmpty_bitmap [OF blockmap_invD(1) [OF map_inv] kl, folded next_hole_def content_nh] u show ?case
    by (simp add: blockmap_reader_def blockmap_NextBlockHole_def)
next
  case (7 n k buf)
  have "n - 1 < n" using 7(1) by simp
  with 7(2) have "content (k + (n - 1)) \<noteq> None" unfolding all_data_def by blast
  from content_block(2) [OF this] have "(k + n) * bs \<le> max_off" using 7(1) by simp
  with le_mult_pos [OF map_pos, of "k + n"] have "k + n \<le> max_off" by (rule order_trans)
  from ReadBlocks_loop_ok [OF 7(3) this, of 0] blocks_or_zero_data [OF 7(2), of bs] 7(3) map_pos
  show ?case
    by (simp add: blockmap_reader_def blockmap_ReadBlocks_def map_bs go_mod_mult del: of_nat_mult)
qed

context block_map
begin

lemmas as_reader = rdr.block_hole_reader_axioms

end

section \<open>Counting and copying live blocks\<close>

abbreviation sorted_runs :: "'v RangeValue list \<Rightarrow> bool" where
  "sorted_runs rs \<equiv> sorted_wrt (\<lambda>a b. rend a \<le> Offset b) rs"

lemma dom_cover_Cons: "dom (cover (x # xs)) = {Offset x..<rend x} \<union> dom (cover xs)"
  by (auto simp: cover_Cons inside_def split: if_splits)

lemma cover_Nil: "cover [] = Map.empty"
  by (simp add: cover_def fun_eq_iff)

lemma finite_cover: "finite (dom (cover rs))"
  by (induction rs) (simp_all add: dom_cover_Cons cover_Nil)

lemma cover_after: "sorted_runs (x # xs) \<Longrightarrow> k < rend x \<Longrightarrow> cover xs k = None"
  by (fastforce simp: cover_None inside_def)

lemma card_cover: "sorted_runs rs \<Longrightarrow> card (dom (cover rs)) = sum_list (map Length rs)"
proof (induction rs)
  case Nil
  then show ?case by (simp add: cover_Nil)
next
  case (Cons x xs)
  have "{Offset x..<rend x} \<inter> dom (cover xs) = {}"
    using cover_after [OF Cons.prems] by fastforce
  with Cons show ?case
    unfolding dom_cover_Cons by (subst card_Un_disjoint) (simp_all add: finite_cover)
qed

text \<open>The runs with value \<open>v\<close>, and those with a value in \<open>R\<close>.\<close>

lemma cover_filter:
  "sorted_runs rs \<Longrightarrow> cover (filter (\<lambda>r. P (Value r)) rs) k =
    (case cover rs k of Some v \<Rightarrow> if P v then Some v else None | None \<Rightarrow> None)"
proof (induction rs)
  case (Cons x xs)
  show ?case
  proof (cases "inside k x")
    case True
    then have "cover xs k = None" using cover_after [OF Cons.prems] by (simp add: inside_def)
    with Cons True show ?thesis by (simp add: cover_Cons)
  next
    case False
    with Cons show ?thesis by (simp add: cover_Cons)
  qed
qed (simp add: cover_def)

lemma apply_runs:
  "sorted_runs rs \<Longrightarrow> apply_writes (map (\<lambda>r. (Offset r, Length r, Value r)) rs) m k =
    (case cover rs k of Some v \<Rightarrow> Some v | None \<Rightarrow> m k)"
proof (induction rs arbitrary: m)
  case (Cons x xs)
  then show ?case
    using cover_after [OF Cons.prems, of k]
    by (auto simp: cover_Cons add_range_def inside_def split: option.splits)
qed (simp add: cover_def)

lemma runs_cover: "is_runs m 0 rs \<Longrightarrow> cover rs = m"
  by (simp add: is_runs_def fun_eq_iff)

lemma visit_count: "sum_list (map Length rs) + n < 2 ^ 64 \<Longrightarrow>
    visit (\<lambda>rg count. (u64 (count + Length rg), True)) rs n = n + sum_list (map Length rs)"
  by (induction rs arbitrary: n) (simp_all add: u64_id)

context block_index
begin

lemma Iterate_all:
  fixes rm :: "('b, 's, nat) BitmapRangeMap"
  assumes "bitmap_inv B S rm"
  obtains rs where "is_runs (bitmap_abs B rm) 0 rs"
    "\<And>iter s. BitmapRangeMap_Iterate B S 0 rm 0 iter s = Some (visit iter rs s)"
  using Iterate_bitmap [OF assms, of 0] bitmap_run_list_runs [OF assms, of 0] by blast

lemma abs_finite:
  fixes rm :: "('b, 's, nat) BitmapRangeMap"
  assumes "bitmap_inv B S rm"
  shows "finite (dom (bitmap_abs B rm))"
proof -
  have "dom (bitmap_abs B rm) \<subseteq> {..<key_limit}" using bitmap_bounded [OF assms] by (auto simp: dom_def)
  then show ?thesis by (rule finite_subset) simp
qed

end

context block_map
begin

lemma LiveBlocks_card: "blockmap_LiveBlocks B S r = Some (int (card {k. content k \<noteq> None}))"
proof -
  obtain rs where rs: "is_runs (bitmap_abs B (rangeMap r)) 0 rs"
    and it: "\<And>iter s. BitmapRangeMap_Iterate B S 0 (rangeMap r) 0 iter s = Some (visit iter rs (s :: nat))"
    by (rule Iterate_all [OF blockmap_invD(1) [OF map_inv]]) blast
  have dom: "dom (bitmap_abs B (rangeMap r)) = {k. content k \<noteq> None}"
    by (auto simp: dom_def content_None [symmetric] simp del: not_None_eq)
  have "card {k. content k \<noteq> None} = sum_list (map Length rs)"
    using card_cover [of rs] rs runs_cover [OF rs] unfolding dom [symmetric] by (simp add: is_runs_def)
  moreover have "card {k. content k \<noteq> None} \<le> card {..<max_off}"
    using rdr.block_index by (intro card_mono) blast+
  ultimately show ?thesis
    using it visit_count [of rs 0] by (simp add: blockmap_LiveBlocks_def int64_id)
qed

end

lemma live_readers_ok:
  assumes "bitset S" "\<forall>br\<in>set rs. indexMap r br \<noteq> None"
    and "\<forall>br iv. indexMap r br = Some iv \<longleftrightarrow> valueMap r iv = Some br"
  shows "\<exists>nr' R'. live_readers S r rs nr R = Some (nr', R') \<and>
    R' = R \<union> {iv. \<exists>br\<in>set rs. valueMap r iv = Some br} \<and>
    (\<forall>iv. valueMap nr' iv = (if \<exists>br\<in>set rs. valueMap r iv = Some br then valueMap r iv else valueMap nr iv)) \<and>
    (\<forall>br. indexMap nr' br = (if br \<in> set rs then indexMap r br else indexMap nr br)) \<and>
    (\<forall>iv. bs_Test S (freeSet nr') iv \<longleftrightarrow> bs_Test S (freeSet nr) iv \<and> (\<forall>br\<in>set rs. valueMap r iv \<noteq> Some br)) \<and>
    bmr_rs nr' = bmr_rs nr \<and> bmr_blockSize nr' = bmr_blockSize nr \<and> rangeMap nr' = rangeMap nr"
  using assms(2)
proof (induction rs arbitrary: nr R)
  case (Cons b rs)
  from Cons.prems obtain i where i: "indexMap r b = Some i" by auto
  then have vi: "valueMap r i = Some b" using assms(3) by blast
  have same: "valueMap r iv = Some b \<longleftrightarrow> iv = i" for iv
    using i assms(3) by (metis option.inject)
  let ?nr = "nr\<lparr>freeSet := bs_Clear S (freeSet nr) i, valueMap := (valueMap nr)(i \<mapsto> b),
      indexMap := (indexMap nr)(b \<mapsto> i)\<rparr>"
  from Cons.IH [of ?nr "insert i R"] Cons.prems obtain nr' R' where
    IH: "live_readers S r rs ?nr (insert i R) = Some (nr', R')"
      "R' = insert i R \<union> {iv. \<exists>br\<in>set rs. valueMap r iv = Some br}"
      "\<forall>iv. valueMap nr' iv = (if \<exists>br\<in>set rs. valueMap r iv = Some br then valueMap r iv else valueMap ?nr iv)"
      "\<forall>br. indexMap nr' br = (if br \<in> set rs then indexMap r br else indexMap ?nr br)"
      "\<forall>iv. bs_Test S (freeSet nr') iv \<longleftrightarrow> bs_Test S (freeSet ?nr) iv \<and> (\<forall>br\<in>set rs. valueMap r iv \<noteq> Some br)"
      "bmr_rs nr' = bmr_rs ?nr" "bmr_blockSize nr' = bmr_blockSize ?nr" "rangeMap nr' = rangeMap ?nr"
    by force
  have "R' = R \<union> {iv. \<exists>br\<in>set (b # rs). valueMap r iv = Some br}"
    using IH(2) same by auto
  moreover have "valueMap nr' iv =
      (if \<exists>br\<in>set (b # rs). valueMap r iv = Some br then valueMap r iv else valueMap nr iv)" for iv
    using IH(3) [rule_format, of iv] same [of iv] by auto
  moreover have "indexMap nr' br = (if br \<in> set (b # rs) then indexMap r br else indexMap nr br)" for br
    using IH(4) [rule_format, of br] i by auto
  moreover have "bs_Test S (freeSet nr') iv \<longleftrightarrow>
      bs_Test S (freeSet nr) iv \<and> (\<forall>br\<in>set (b # rs). valueMap r iv \<noteq> Some br)" for iv
    using IH(5) [rule_format, of iv] same [of iv] by (auto simp: bitset.bs_test_clear [OF assms(1)])
  ultimately show ?case using IH(1,6-8) i by auto
qed auto

context block_index
begin

abbreviation copy_live :: "nat set \<Rightarrow> nat RangeValue \<Rightarrow> ('b, 's, nat) BitmapRangeMap option \<Rightarrow>
    ('b, 's, nat) BitmapRangeMap option \<times> bool" where
  "copy_live R rg rm \<equiv> (case rm of
       None \<Rightarrow> (None, False)
     | Some m \<Rightarrow> if Value rg \<in> R
         then (case BitmapRangeMap_Add B S 0 m (Offset rg) (Length rg) (Value rg) of
                 None \<Rightarrow> (None, False) | Some m \<Rightarrow> (Some m, True))
         else (Some m, True))"

lemma copy_live_ok:
  assumes "bitmap_inv B S m" "\<forall>rg\<in>set rs. rend rg \<le> key_limit"
  shows "\<exists>m'. visit (copy_live R) rs (Some m) = Some m' \<and> bitmap_inv B S m' \<and>
    bitmap_abs B m' = apply_writes (map (\<lambda>r. (Offset r, Length r, Value r)) (filter (\<lambda>rg. Value rg \<in> R) rs)) (bitmap_abs B m)"
  using assms
proof (induction rs arbitrary: m)
  case (Cons x xs)
  show ?case
  proof (cases "Value x \<in> R")
    case False
    with Cons show ?thesis by simp
  next
    case True
    from brm.Add_ok [OF Cons.prems(1), of "Offset x" "Length x" "Value x"] Cons.prems(2) obtain m1 where
      "BitmapRangeMap_Add B S 0 m (Offset x) (Length x) (Value x) = Some m1" "bitmap_inv B S m1"
      "bitmap_abs B m1 = add_range (Offset x) (Length x) (Value x) (bitmap_abs B m)" by auto
    with Cons.IH [of m1] Cons.prems(2) True show ?thesis by simp
  qed
qed simp

lemma ReaderForLiveBytes_ok:
  fixes r :: "('b, 's, 'r) blockmapReader"
  assumes inv: "blockmap_inv B S r" and rs: "distinct rs" "set rs \<subseteq> set (bmr_rs r)"
  obtains r' where "blockmap_ReaderForLiveBytes B S r rs = Some r'" "blockmap_inv B S r'" "bmr_rs r' = rs"
    "\<And>k. owner B r' k = (case owner B r k of None \<Rightarrow> None | Some br \<Rightarrow> if br \<in> set rs then Some br else None)"
    "bmr_blockSize r' = bmr_blockSize r"
proof -
  let ?new = "(blockmap_NewReader S (bmr_blockSize r) (bmr_numBlocks r))\<lparr>bmr_rs := rs\<rparr> :: ('b, 's, 'r) blockmapReader"
  define R where "R = {iv. \<exists>br\<in>set rs. valueMap r iv = Some br}"
  have idx: "\<forall>br\<in>set rs. indexMap r br \<noteq> None" using rs(2) blockmap_invD(3) [OF inv] by blast
  have maps: "\<forall>br iv. indexMap r br = Some iv \<longleftrightarrow> valueMap r iv = Some br" using blockmap_invD(4) [OF inv] by blast
  from live_readers_ok [OF bitset_axioms idx maps, of ?new "{}", folded R_def] obtain nr R' where
    lr: "live_readers S r rs ?new {} = Some (nr, R')" "R' = {} \<union> R"
      "\<forall>iv. valueMap nr iv = (if \<exists>br\<in>set rs. valueMap r iv = Some br then valueMap r iv else valueMap ?new iv)"
      "\<forall>br. indexMap nr br = (if br \<in> set rs then indexMap r br else indexMap ?new br)"
      "\<forall>iv. bs_Test S (freeSet nr) iv \<longleftrightarrow> bs_Test S (freeSet ?new) iv \<and> (\<forall>br\<in>set rs. valueMap r iv \<noteq> Some br)"
      "bmr_rs nr = bmr_rs ?new" "bmr_blockSize nr = bmr_blockSize ?new" "rangeMap nr = rangeMap ?new"
    by (elim exE conjE) (rule that; assumption)
  have nr: "live_readers S r rs ?new {} = Some (nr, R)"
    "\<And>iv. valueMap nr iv = (if iv \<in> R then valueMap r iv else None)"
    "\<And>br. indexMap nr br = (if br \<in> set rs then indexMap r br else None)"
    "bmr_rs nr = rs" "bmr_blockSize nr = bmr_blockSize r" "rangeMap nr = NewBitmapRangeMap S"
    using lr(1-4,6-8) by (simp_all add: R_def blockmap_NewReader_def)
  have free: "bs_Test S (freeSet nr) iv \<longleftrightarrow> 0 < iv \<and> iv < 2 ^ 16 \<and> iv \<notin> R" for iv
    using lr(5) [rule_format, of iv]
    by (auto simp: R_def blockmap_NewReader_def bs_test_clear bs_test_setall bs_len_new)
  obtain runs where runs: "is_runs (bitmap_abs B (rangeMap r)) 0 runs"
    and it: "\<And>iter s. BitmapRangeMap_Iterate B S 0 (rangeMap r) 0 iter s =
      Some (visit iter runs (s :: ('b, 's, nat) BitmapRangeMap option))"
    by (rule Iterate_all [OF blockmap_invD(1) [OF inv]]) blast
  have "rend x \<le> key_limit" if x: "x \<in> set runs" for x
  proof -
    have "0 < Length x" "inside (rend x - 1) x" using runs x by (auto simp: is_runs_def inside_def)
    with x have "cover runs (rend x - 1) \<noteq> None" by (auto simp: cover_None)
    with runs_cover [OF runs] brm.bounded [OF blockmap_invD(1) [OF inv], of "rend x - 1"] show ?thesis by auto
  qed
  with copy_live_ok [OF empty_bitmap(1), of runs R] obtain m' where
    m': "visit (copy_live R) runs (Some (NewBitmapRangeMap S)) = Some m'" "bitmap_inv B S m'"
      "bitmap_abs B m' = apply_writes (map (\<lambda>r. (Offset r, Length r, Value r)) (filter (\<lambda>rg. Value rg \<in> R) runs)) Map.empty"
    unfolding empty_bitmap(2) by blast
  have sorted: "sorted_runs runs" using runs by (simp add: is_runs_def)
  have abs: "bitmap_abs B m' k =
      (case bitmap_abs B (rangeMap r) k of None \<Rightarrow> None | Some iv \<Rightarrow> if iv \<in> R then Some iv else None)" for k
    using apply_runs [OF sorted_wrt_filter [OF sorted], of "\<lambda>rg. Value rg \<in> R" Map.empty k]
      cover_filter [OF sorted, of "\<lambda>v. v \<in> R" k]
    unfolding m'(3) runs_cover [OF runs] by (simp split: option.splits)
  let ?r = "nr\<lparr>rangeMap := m'\<rparr>"
  have "blockmap_ReaderForLiveBytes B S r rs = Some ?r"
    using nr(1,6) it m'(1) by (simp add: blockmap_ReaderForLiveBytes_def Let_def)
  moreover have "blockmap_inv B S ?r"
  proof -
    have "dom (indexMap nr) = set rs" using idx by (auto simp: nr(3) dom_def split: if_splits)
    moreover have "indexMap nr br = Some iv \<longleftrightarrow> valueMap nr iv = Some br" for br iv
      using maps by (auto simp: nr(2,3) R_def)
    moreover have "bs_Test S (freeSet nr) iv \<longleftrightarrow> 0 < iv \<and> iv < 2 ^ 16 \<and> valueMap nr iv = None" for iv
      by (auto simp: free nr(2) R_def)
    moreover have "valueMap nr iv \<noteq> None \<Longrightarrow> 0 < iv \<and> iv < 2 ^ 16" for iv
      using blockmap_invD(6) [OF inv, of iv] by (auto simp: nr(2) split: if_splits)
    moreover have "bitmap_abs B m' k = Some iv \<Longrightarrow> valueMap nr iv \<noteq> None" for k iv
      by (auto simp: abs nr(2) R_def split: option.splits if_splits)
    ultimately show ?thesis using m'(2) rs(1) nr(4) unfolding blockmap_inv_def by simp
  qed
  moreover have "owner B ?r k = (case owner B r k of None \<Rightarrow> None | Some br \<Rightarrow> if br \<in> set rs then Some br else None)" for k
    using blockmap_invD(7) [OF inv, of k]
    by (auto simp: owner_def abs nr(2) R_def split: option.splits)
  ultimately show thesis using nr(4,5) by (intro that [of ?r]) simp_all
qed

end

abbreviation run_total :: "'v RangeValue list \<Rightarrow> 'v \<Rightarrow> nat" where
  "run_total rs v \<equiv> sum_list (map Length (filter (\<lambda>r. Value r = v) rs))"

abbreviation count_of :: "(nat \<times> int) list \<Rightarrow> nat \<Rightarrow> int" where
  "count_of m v \<equiv> (case map_of m v of Some c \<Rightarrow> c | None \<Rightarrow> 0)"

lemma blockCount_visit:
  assumes "distinct (map fst acc)" "\<forall>v. 0 \<le> count_of acc v \<and> count_of acc v + int (sum_list (map Length rs)) < 2 ^ 63"
    and "L = visit (\<lambda>rg m. (AList.update (Value rg) (s64 (count_of m (Value rg) + int64 (Length rg))) m, True)) rs acc"
  shows "distinct (map fst L) \<and> (\<forall>v. map_of L v =
    (if map_of acc v \<noteq> None \<or> v \<in> Value ` set rs then Some (count_of acc v + int (run_total rs v)) else None))"
  using assms
proof (induction rs arbitrary: acc)
  case Nil
  then show ?case by (auto split: option.splits)
next
  case (Cons x xs)
  let ?c = "s64 (count_of acc (Value x) + int64 (Length x))"
  let ?acc = "AList.update (Value x) ?c acc"
  have b: "0 \<le> count_of acc v" "count_of acc v + int (Length x) + int (sum_list (map Length xs)) < 2 ^ 63" for v
    using Cons.prems(2) [rule_format, of v] by simp_all
  have "int (Length x) < 2 ^ 63" using b [of "Value x"] by linarith
  then have "Length x < 2 ^ 63" by simp
  then have c: "?c = count_of acc (Value x) + int (Length x)"
    using b [of "Value x"] by (simp add: int64_id s64_id)
  have mo: "map_of ?acc v = (if v = Value x then Some (count_of acc (Value x) + int (Length x)) else map_of acc v)" for v
    unfolding c by (simp add: update_conv')
  have "distinct (map fst ?acc)" by (rule distinct_update) (rule Cons.prems(1))
  moreover have "\<forall>v. 0 \<le> count_of ?acc v \<and> count_of ?acc v + int (sum_list (map Length xs)) < 2 ^ 63"
  proof
    fix v
    show "0 \<le> count_of ?acc v \<and> count_of ?acc v + int (sum_list (map Length xs)) < 2 ^ 63"
      using b [of v] unfolding mo by (cases "v = Value x") simp_all
  qed
  moreover have "L = visit (\<lambda>rg m. (AList.update (Value rg) (s64 (count_of m (Value rg) + int64 (Length rg))) m, True)) xs ?acc"
    using Cons.prems(3) by simp
  ultimately have IH: "distinct (map fst L)" "\<And>v. map_of L v =
      (if map_of ?acc v \<noteq> None \<or> v \<in> Value ` set xs then Some (count_of ?acc v + int (run_total xs v)) else None)"
    using Cons.IH by blast+
  show ?case
  proof (intro conjI allI IH(1))
    fix v
    show "map_of L v = (if map_of acc v \<noteq> None \<or> v \<in> Value ` set (x # xs)
        then Some (count_of acc v + int (run_total (x # xs) v)) else None)"
      unfolding IH(2) mo by (cases "v = Value x") auto
  qed
qed

lemma fold_update_other: "\<forall>(iv, c)\<in>set xs. f iv \<noteq> k \<Longrightarrow> fold (\<lambda>(iv, c) m. m(f iv \<mapsto> c)) xs m k = m k"
  by (induction xs arbitrary: m) auto

lemma fold_update_key:
  assumes "(iv, c) \<in> set xs" "distinct (map fst xs)" "\<forall>(j, d)\<in>set xs. f j = f iv \<longrightarrow> j = iv"
  shows "fold (\<lambda>(iv, c) m. m(f iv \<mapsto> c)) xs m (f iv) = Some c"
  using assms
proof (induction xs arbitrary: m)
  case (Cons x xs)
  obtain j d where x: "x = (j, d)" by fastforce
  show ?case
  proof (cases "(iv, c) \<in> set xs")
    case True
    with Cons x show ?thesis by simp
  next
    case False
    with Cons.prems(1) x have jd: "j = iv" "d = c" by auto
    then have "\<forall>(i, e)\<in>set xs. f i \<noteq> f iv" using Cons.prems(2,3) x by force
    from fold_update_other [OF this, of "m(f iv \<mapsto> c)"] show ?thesis
      unfolding x jd by (simp only: fold_simps prod.case fun_upd_same)
  qed
qed simp

context block_map
begin

lemma GetLiveBlocks_ok:
  assumes order: "\<And>xs. mset (order xs) = mset xs"
  obtains m where "blockmap_GetLiveBlocks B S order r = Some m"
    "\<And>br. br \<in> set (bmr_rs r) \<Longrightarrow> m (Some br) = Some (int (card {k. owner B r k = Some br}))"
proof -
  obtain rs where rs: "is_runs (bitmap_abs B (rangeMap r)) 0 rs"
    and it: "\<And>iter s. BitmapRangeMap_Iterate B S 0 (rangeMap r) 0 iter s = Some (visit iter rs (s :: (nat \<times> int) list))"
    by (rule Iterate_all [OF blockmap_invD(1) [OF map_inv]]) blast
  have sorted: "sorted_runs rs" using rs by (simp add: is_runs_def)
  define L where "L = visit (\<lambda>rg m. (AList.update (Value rg) (s64 (count_of m (Value rg) + int64 (Length rg))) m, True)) rs []"
  have dom: "dom (cover rs) \<subseteq> {..<max_off}"
  proof
    fix k assume "k \<in> dom (cover rs)"
    then have "content k \<noteq> None" unfolding runs_cover [OF rs] content_None by blast
    then show "k \<in> {..<max_off}" using rdr.block_index by blast
  qed
  have "card (dom (cover rs)) \<le> max_off" using card_mono [OF _ dom] by simp
  then have "int (sum_list (map Length rs)) < 2 ^ 63" unfolding card_cover [OF sorted] by simp
  then have L: "distinct (map fst L)"
    "\<And>v. map_of L v = (if v \<in> Value ` set rs then Some (int (run_total rs v)) else None)"
    using blockCount_visit [of "[]" rs L] L_def by simp_all
  have total: "run_total rs v = card {k. bitmap_abs B (rangeMap r) k = Some v}" for v
  proof -
    have "dom (cover (filter (\<lambda>r. Value r = v) rs)) = {k. bitmap_abs B (rangeMap r) k = Some v}"
      using cover_filter [OF sorted, of "\<lambda>w. w = v"] runs_cover [OF rs]
      by (auto simp: dom_def split: option.splits if_splits)
    with card_cover [OF sorted_wrt_filter [OF sorted], of "\<lambda>r. Value r = v"] show ?thesis by simp
  qed
  have used: "valueMap r v \<noteq> None" if "v \<in> Value ` set rs" for v
  proof -
    from that obtain x where x: "x \<in> set rs" "Value x = v" by blast
    have "0 < Length x" using rs x(1) by (simp add: is_runs_def)
    then have "cover rs (Offset x) = Some v"
      unfolding cover_Some [OF sorted_separate [OF sorted]] using x by (auto simp: inside_def)
    with runs_cover [OF rs] blockmap_invD(7) [OF map_inv] show ?thesis by metis
  qed
  let ?O = "order L"
  have O: "set ?O = set L" "distinct (map fst ?O)"
    using order [of L] L(1) by (metis set_mset_mset, metis mset_map mset_eq_imp_distinct_iff)
  let ?m = "fold (\<lambda>(iv, c) m. m(valueMap r iv \<mapsto> c)) ?O (fold (\<lambda>br m. m(Some br \<mapsto> 0)) (bmr_rs r) Map.empty)"
  show thesis
  proof (rule that)
    show "blockmap_GetLiveBlocks B S order r = Some ?m"
      using it [of _ "[]"] by (simp add: blockmap_GetLiveBlocks_def blockCount_of_def L_def)
  next
    fix br assume "br \<in> set (bmr_rs r)"
    then obtain iv where iv: "indexMap r br = Some iv" using blockmap_invD(3) [OF map_inv] by blast
    then have viv: "valueMap r iv = Some br" using blockmap_invD(4) [OF map_inv] by blast
    have same: "valueMap r j = Some br \<longleftrightarrow> j = iv" for j
      using blockmap_value_inj [OF map_inv _ viv, of j] viv by metis
    then have inj: "\<forall>(j, d)\<in>set ?O. valueMap r j = valueMap r iv \<longrightarrow> j = iv"
      unfolding viv by simp
    have own: "{k. owner B r k = Some br} = {k. bitmap_abs B (rangeMap r) k = Some iv}"
      by (simp add: owner_def bind_eq_Some_conv same)
    show "?m (Some br) = Some (int (card {k. owner B r k = Some br}))"
    proof (cases "iv \<in> Value ` set rs")
      case True
      then have "(iv, int (run_total rs iv)) \<in> set ?O" unfolding O(1) using L(2) [of iv] by (auto dest: map_of_SomeD)
      from fold_update_key [OF this O(2) inj] show ?thesis unfolding viv own total [symmetric] .
    next
      case False
      then have "iv \<notin> fst ` set ?O" unfolding O(1) using L(2) [of iv] by (simp add: map_of_eq_None_iff)
      then have "\<forall>(j, c)\<in>set ?O. valueMap r j \<noteq> Some br" unfolding same by force
      moreover have "run_total rs iv = 0" using False by (auto simp: filter_empty_conv)
      moreover have "fold (\<lambda>br m. m(Some br \<mapsto> 0 :: int)) xs m (Some br) = (if br \<in> set xs then Some 0 else m (Some br))" for xs m
        by (induction xs arbitrary: m) auto
      ultimately show ?thesis using \<open>br \<in> set (bmr_rs r)\<close>
        by (simp add: fold_update_other own total [symmetric])
    qed
  qed
qed

end

section \<open>Readers pushed one after the other\<close>

fun push_all :: "'b bitmap256_ops \<Rightarrow> 's bitset_ops \<Rightarrow> ('r \<Rightarrow> BlockHoleReader) \<Rightarrow> 'r list \<Rightarrow>
    ('b, 's, 'r) blockmapReader \<Rightarrow> ('b, 's, 'r) blockmapReader option" where
  "push_all B S env [] r = Some r"
| "push_all B S env (br # brs) r = Option.bind (blockmap_PushReader B S env r br) (push_all B S env brs)"

text \<open>The last of \<open>brs\<close> that has block \<open>k\<close>.\<close>

definition newest :: "('r \<Rightarrow> nat \<rightharpoonup> 'a) \<Rightarrow> 'r list \<Rightarrow> nat \<Rightarrow> 'r option" where
  "newest C brs k = find (\<lambda>br. C br k \<noteq> None) (rev brs)"

lemma newest_snoc: "newest C (brs @ [br]) k = (if C br k \<noteq> None then Some br else newest C brs k)"
  by (simp add: newest_def)

lemma newest_layered: "Option.bind (newest C brs k) (\<lambda>br. C br k) = layered (map C (rev brs)) k"
proof -
  have "Option.bind (find (\<lambda>br. C br k \<noteq> None) xs) (\<lambda>br. C br k) = layered (map C xs) k" for xs
    by (induction xs) (auto split: option.splits)
  then show ?thesis by (simp add: newest_def)
qed

lemma newest_Some: "newest C brs k = Some br \<Longrightarrow> C br k \<noteq> None"
  unfolding newest_def by (auto simp: find_Some_iff)

context block_index
begin

lemma push_all_ok:
  assumes "blockmap_inv B S r" "\<And>k. owner B r k = newest C (bmr_rs r) k"
    and "distinct (bmr_rs r @ brs)" "length (bmr_rs r @ brs) < 2 ^ 16"
    and "\<forall>br\<in>set brs. block_hole_reader bs (env br) (C br)"
  shows "\<exists>r'. push_all B S env brs r = Some r' \<and> blockmap_inv B S r' \<and> bmr_rs r' = bmr_rs r @ brs \<and>
    (\<forall>k. owner B r' k = newest C (bmr_rs r @ brs) k) \<and> bmr_blockSize r' = bmr_blockSize r"
  using assms
proof (induction brs arbitrary: r)
  case (Cons br brs)
  obtain r1 where r1: "blockmap_PushReader B S env r br = Some r1" "blockmap_inv B S r1"
    "bmr_rs r1 = bmr_rs r @ [br]" "\<And>k. owner B r1 k = (if C br k \<noteq> None then Some br else owner B r k)"
    "bmr_blockSize r1 = bmr_blockSize r"
    using PushReader_ok [OF Cons.prems(1), of br bs env "C br"] Cons.prems(3-5) by auto
  have "owner B r1 k = newest C (bmr_rs r1) k" for k
    unfolding r1(3,4) newest_snoc Cons.prems(2) ..
  from Cons.IH [OF r1(2) this] Cons.prems(3-5) r1 show ?case by auto
qed simp

lemma pushed_block_map:
  assumes brs: "distinct brs" "length brs < 2 ^ 16" "\<forall>br\<in>set brs. block_hole_reader bs (env br) (C br)" "0 < bs"
  obtains r where "push_all B S env brs (blockmap_NewReader S (int bs) nb) = Some r"
    "block_map B S env C bs r" "blockmap_content B C r = layered (map C (rev brs))"
proof -
  let ?r = "blockmap_NewReader S (int bs) nb :: ('b, 's, 'c) blockmapReader"
  have rs: "bmr_rs ?r = []" "bmr_blockSize ?r = int bs" by (simp_all add: blockmap_NewReader_def)
  have own: "owner B ?r k = newest C (bmr_rs ?r) k" for k by (simp add: new_blockmap(2) rs newest_def)
  from push_all_ok [OF new_blockmap(1) own, of brs bs env] brs obtain r where
    r: "push_all B S env brs ?r = Some r" "blockmap_inv B S r" "bmr_rs r = brs"
      "\<And>k. owner B r k = newest C brs k" "bmr_blockSize r = int bs"
    unfolding rs by auto
  have "block_map B S env C bs r"
    using block_index_axioms r(2,5) brs(3,4) newest_Some [of C brs]
    unfolding block_map_def block_map_axioms_def r(3,4) by blast
  moreover have "blockmap_content B C r = layered (map C (rev brs))"
    by (simp add: fun_eq_iff blockmap_content_def r(4) newest_layered)
  ultimately show thesis using that r(1) by blast
qed

end

context block_map
begin

lemma ReadBlocks_zero_fill:
  assumes "length b = n * bs" "k + n \<le> max_off"
  shows "blockmap_ReadBlocks B env r b (int k) = Some (blocks_or_zero bs content k n, int n, None)"
  using ReadBlocks_loop_ok [OF assms, of 0] assms(1) map_pos
  by (simp add: blockmap_ReadBlocks_def map_bs go_mod_mult del: of_nat_mult)

end

section \<open>Properties\<close>

interpretation list_index: block_index list_bitmap list_bitset
  by unfold_locales

lemma new_blockmap_fields [simp]:
  "bmr_rs (blockmap_NewReader S bs nb) = []" "bmr_blockSize (blockmap_NewReader S bs nb) = bs"
  by (simp_all add: blockmap_NewReader_def)

lemma block_index_intro: "bitmap256 B \<Longrightarrow> bitset S \<Longrightarrow> block_index B S"
  by (simp add: block_index_def bitmap_sets_def)

lemma mem_block_reader:
  "0 < bs \<Longrightarrow> length xs = q * bs \<Longrightarrow> length xs \<le> max_off \<Longrightarrow>
    block_hole_reader bs (NewBlockReader (mem_reader xs) (int bs)) (to_blocks bs (mem_content xs))"
  using mem_layer [of bs xs q q] by (simp add: stack_layer_def)

abbreviation mem_blocks :: "bytes \<Rightarrow> BlockHoleReader" where
  "mem_blocks xs \<equiv> NewBlockReader (mem_reader xs) 2"

lemma two_readers: "\<forall>xs\<in>set [[1, 1, 2, 2], [3, 3]]. block_hole_reader 2 (mem_blocks xs) (to_blocks 2 (mem_content xs))"
  using mem_block_reader [of 2 "[1, 1, 2, 2]" 2] mem_block_reader [of 2 "[3, 3]" 1] by simp

interpretation pushed: block_map list_bitmap list_bitset mem_blocks "\<lambda>xs. to_blocks 2 (mem_content xs)" 2
  "the (push_all list_bitmap list_bitset mem_blocks [[1, 1, 2, 2], [3, 3]] (blockmap_NewReader list_bitset 2 8))"
  using list_index.pushed_block_map [OF _ _ two_readers, of 8] by fastforce

text \<open>C21. Pushing readers into an empty block map gives a block reader whose blocks are those of the
  stack of these readers, the last pushed on top: reads of any aligned range return the newest copy of
  every block, zeros where no reader has it, and the data/hole scans are those of the union.\<close>

theorem blockmap_push_refines_stack:
  assumes "bitmap256 B" "bitset S" "distinct brs" "length brs < 2 ^ 16" "0 < bs"
    and "\<forall>br\<in>set brs. block_hole_reader bs (env br) (C br)"
  shows "\<exists>r. push_all B S env brs (blockmap_NewReader S (int bs) nb) = Some r \<and>
    block_hole_reader bs (blockmap_reader B S env r) (layered (map C (rev brs))) \<and>
    (\<forall>k n b. k + n \<le> max_off \<longrightarrow> length b = n * bs \<longrightarrow>
      blockmap_ReadBlocks B env r b (int k) = Some (blocks_or_zero bs (layered (map C (rev brs))) k n, int n, None))"
proof -
  obtain r where r: "push_all B S env brs (blockmap_NewReader S (int bs) nb) = Some r"
    "block_map B S env C bs r" "blockmap_content B C r = layered (map C (rev brs))"
    using block_index.pushed_block_map [OF block_index_intro [OF assms(1,2)] assms(3,4,6,5)] by metis
  show ?thesis
    using r(1) block_map.as_reader [OF r(2)] block_map.ReadBlocks_zero_fill [OF r(2)] unfolding r(3) by blast
qed

theorem blockmap_push_refines_stack_witness:
  "\<exists>r. push_all list_bitmap list_bitset mem_blocks [[1, 1, 2, 2], [3, 3]]
      (blockmap_NewReader list_bitset 2 8) = Some r \<and>
    blockmap_ReadBlocks list_bitmap mem_blocks r (replicate 6 9) 0 =
      Some ([3, 3, 2, 2, 0, 0], 3, None)"
proof -
  from blockmap_push_refines_stack [OF list_bitmap.bitmap256_axioms list_bitset.bitset_axioms _ _ _ two_readers, of 8]
  obtain r where r: "push_all list_bitmap list_bitset mem_blocks [[1, 1, 2, 2], [3, 3]]
      (blockmap_NewReader list_bitset (int 2) 8) = Some r"
    and rd: "\<And>k n b. k + n \<le> max_off \<Longrightarrow> length b = n * 2 \<Longrightarrow>
      blockmap_ReadBlocks list_bitmap mem_blocks r b (int k) =
      Some (blocks_or_zero 2 (layered (map (\<lambda>xs. to_blocks 2 (mem_content xs)) (rev [[1, 1, 2, 2], [3, 3]]))) k n, int n, None)"
    by auto
  have "blocks_or_zero 2 (layered (map (\<lambda>xs. to_blocks 2 (mem_content xs)) (rev [[1, 1, 2, 2], [3, 3]]))) 0 3 =
      [3, 3, 2, 2, 0, 0]"
    by (simp add: blocks_or_zero_def to_blocks_def mem_content_def read_data_def numeral_eq_Suc upt_rec)
  with r rd [of 0 3 "replicate 6 9"] show ?thesis by simp
qed

text \<open>C22. The invariant of the block map (indices and readers correspond one to one, used and free
  indices split the 16-bit range, every mapped block has a reader) holds after every operation: a
  push makes the new reader own exactly its blocks, removing a reader that owns none changes no
  owner, and the copy for live blocks restricts the owners to the chosen readers.\<close>

theorem blockmap_operations_invariant:
  assumes "bitmap256 B" "bitset S" "blockmap_inv B S r"
  shows "(br \<notin> set (bmr_rs r) \<and> length (bmr_rs r) < 2 ^ 16 - 1 \<and> block_hole_reader bs (env br) c \<longrightarrow>
      (\<exists>r'. blockmap_PushReader B S env r br = Some r' \<and> blockmap_inv B S r' \<and> bmr_rs r' = bmr_rs r @ [br] \<and>
        (\<forall>k. owner B r' k = (if c k \<noteq> None then Some br else owner B r k)))) \<and>
    (br \<in> set (bmr_rs r) \<and> (\<forall>k. owner B r k \<noteq> Some br) \<longrightarrow>
      (\<exists>r'. blockmap_RemoveTable S r br = Some r' \<and> blockmap_inv B S r' \<and> bmr_rs r' = remove1 br (bmr_rs r) \<and>
        (\<forall>k. owner B r' k = owner B r k))) \<and>
    (distinct rs \<and> set rs \<subseteq> set (bmr_rs r) \<longrightarrow>
      (\<exists>r'. blockmap_ReaderForLiveBytes B S r rs = Some r' \<and> blockmap_inv B S r' \<and> bmr_rs r' = rs \<and>
        (\<forall>k. owner B r' k = (case owner B r k of None \<Rightarrow> None | Some br \<Rightarrow> if br \<in> set rs then Some br else None))))"
  (is "(?P \<longrightarrow> ?push) \<and> (?R \<longrightarrow> ?remove) \<and> (?L \<longrightarrow> ?copy)")
proof (intro conjI impI)
  note idx = block_index_intro [OF assms(1,2)]
  show ?push if p: ?P
    by (rule block_index.PushReader_ok [OF idx assms(3), of br bs env c]) (use p in blast)+
  show ?remove if p: ?R
    by (rule block_index.RemoveTable_ok [OF idx assms(3), of br]) (use p in blast)+
  show ?copy if p: ?L
    by (rule block_index.ReaderForLiveBytes_ok [OF idx assms(3), of rs]) (use p in blast)+
qed

theorem blockmap_operations_invariant_witness:
  "\<exists>r. blockmap_PushReader list_bitmap list_bitset mem_blocks
      (blockmap_NewReader list_bitset 2 8) [1, 1] = Some r \<and> blockmap_inv list_bitmap list_bitset r \<and>
    owner list_bitmap r 0 = Some [1, 1] \<and> owner list_bitmap r 1 = None"
proof -
  let ?r = "blockmap_NewReader list_bitset 2 8 :: (nat list, nat \<times> nat list, bytes) blockmapReader"
  have r: "blockmap_inv list_bitmap list_bitset ?r" "owner list_bitmap ?r k = None" "bmr_rs ?r = []" for k
    by (simp_all add: list_index.new_blockmap)
  have rd: "block_hole_reader 2 (NewBlockReader (mem_reader [1, 1]) 2) (to_blocks 2 (mem_content [1, 1]))"
    using mem_block_reader [of 2 "[1, 1]" 1] by simp
  from blockmap_operations_invariant [OF list_bitmap.bitmap256_axioms list_bitset.bitset_axioms r(1),
      of "[1, 1]" 2 mem_blocks, THEN conjunct1] rd r(2,3)
  obtain r' where r': "blockmap_PushReader list_bitmap list_bitset mem_blocks ?r [1, 1] = Some r'"
    "blockmap_inv list_bitmap list_bitset r'"
    "\<And>k. owner list_bitmap r' k = (if to_blocks 2 (mem_content [1, 1]) k \<noteq> None then Some [1, 1] else None)"
    by force
  then show ?thesis by (simp add: to_blocks_def mem_content_def)
qed

text \<open>C23. The block counts of compaction are exact: \<open>GetLiveBlocks\<close> reports for every reader the number
  of blocks it owns, whatever the order in which the map of counts is ranged over, and \<open>LiveBlocks\<close>
  the number of blocks with data.\<close>

theorem blockmap_counts_exact:
  assumes "bitmap256 B" "bitset S" "blockmap_inv B S r" "bmr_blockSize r = int bs" "0 < bs"
    and "\<forall>br\<in>set (bmr_rs r). block_hole_reader bs (env br) (C br)"
    and "\<forall>k br. owner B r k = Some br \<longrightarrow> C br k \<noteq> None" "\<forall>xs. mset (order xs) = mset xs"
  shows "\<exists>m. blockmap_GetLiveBlocks B S order r = Some m \<and>
    (\<forall>br\<in>set (bmr_rs r). m (Some br) = Some (int (card {k. owner B r k = Some br}))) \<and>
    blockmap_LiveBlocks B S r = Some (int (card {k. owner B r k \<noteq> None}))"
proof -
  have bm: "block_map B S env C bs r"
    using assms block_index_intro unfolding block_map_def block_map_axioms_def by blast
  have "\<And>xs. mset (order xs) = mset xs" using assms(8) by blast
  then obtain m where m: "blockmap_GetLiveBlocks B S order r = Some m"
    "\<And>br. br \<in> set (bmr_rs r) \<Longrightarrow> m (Some br) = Some (int (card {k. owner B r k = Some br}))"
    using block_map.GetLiveBlocks_ok [OF bm] by metis
  have "{k. blockmap_content B C r k \<noteq> None} = {k. owner B r k \<noteq> None}"
    using assms(7) by (auto simp: blockmap_content_def bind_eq_Some_conv)
  with m block_map.LiveBlocks_card [OF bm] show ?thesis by auto
qed

theorem blockmap_counts_exact_witness:
  "\<exists>r m. push_all list_bitmap list_bitset mem_blocks [[1, 1, 2, 2], [3, 3]]
      (blockmap_NewReader list_bitset 2 8) = Some r \<and>
    blockmap_GetLiveBlocks list_bitmap list_bitset rev r = Some m \<and>
    m (Some [3, 3]) = Some (int (card {k. owner list_bitmap r k = Some [3, 3]}))"
proof -
  let ?C = "\<lambda>xs. to_blocks 2 (mem_content xs)"
  have new: "blockmap_inv list_bitmap list_bitset (blockmap_NewReader list_bitset 2 8)"
    "owner list_bitmap (blockmap_NewReader list_bitset 2 8) k = newest ?C [] k" for k
    by (simp_all add: list_index.new_blockmap newest_def)
  from list_index.push_all_ok [OF new(1), of ?C "[[1, 1, 2, 2], [3, 3]]" 2 mem_blocks] two_readers new(2)
  obtain r where r: "push_all list_bitmap list_bitset mem_blocks [[1, 1, 2, 2], [3, 3]]
      (blockmap_NewReader list_bitset 2 8) = Some r" "blockmap_inv list_bitmap list_bitset r"
      "bmr_rs r = [[1, 1, 2, 2], [3, 3]]" "\<forall>k. owner list_bitmap r k = newest ?C [[1, 1, 2, 2], [3, 3]] k"
      "bmr_blockSize r = int 2"
    by auto
  have own: "\<forall>k br. owner list_bitmap r k = Some br \<longrightarrow> ?C br k \<noteq> None"
    using r(4) newest_Some by metis
  from blockmap_counts_exact [OF list_bitmap.bitmap256_axioms list_bitset.bitset_axioms r(2,5) _ two_readers [folded r(3)] own, of rev]
  show ?thesis using r(1,3) by auto
qed

end
