(* ===== verification/Tracker_Reader.thy ===== *)
theory Tracker_Reader
  imports Block_Map
begin

text \<open>
  \<open>internal/tracker/reader.go\<close>: the readers of a device. New logs are stacked on top, sealed logs and tables wait below them
  until a goroutine merges them into the block map, and compaction replaces files in the block map. Reads take the stack as
  it is when they start and run while all of that goes on.

  A reader is an identity with methods, as in the block map. The state is that of the struct; the stack is the list of the readers above
  \<open>primaryIndex\<close>, which is its last element always. Every section under the lock is one function. The goroutine \<open>readerMergeLoop\<close>
  is cut where it gives the lock up.
\<close>

section \<open>Operations\<close>

record ('b, 's, 'r) trackerReader =
  tr_blockSize :: int
  tr_numBlocks :: int
  readerStack :: "'r list"
  primaryIndex :: "('b, 's, 'r) blockmapReader"
  pendingReaders :: "'r list"
  tr_writers :: "'r list"
  compactionState :: bool

definition buildReaderStack :: "('b, 's, 'r) trackerReader \<Rightarrow> ('b, 's, 'r) trackerReader" where
  "buildReaderStack m = m\<lparr>readerStack := tr_writers m @ pendingReaders m\<rparr>"

definition tracker_NewReader :: "'s bitset_ops \<Rightarrow> int \<Rightarrow> int \<Rightarrow> ('b, 's, 'r) trackerReader" where
  "tracker_NewReader S blockSize numBlocks = buildReaderStack
     \<lparr>tr_blockSize = blockSize, tr_numBlocks = numBlocks, readerStack = [],
      primaryIndex = blockmap_NewReader S blockSize numBlocks, pendingReaders = [], tr_writers = [], compactionState = False\<rparr>"

definition PushWriter :: "('b, 's, 'r) trackerReader \<Rightarrow> 'r \<Rightarrow> ('b, 's, 'r) trackerReader" where
  "PushWriter m w = buildReaderStack (m\<lparr>tr_writers := w # tr_writers m\<rparr>)"

text \<open>Up to the wait for the active readers. The result tells whether there is a wait.\<close>

definition RemoveWriter :: "('b, 's, 'r) trackerReader \<Rightarrow> 'r \<Rightarrow> ('b, 's, 'r) trackerReader \<times> bool" where
  "RemoveWriter m w =
     (if w \<in> set (tr_writers m) then (buildReaderStack (m\<lparr>tr_writers := remove1 w (tr_writers m)\<rparr>), True)
      else (m, False))"

definition tracker_PushReader :: "('b, 's, 'r) trackerReader \<Rightarrow> 'r \<Rightarrow> ('b, 's, 'r) trackerReader" where
  "tracker_PushReader m r = buildReaderStack (m\<lparr>pendingReaders := r # pendingReaders m\<rparr>)"

text \<open>\<open>ReadBlocks\<close> with the stack \<open>st\<close> it took at its start.\<close>

definition tracker_ReadBlocks :: "'b bitmap256_ops \<Rightarrow> 's bitset_ops \<Rightarrow> ('r \<Rightarrow> BlockHoleReader) \<Rightarrow> ('b, 's, 'r) trackerReader \<Rightarrow> 'r list \<Rightarrow>
    bytes \<Rightarrow> int \<Rightarrow> (bytes \<times> int \<times> go_error option) option" where
  "tracker_ReadBlocks B S env m st p off =
     StackedBlockReader_ReadBlocks
       (NewStackedBlockReader (map env st @ [blockmap_reader B S env (primaryIndex m)]) (tr_blockSize m) (tr_numBlocks m)) p off"

subsection \<open>The merge goroutine\<close>

text \<open>The wait at the head of the loop is over.\<close>

definition merge_ready :: "('b, 's, 'r) trackerReader \<Rightarrow> bool" where
  "merge_ready m \<longleftrightarrow> pendingReaders m \<noteq> [] \<and> \<not> compactionState m"

text \<open>The copy of the pending readers, oldest first.\<close>

definition merge_clone :: "('b, 's, 'r) trackerReader \<Rightarrow> 'r list" where
  "merge_clone m = rev (pendingReaders m)"

definition merge_push :: "'b bitmap256_ops \<Rightarrow> 's bitset_ops \<Rightarrow> ('r \<Rightarrow> BlockHoleReader) \<Rightarrow> ('b, 's, 'r) trackerReader \<Rightarrow> 'r \<Rightarrow>
    ('b, 's, 'r) trackerReader option" where
  "merge_push B S env m br = do {
     idx \<leftarrow> blockmap_PushReader B S env (primaryIndex m) br;
     Some (m\<lparr>primaryIndex := idx\<rparr>)
   }"

definition merge_finish :: "('b, 's, 'r) trackerReader \<Rightarrow> 'r list \<Rightarrow> ('b, 's, 'r) trackerReader" where
  "merge_finish m rs = buildReaderStack (m\<lparr>pendingReaders := filter (\<lambda>e. e \<notin> set rs) (pendingReaders m)\<rparr>)"

subsection \<open>Compaction\<close>

text \<open>\<open>StartCompaction\<close> returns nil, waits, or starts one.\<close>

datatype start_result = Refused | Wait | Started

definition StartCompaction :: "('b, 's, 'r) trackerReader \<Rightarrow> ('b, 's, 'r) trackerReader \<times> start_result" where
  "StartCompaction m =
     (if compactionState m then (m, Refused)
      else if pendingReaders m \<noteq> [] then (m, Wait)
      else (m\<lparr>compactionState := True\<rparr>, Started))"

definition tracker_LiveBlocks :: "'b bitmap256_ops \<Rightarrow> 's bitset_ops \<Rightarrow> ((nat \<times> int) list \<Rightarrow> (nat \<times> int) list) \<Rightarrow>
    ('b, 's, 'r) trackerReader \<Rightarrow> ('r option \<rightharpoonup> int) option" where
  "tracker_LiveBlocks B S order m = blockmap_GetLiveBlocks B S order (primaryIndex m)"

definition LiveBytesReader :: "'b bitmap256_ops \<Rightarrow> 's bitset_ops \<Rightarrow> ('b, 's, 'r) trackerReader \<Rightarrow> 'r list \<Rightarrow> ('b, 's, 'r) blockmapReader option" where
  "LiveBytesReader B S m rs = blockmap_ReaderForLiveBytes B S (primaryIndex m) rs"

definition tracker_ListReaders :: "('b, 's, 'r) trackerReader \<Rightarrow> 'r list" where
  "tracker_ListReaders m = blockmap_ListReaders (primaryIndex m)"

definition PushCompactedReader :: "'b bitmap256_ops \<Rightarrow> 's bitset_ops \<Rightarrow> ('r \<Rightarrow> BlockHoleReader) \<Rightarrow> ('b, 's, 'r) trackerReader \<Rightarrow> 'r \<Rightarrow>
    ('b, 's, 'r) trackerReader option" where
  "PushCompactedReader B S env m r = do {
     idx \<leftarrow> blockmap_PushReader B S env (primaryIndex m) r;
     Some (m\<lparr>primaryIndex := idx\<rparr>)
   }"

text \<open>After its barrier.\<close>

definition RemoveUnusedReader :: "'s bitset_ops \<Rightarrow> ('b, 's, 'r) trackerReader \<Rightarrow> 'r \<Rightarrow> ('b, 's, 'r) trackerReader option" where
  "RemoveUnusedReader S m r = do {
     idx \<leftarrow> blockmap_RemoveTable S (primaryIndex m) r;
     Some (m\<lparr>primaryIndex := idx\<rparr>)
   }"

definition CompactionState_Done :: "('b, 's, 'r) trackerReader \<Rightarrow> ('b, 's, 'r) trackerReader" where
  "CompactionState_Done m = m\<lparr>compactionState := False\<rparr>"

section \<open>The tracker at work\<close>

text \<open>
  The steps of a device on its tracker, in any order the code allows: the calls of \<open>OpenBlockFileWithOptions\<close>, \<open>rotateNewWriteLog\<close> and
  \<open>compactPendingWriters\<close> in \<open>internal/block/block_file.go\<close>, where \<open>OneRunner\<close> makes rotation and compaction one thread; the
  merge goroutine; writes to the active log; and reads. A wait for active readers ends when every read that had
  started before it has ended: reads are numbered by a counter, and \<open>n\<close> in a waiting phase is its value when the wait began.
\<close>

datatype 'r phase = Opening | Idle | Rotating 'r | Retiring 'r | Retired 'r | Draining nat | Compacting | Removing 'r nat

datatype 'r merge = MergeIdle | Merging "'r list" "'r list" | MergeWait nat

text \<open>A read in progress: its stack, and two fields that exist for the proof only: how much of \<open>dv_log\<close> there was when it began,
  and the files it may have open.\<close>

record 'r read =
  rd_stack :: "'r list"
  rd_start :: nat
  rd_touched :: "'r set"

text \<open>\<open>dv_content\<close> says what each file holds, \<open>dv_log\<close> what was opened and written so far, in order, and \<open>dv_closed\<close> which files were
  closed and deleted.\<close>

record ('b, 's, 'r) device =
  dv_tracker :: "('b, 's, 'r) trackerReader"
  dv_env :: "'r \<Rightarrow> BlockHoleReader"
  dv_content :: "'r \<Rightarrow> nat \<rightharpoonup> bytes"
  dv_phase :: "'r phase"
  dv_active :: "'r option"
  dv_merge :: "'r merge"
  dv_reads :: "nat \<rightharpoonup> 'r read"
  dv_next :: nat
  dv_closed :: "'r set"
  dv_log :: "(nat \<rightharpoonup> bytes) list"

definition index_content :: "'b bitmap256_ops \<Rightarrow> ('b, 's, 'r) device \<Rightarrow> nat \<rightharpoonup> bytes" where
  "index_content B d = blockmap_content B (dv_content d) (primaryIndex (dv_tracker d))"

text \<open>What a stack of readers over the block map holds, and what the device holds.\<close>

definition view :: "'b bitmap256_ops \<Rightarrow> ('b, 's, 'r) device \<Rightarrow> 'r list \<Rightarrow> nat \<rightharpoonup> bytes" where
  "view B d st = layered (map (dv_content d) st @ [index_content B d])"

definition device_content :: "'b bitmap256_ops \<Rightarrow> ('b, 's, 'r) device \<Rightarrow> nat \<rightharpoonup> bytes" where
  "device_content B d = view B d (readerStack (dv_tracker d))"

text \<open>What the first \<open>j\<close> changes leave.\<close>

definition written_by :: "(nat \<rightharpoonup> bytes) list \<Rightarrow> nat \<Rightarrow> nat \<rightharpoonup> bytes" where
  "written_by log j = foldl (++) Map.empty (take j log)"

definition owners :: "'b bitmap256_ops \<Rightarrow> ('b, 's, 'r) device \<Rightarrow> 'r set" where
  "owners B d = {r. \<exists>k. owner B (primaryIndex (dv_tracker d)) k = Some r}"

definition indexed :: "('b, 's, 'r) device \<Rightarrow> 'r set" where
  "indexed d = set (bmr_rs (primaryIndex (dv_tracker d)))"

definition known :: "('b, 's, 'r) device \<Rightarrow> 'r set" where
  "known d = set (tr_writers (dv_tracker d)) \<union> set (pendingReaders (dv_tracker d)) \<union> indexed d"

definition drained :: "('b, 's, 'r) device \<Rightarrow> nat \<Rightarrow> bool" where
  "drained d n \<longleftrightarrow> (\<forall>i\<in>dom (dv_reads d). n \<le> i)"

definition fresh :: "('b, 's, 'r) device \<Rightarrow> 'r \<Rightarrow> bool" where
  "fresh d r \<longleftrightarrow> r \<notin> known d \<and> r \<notin> dv_closed d"

definition new_device :: "'s bitset_ops \<Rightarrow> nat \<Rightarrow> nat \<Rightarrow> ('r \<Rightarrow> BlockHoleReader) \<Rightarrow> ('r \<Rightarrow> nat \<rightharpoonup> bytes) \<Rightarrow> ('b, 's, 'r) device" where
  "new_device S bs nb env C =
     \<lparr>dv_tracker = tracker_NewReader S (int bs) (int nb), dv_env = env, dv_content = C, dv_phase = Opening, dv_active = None,
      dv_merge = MergeIdle, dv_reads = Map.empty, dv_next = 0, dv_closed = {}, dv_log = []\<rparr>"

abbreviation on_tracker :: "(('b, 's, 'r) trackerReader \<Rightarrow> ('b, 's, 'r) trackerReader) \<Rightarrow> ('b, 's, 'r) device \<Rightarrow> ('b, 's, 'r) device" where
  "on_tracker f d \<equiv> d\<lparr>dv_tracker := f (dv_tracker d)\<rparr>"

inductive act :: "'b bitmap256_ops \<Rightarrow> 's bitset_ops \<Rightarrow> nat \<Rightarrow> nat \<Rightarrow> ('b, 's, 'r) device \<Rightarrow> ('b, 's, 'r) device \<Rightarrow> bool" for B S bs nb where
  open_file: "dv_phase d = Opening \<Longrightarrow> fresh d r \<Longrightarrow>
    act B S bs nb d (on_tracker (\<lambda>m. tracker_PushReader m r) d \<lparr>dv_log := dv_log d @ [dv_content d r]\<rparr>)"
| open_writer: "dv_phase d = Opening \<Longrightarrow> fresh d w \<Longrightarrow> dv_content d w = Map.empty \<Longrightarrow>
    act B S bs nb d (on_tracker (\<lambda>m. PushWriter m w) d \<lparr>dv_phase := Idle, dv_active := Some w\<rparr>)"
| read_start: "dv_phase d \<noteq> Opening \<Longrightarrow>
    act B S bs nb d (d\<lparr>dv_reads := (dv_reads d)(dv_next d \<mapsto>
        \<lparr>rd_stack = readerStack (dv_tracker d), rd_start = length (dv_log d), rd_touched = set (readerStack (dv_tracker d))\<rparr>),
      dv_next := Suc (dv_next d)\<rparr>)"
| read_end: "act B S bs nb d (d\<lparr>dv_reads := (dv_reads d)(i := None)\<rparr>)"
| write_active: "dv_active d = Some a \<Longrightarrow> stack_layer bs R (dv_content d a ++ bl) nb \<Longrightarrow>
    act B S bs nb d (d\<lparr>dv_env := (dv_env d)(a := R), dv_content := (dv_content d)(a := dv_content d a ++ bl), dv_log := dv_log d @ [bl]\<rparr>)"
| rotate_push: "dv_phase d = Idle \<Longrightarrow> fresh d w \<Longrightarrow> dv_content d w = Map.empty \<Longrightarrow>
    act B S bs nb d (on_tracker (\<lambda>m. PushWriter m w) d \<lparr>dv_phase := Rotating w\<rparr>)"
| rotate_switch: "dv_phase d = Rotating w \<Longrightarrow> dv_active d = Some a \<Longrightarrow>
    act B S bs nb d (d\<lparr>dv_active := Some w, dv_phase := Retiring a\<rparr>)"
| rotate_seal: "dv_phase d = Retiring a \<Longrightarrow>
    act B S bs nb d (on_tracker (\<lambda>m. tracker_PushReader m a) d \<lparr>dv_phase := Retired a\<rparr>)"
| rotate_remove: "dv_phase d = Retired a \<Longrightarrow>
    act B S bs nb d (on_tracker (\<lambda>m. fst (RemoveWriter m a)) d \<lparr>dv_phase := Draining (dv_next d)\<rparr>)"
| rotate_done: "dv_phase d = Draining n \<Longrightarrow> drained d n \<Longrightarrow> act B S bs nb d (d\<lparr>dv_phase := Idle\<rparr>)"
| merge_begin: "dv_merge d = MergeIdle \<Longrightarrow> merge_ready (dv_tracker d) \<Longrightarrow> rs = merge_clone (dv_tracker d) \<Longrightarrow>
    act B S bs nb d (d\<lparr>dv_merge := Merging rs rs\<rparr>)"
| merge_one: "dv_merge d = Merging rs (br # left) \<Longrightarrow> length (bmr_rs (primaryIndex (dv_tracker d))) < 2 ^ 16 - 1 \<Longrightarrow>
    merge_push B S (dv_env d) (dv_tracker d) br = Some t \<Longrightarrow> act B S bs nb d (d\<lparr>dv_tracker := t, dv_merge := Merging rs left\<rparr>)"
| merge_end: "dv_merge d = Merging rs [] \<Longrightarrow>
    act B S bs nb d (on_tracker (\<lambda>m. merge_finish m rs) d \<lparr>dv_merge := MergeWait (dv_next d)\<rparr>)"
| merge_rest: "dv_merge d = MergeWait n \<Longrightarrow> drained d n \<Longrightarrow> act B S bs nb d (d\<lparr>dv_merge := MergeIdle\<rparr>)"
| compact_start: "dv_phase d = Idle \<Longrightarrow> StartCompaction (dv_tracker d) = (t, Started) \<Longrightarrow>
    act B S bs nb d (d\<lparr>dv_tracker := t, dv_phase := Compacting\<rparr>)"
| compact_push: "dv_phase d = Compacting \<Longrightarrow> fresh d df \<Longrightarrow> dv_content d df \<subseteq>\<^sub>m index_content B d \<Longrightarrow>
    length (bmr_rs (primaryIndex (dv_tracker d))) < 2 ^ 16 - 1 \<Longrightarrow> PushCompactedReader B S (dv_env d) (dv_tracker d) df = Some t \<Longrightarrow>
    act B S bs nb d (d\<lparr>dv_tracker := t\<rparr>)"
| compact_drain: "dv_phase d = Compacting \<Longrightarrow> r \<in> indexed d \<Longrightarrow> r \<notin> owners B d \<Longrightarrow>
    act B S bs nb d (d\<lparr>dv_phase := Removing r (dv_next d)\<rparr>)"
| compact_remove: "dv_phase d = Removing r n \<Longrightarrow> drained d n \<Longrightarrow> RemoveUnusedReader S (dv_tracker d) r = Some t \<Longrightarrow>
    act B S bs nb d (d\<lparr>dv_tracker := t, dv_phase := Compacting, dv_closed := insert r (dv_closed d)\<rparr>)"
| compact_done: "dv_phase d = Compacting \<Longrightarrow>
    act B S bs nb d (on_tracker CompactionState_Done d \<lparr>dv_phase := Idle\<rparr>)"

text \<open>Every read in progress may open the files the block map points to.\<close>

definition observe :: "'b bitmap256_ops \<Rightarrow> ('b, 's, 'r) device \<Rightarrow> ('b, 's, 'r) device" where
  "observe B d = d\<lparr>dv_reads := \<lambda>i. map_option (\<lambda>r. r\<lparr>rd_touched := rd_touched r \<union> owners B d\<rparr>) (dv_reads d i)\<rparr>"

lemma observe_fields [simp]:
  "dv_tracker (observe B d) = dv_tracker d" "dv_env (observe B d) = dv_env d" "dv_content (observe B d) = dv_content d"
  "dv_phase (observe B d) = dv_phase d" "dv_active (observe B d) = dv_active d" "dv_merge (observe B d) = dv_merge d"
  "dv_next (observe B d) = dv_next d" "dv_closed (observe B d) = dv_closed d" "dv_log (observe B d) = dv_log d"
  by (simp_all add: observe_def)

lemma observe_read: "dv_reads d i = Some r \<Longrightarrow> \<exists>r'. dv_reads (observe B d) i = Some r' \<and> rd_stack r' = rd_stack r \<and> rd_start r' = rd_start r"
  by (simp add: observe_def)

inductive reachable :: "'b bitmap256_ops \<Rightarrow> 's bitset_ops \<Rightarrow> nat \<Rightarrow> nat \<Rightarrow> ('b, 's, 'r) device \<Rightarrow> bool" for B S bs nb where
  opened: "(\<forall>r. stack_layer bs (env r) (C r) nb) \<Longrightarrow> reachable B S bs nb (new_device S bs nb env C)"
| acted: "reachable B S bs nb d \<Longrightarrow> act B S bs nb d d' \<Longrightarrow> reachable B S bs nb (observe B d')"

section \<open>Invariants\<close>

lemma layered_Nil [simp]: "layered [] = Map.empty"
  by (simp add: fun_eq_iff)

lemma layered_Cons [simp]: "layered (c # cs) = layered cs ++ c"
  by (auto simp: fun_eq_iff map_add_def split: option.splits)

lemma layered_append [simp]: "layered (xs @ ys) = layered ys ++ layered xs"
  by (induction xs) simp_all

declare layered.simps [simp del]

lemma map_add_covered: "dom m \<subseteq> dom n \<Longrightarrow> m ++ n = n"
  by (auto simp: fun_eq_iff map_add_def split: option.splits)

lemma map_add_known: "n \<subseteq>\<^sub>m m \<Longrightarrow> m ++ n = m"
  unfolding map_le_def map_add_def by (rule ext) (metis domI option.case_eq_if option.collapse)

lemma map_le_add_right: "m \<subseteq>\<^sub>m n \<Longrightarrow> m ++ c \<subseteq>\<^sub>m n ++ c"
  unfolding map_le_def by (auto simp: map_add_def split: option.splits)

lemma dom_layered: "c \<in> set cs \<Longrightarrow> dom c \<subseteq> dom (layered cs)"
  by (induction cs) auto

text \<open>The part of the device below its writers.\<close>

definition lower :: "'b bitmap256_ops \<Rightarrow> ('b, 's, 'r) device \<Rightarrow> nat \<rightharpoonup> bytes" where
  "lower B d = index_content B d ++ layered (map (dv_content d) (pendingReaders (dv_tracker d)))"

definition inv_map :: "'b bitmap256_ops \<Rightarrow> 's bitset_ops \<Rightarrow> nat \<Rightarrow> nat \<Rightarrow> ('b, 's, 'r) device \<Rightarrow> bool" where
  "inv_map B S bs nb d \<longleftrightarrow> (let r = primaryIndex (dv_tracker d) in
     blockmap_inv B S r \<and> bmr_blockSize r = int bs \<and> (\<forall>k. owner B r k = newest (dv_content d) (bmr_rs r) k) \<and>
     (\<forall>r. stack_layer bs (dv_env d r) (dv_content d r) nb) \<and> tr_blockSize (dv_tracker d) = int bs \<and> tr_numBlocks (dv_tracker d) = int nb)"

definition compacting :: "'r phase \<Rightarrow> bool" where
  "compacting ph \<longleftrightarrow> ph = Compacting \<or> (\<exists>r n. ph = Removing r n)"

definition inv_lists :: "('b, 's, 'r) device \<Rightarrow> bool" where
  "inv_lists d \<longleftrightarrow> (let t = dv_tracker d in readerStack t = tr_writers t @ pendingReaders t \<and> distinct (pendingReaders t) \<and>
     dv_closed d \<inter> known d = {} \<and> compactionState t = compacting (dv_phase d))"

definition inv_merge :: "'b bitmap256_ops \<Rightarrow> ('b, 's, 'r) device \<Rightarrow> bool" where
  "inv_merge B d \<longleftrightarrow> (case dv_merge d of
     Merging rs left \<Rightarrow> \<exists>ps newer. rs = ps @ left \<and> rs \<noteq> [] \<and> pendingReaders (dv_tracker d) = newer @ rev rs \<and>
       set ps \<subseteq> indexed d \<and> (set newer \<union> set left) \<inter> indexed d = {} \<and> \<not> compacting (dv_phase d) \<and>
       layered (map (dv_content d) (rev ps)) \<subseteq>\<^sub>m index_content B d
   | _ \<Rightarrow> set (pendingReaders (dv_tracker d)) \<inter> indexed d = {})"

lemma inv_mergeE:
  assumes "inv_merge B d" "dv_merge d = Merging rs left"
  obtains ps newer where "rs = ps @ left" "rs \<noteq> []" "pendingReaders (dv_tracker d) = newer @ rev rs" "set ps \<subseteq> indexed d"
    "(set newer \<union> set left) \<inter> indexed d = {}" "\<not> compacting (dv_phase d)"
    "layered (map (dv_content d) (rev ps)) \<subseteq>\<^sub>m index_content B d"
  using assms(1) unfolding inv_merge_def assms(2) merge.case by (elim exE conjE) (rule that; assumption)

lemma inv_merge_keep:
  assumes inv: "inv_merge B d" and eq: "dv_merge d' = dv_merge d" "pendingReaders (dv_tracker d') = xs @ pendingReaders (dv_tracker d)"
    "indexed d' = indexed d" "index_content B d' = index_content B d" "compacting (dv_phase d') \<Longrightarrow> compacting (dv_phase d)"
    and new: "set xs \<inter> indexed d = {}" and C: "\<And>r. r \<in> set (pendingReaders (dv_tracker d)) \<Longrightarrow> dv_content d' r = dv_content d r"
  shows "inv_merge B d'"
proof (cases "dv_merge d")
  case (Merging rs left)
  obtain ps newer where m: "rs = ps @ left" "rs \<noteq> []" "pendingReaders (dv_tracker d) = newer @ rev rs" "set ps \<subseteq> indexed d"
    "(set newer \<union> set left) \<inter> indexed d = {}" "\<not> compacting (dv_phase d)"
    "layered (map (dv_content d) (rev ps)) \<subseteq>\<^sub>m index_content B d" by (rule inv_mergeE [OF inv Merging])
  have "map (dv_content d') (rev ps) = map (dv_content d) (rev ps)" using C m(1,3) by simp
  with m(7) have "layered (map (dv_content d') (rev ps)) \<subseteq>\<^sub>m index_content B d" by (simp only:)
  moreover have "(set (xs @ newer) \<union> set left) \<inter> indexed d = {}" using m(5) new by auto
  moreover have "\<not> compacting (dv_phase d')" using eq(5) m(6) by blast
  ultimately have "\<exists>ps newer. rs = ps @ left \<and> rs \<noteq> [] \<and> xs @ pendingReaders (dv_tracker d) = newer @ rev rs \<and> set ps \<subseteq> indexed d \<and>
      (set newer \<union> set left) \<inter> indexed d = {} \<and> \<not> compacting (dv_phase d') \<and>
      layered (map (dv_content d') (rev ps)) \<subseteq>\<^sub>m index_content B d"
    using m(1-4) by (intro exI [where x = "xs @ newer"] exI [where x = ps] conjI) (simp_all only: append_assoc not_False_eq_True)
  then show ?thesis using Merging eq by (simp add: inv_merge_def)
qed (use inv eq new in \<open>auto simp: inv_merge_def\<close>)

definition outside :: "('b, 's, 'r) device \<Rightarrow> 'r \<Rightarrow> bool" where
  "outside d x \<longleftrightarrow> x \<notin> set (pendingReaders (dv_tracker d)) \<and> x \<notin> indexed d"

definition inv_phase :: "'b bitmap256_ops \<Rightarrow> ('b, 's, 'r) device \<Rightarrow> bool" where
  "inv_phase B d \<longleftrightarrow> (let ws = tr_writers (dv_tracker d) in case dv_phase d of
     Opening \<Rightarrow> ws = [] \<and> dv_active d = None \<and> dv_reads d = Map.empty
   | Rotating w \<Rightarrow> (\<exists>a. ws = [w, a] \<and> dv_active d = Some a \<and> w \<noteq> a \<and> outside d w \<and> outside d a \<and> dv_content d w = Map.empty)
   | Retiring a \<Rightarrow> (\<exists>w. ws = [w, a] \<and> dv_active d = Some w \<and> w \<noteq> a \<and> outside d w \<and> outside d a)
   | Retired a \<Rightarrow> (\<exists>w. ws = [w, a] \<and> dv_active d = Some w \<and> w \<noteq> a \<and> outside d w \<and> \<not> outside d a \<and> dv_content d a \<subseteq>\<^sub>m lower B d)
   | Removing r n \<Rightarrow> (\<exists>a. ws = [a] \<and> dv_active d = Some a \<and> outside d a) \<and> r \<in> indexed d \<and> r \<notin> owners B d
   | _ \<Rightarrow> (\<exists>a. ws = [a] \<and> dv_active d = Some a \<and> outside d a))"

definition stack_shape :: "'r phase \<Rightarrow> 'r option \<Rightarrow> nat \<Rightarrow> 'r list \<Rightarrow> bool" where
  "stack_shape ph active i st \<longleftrightarrow> (case ph of
     Opening \<Rightarrow> True
   | Rotating w \<Rightarrow> (\<exists>ys. st = w # the active # ys) \<or> w \<notin> set st \<and> (\<exists>ys. st = the active # ys)
   | Retiring a \<Rightarrow> (\<exists>ys. st = the active # a # ys) \<or> the active \<notin> set st \<and> (\<exists>ys. st = a # ys)
   | Retired a \<Rightarrow> (\<exists>ys. st = the active # ys) \<or> the active \<notin> set st
   | Draining n \<Rightarrow> (\<exists>ys. st = the active # ys) \<or> the active \<notin> set st \<and> i < n
   | _ \<Rightarrow> \<exists>ys. st = the active # ys)"

definition inv_reads :: "('b, 's, 'r) device \<Rightarrow> bool" where
  "inv_reads d \<longleftrightarrow> (\<forall>i rd. dv_reads d i = Some rd \<longrightarrow> i < dv_next d \<and> set (pendingReaders (dv_tracker d)) \<subseteq> set (rd_stack rd) \<and>
     set (rd_stack rd) \<subseteq> known d \<and> stack_shape (dv_phase d) (dv_active d) i (rd_stack rd))"

definition inv_view :: "'b bitmap256_ops \<Rightarrow> ('b, 's, 'r) device \<Rightarrow> bool" where
  "inv_view B d \<longleftrightarrow> device_content B d = written_by (dv_log d) (length (dv_log d)) \<and>
     (\<forall>i rd. dv_reads d i = Some rd \<longrightarrow> rd_start rd \<le> length (dv_log d) \<and>
       (\<forall>k. \<exists>j. rd_start rd \<le> j \<and> j \<le> length (dv_log d) \<and> view B d (rd_stack rd) k = written_by (dv_log d) j k))"

definition inv_touch :: "('b, 's, 'r) device \<Rightarrow> bool" where
  "inv_touch d \<longleftrightarrow> (\<forall>i rd. dv_reads d i = Some rd \<longrightarrow> set (rd_stack rd) \<subseteq> rd_touched rd \<and> rd_touched rd \<inter> dv_closed d = {} \<and>
     (\<forall>r n. dv_phase d = Removing r n \<longrightarrow> n \<le> i \<longrightarrow> r \<notin> rd_touched rd))"

lemma tracker_fields [simp]:
  "tr_writers (buildReaderStack m) = tr_writers m" "pendingReaders (buildReaderStack m) = pendingReaders m"
  "primaryIndex (buildReaderStack m) = primaryIndex m" "readerStack (buildReaderStack m) = tr_writers m @ pendingReaders m"
  "compactionState (buildReaderStack m) = compactionState m" "tr_blockSize (buildReaderStack m) = tr_blockSize m"
  "tr_numBlocks (buildReaderStack m) = tr_numBlocks m"
  by (simp_all add: buildReaderStack_def)

lemmas tracker_defs = PushWriter_def tracker_PushReader_def RemoveWriter_def merge_finish_def CompactionState_Done_def

lemma view_eq: "view B d st = index_content B d ++ layered (map (dv_content d) st)"
  by (simp add: view_def)

lemma device_lower: "inv_lists d \<Longrightarrow> device_content B d = lower B d ++ layered (map (dv_content d) (tr_writers (dv_tracker d)))"
  by (simp add: device_content_def view_eq lower_def inv_lists_def Let_def)

text \<open>A file that is neither pending nor in the index does not show below the writers.\<close>

lemma index_content_other:
  "inv_map B S bs nb d \<Longrightarrow> x \<notin> indexed d \<Longrightarrow> blockmap_content B ((dv_content d)(x := c)) (primaryIndex (dv_tracker d)) = index_content B d"
proof
  fix k assume inv: "inv_map B S bs nb d" and x: "x \<notin> indexed d"
  have "owner B (primaryIndex (dv_tracker d)) k \<noteq> Some x"
    using owner_listed [of B S "primaryIndex (dv_tracker d)" k x] inv x by (auto simp: inv_map_def indexed_def Let_def)
  then show "blockmap_content B ((dv_content d)(x := c)) (primaryIndex (dv_tracker d)) k = index_content B d k"
    by (cases "owner B (primaryIndex (dv_tracker d)) k") (auto simp: blockmap_content_def index_content_def)
qed

lemma layered_other: "x \<notin> set xs \<Longrightarrow> layered (map (C(x := c)) xs) = layered (map C xs)"
  by (rule arg_cong [of _ _ layered]) auto

lemma layered_at: "(\<And>x. x \<in> set xs \<Longrightarrow> C' x k = C x k) \<Longrightarrow> layered (map C' xs) k = layered (map C xs) k"
  by (induction xs) (simp_all add: map_add_def split: option.split)

text \<open>A file that is nowhere the newest can go.\<close>

lemma newest_remove: "newest C rs k \<noteq> Some r \<Longrightarrow> newest C (remove1 r rs) k = newest C rs k"
proof (induction rs rule: rev_induct)
  case (snoc x rs)
  then show ?case by (cases "r \<in> set rs") (auto simp: remove1_append newest_snoc split: if_splits)
qed simp

context block_index
begin

text \<open>Pushing a reader into the index lays its blocks over what the index had.\<close>

lemma push_index:
  assumes inv: "inv_map B S bs nb d" and br: "br \<notin> indexed d" "length (bmr_rs (primaryIndex (dv_tracker d))) < 2 ^ 16 - 1"
    and r: "blockmap_PushReader B S (dv_env d) (primaryIndex (dv_tracker d)) br = Some idx"
  shows "inv_map B S bs nb (d\<lparr>dv_tracker := (dv_tracker d)\<lparr>primaryIndex := idx\<rparr>\<rparr>)"
    "set (bmr_rs idx) = insert br (indexed d)"
    "blockmap_content B (dv_content d) idx = index_content B d ++ dv_content d br"
proof -
  let ?r = "primaryIndex (dv_tracker d)"
  have hr: "block_hole_reader bs (dv_env d br) (dv_content d br)"
    using inv by (simp add: inv_map_def Let_def stack_layer_def)
  have b: "blockmap_inv B S ?r" "br \<notin> set (bmr_rs ?r)" using inv br(1) by (simp_all add: inv_map_def Let_def indexed_def)
  obtain r' where r': "blockmap_PushReader B S (dv_env d) ?r br = Some r'" "blockmap_inv B S r'" "bmr_rs r' = bmr_rs ?r @ [br]"
    "\<And>k. owner B r' k = (if dv_content d br k \<noteq> None then Some br else owner B ?r k)" "bmr_blockSize r' = bmr_blockSize ?r"
    by (rule PushReader_ok [where env = "dv_env d", OF b br(2) hr]) (rule that; assumption)
  from r'(1) r have "r' = idx" by simp
  note idx = r'(2-5) [unfolded this]
  show "inv_map B S bs nb (d\<lparr>dv_tracker := (dv_tracker d)\<lparr>primaryIndex := idx\<rparr>\<rparr>)"
    using inv idx(1,4) by (simp add: inv_map_def Let_def idx(2,3) newest_snoc)
  show "set (bmr_rs idx) = insert br (indexed d)" by (simp add: idx(2) indexed_def)
  show "blockmap_content B (dv_content d) idx = index_content B d ++ dv_content d br"
  proof
    fix k
    show "blockmap_content B (dv_content d) idx k = (index_content B d ++ dv_content d br) k"
      by (cases "dv_content d br k") (simp_all add: blockmap_content_def index_content_def idx(3) map_add_def)
  qed
qed

lemma remove_index:
  assumes inv: "inv_map B S bs nb d" and r: "r \<in> indexed d" "r \<notin> owners B d" "blockmap_RemoveTable S (primaryIndex (dv_tracker d)) r = Some idx"
  shows "inv_map B S bs nb (d\<lparr>dv_tracker := (dv_tracker d)\<lparr>primaryIndex := idx\<rparr>\<rparr>)"
    "set (bmr_rs idx) = indexed d - {r}"
    "blockmap_content B (dv_content d) idx = index_content B d"
    "\<And>k. owner B idx k = owner B (primaryIndex (dv_tracker d)) k"
proof -
  let ?r = "primaryIndex (dv_tracker d)"
  have b: "blockmap_inv B S ?r" using inv by (simp add: inv_map_def Let_def)
  have own: "owner B ?r k \<noteq> Some r" for k using r(2) by (auto simp: owners_def)
  have bsz: "bmr_blockSize idx = bmr_blockSize ?r" using r(3) by (auto simp: blockmap_RemoveTable_def Let_def split: if_splits)
  have "blockmap_inv B S idx \<and> bmr_rs idx = remove1 r (bmr_rs ?r) \<and> (\<forall>k. owner B idx k = owner B ?r k)"
    by (rule RemoveTable_ok [OF b _ own]) (use r(1,3) in \<open>auto simp: indexed_def\<close>)
  then have idx: "blockmap_inv B S idx" "bmr_rs idx = remove1 r (bmr_rs ?r)" "\<And>k. owner B idx k = owner B ?r k" by blast+
  moreover have "newest (dv_content d) (remove1 r (bmr_rs ?r)) k = newest (dv_content d) (bmr_rs ?r) k" for k
    by (rule newest_remove) (use own [of k] inv in \<open>simp add: inv_map_def Let_def\<close>)
  ultimately show "inv_map B S bs nb (d\<lparr>dv_tracker := (dv_tracker d)\<lparr>primaryIndex := idx\<rparr>\<rparr>)"
    using inv bsz by (simp add: inv_map_def Let_def)
  show "set (bmr_rs idx) = indexed d - {r}" using blockmap_invD(2) [OF b] by (simp add: idx(2) indexed_def set_remove1_eq)
  show "blockmap_content B (dv_content d) idx = index_content B d" by (simp add: fun_eq_iff blockmap_content_def index_content_def idx(3))
  show "\<And>k. owner B idx k = owner B ?r k" by (rule idx(3))
qed

end

text \<open>How the steps change the tracker.\<close>

lemma tracker_PushWriter [simp]:
  "tr_writers (PushWriter m w) = w # tr_writers m" "pendingReaders (PushWriter m w) = pendingReaders m"
  "primaryIndex (PushWriter m w) = primaryIndex m" "readerStack (PushWriter m w) = w # tr_writers m @ pendingReaders m"
  "compactionState (PushWriter m w) = compactionState m" "tr_blockSize (PushWriter m w) = tr_blockSize m"
  "tr_numBlocks (PushWriter m w) = tr_numBlocks m"
  by (simp_all add: PushWriter_def)

lemma tracker_PushReader [simp]:
  "tr_writers (tracker_PushReader m r) = tr_writers m" "pendingReaders (tracker_PushReader m r) = r # pendingReaders m"
  "primaryIndex (tracker_PushReader m r) = primaryIndex m" "readerStack (tracker_PushReader m r) = tr_writers m @ r # pendingReaders m"
  "compactionState (tracker_PushReader m r) = compactionState m" "tr_blockSize (tracker_PushReader m r) = tr_blockSize m"
  "tr_numBlocks (tracker_PushReader m r) = tr_numBlocks m"
  by (simp_all add: tracker_PushReader_def)

lemma tracker_RemoveWriter [simp]:
  assumes "readerStack m = tr_writers m @ pendingReaders m"
  shows "tr_writers (fst (RemoveWriter m w)) = remove1 w (tr_writers m)" "pendingReaders (fst (RemoveWriter m w)) = pendingReaders m"
  "primaryIndex (fst (RemoveWriter m w)) = primaryIndex m"
  "readerStack (fst (RemoveWriter m w)) = remove1 w (tr_writers m) @ pendingReaders m"
  "compactionState (fst (RemoveWriter m w)) = compactionState m" "tr_blockSize (fst (RemoveWriter m w)) = tr_blockSize m"
  "tr_numBlocks (fst (RemoveWriter m w)) = tr_numBlocks m"
  using assms by (simp_all add: RemoveWriter_def remove1_idem)

lemma tracker_merge_finish [simp]:
  "tr_writers (merge_finish m rs) = tr_writers m" "pendingReaders (merge_finish m rs) = filter (\<lambda>e. e \<notin> set rs) (pendingReaders m)"
  "primaryIndex (merge_finish m rs) = primaryIndex m"
  "readerStack (merge_finish m rs) = tr_writers m @ filter (\<lambda>e. e \<notin> set rs) (pendingReaders m)"
  "compactionState (merge_finish m rs) = compactionState m" "tr_blockSize (merge_finish m rs) = tr_blockSize m"
  "tr_numBlocks (merge_finish m rs) = tr_numBlocks m"
  by (simp_all add: merge_finish_def)

lemma tracker_Done [simp]:
  "tr_writers (CompactionState_Done m) = tr_writers m" "pendingReaders (CompactionState_Done m) = pendingReaders m"
  "primaryIndex (CompactionState_Done m) = primaryIndex m" "readerStack (CompactionState_Done m) = readerStack m"
  "compactionState (CompactionState_Done m) = False" "tr_blockSize (CompactionState_Done m) = tr_blockSize m"
  "tr_numBlocks (CompactionState_Done m) = tr_numBlocks m"
  by (simp_all add: CompactionState_Done_def)

lemma merge_push_Some: "merge_push B S env m br = Some t \<longleftrightarrow> (\<exists>idx. blockmap_PushReader B S env (primaryIndex m) br = Some idx \<and> t = m\<lparr>primaryIndex := idx\<rparr>)"
  by (auto simp: merge_push_def bind_eq_Some_conv)

lemma PushCompactedReader_Some:
  "PushCompactedReader B S env m br = Some t \<longleftrightarrow> (\<exists>idx. blockmap_PushReader B S env (primaryIndex m) br = Some idx \<and> t = m\<lparr>primaryIndex := idx\<rparr>)"
  by (auto simp: PushCompactedReader_def bind_eq_Some_conv)

lemma RemoveUnusedReader_Some:
  "RemoveUnusedReader S m r = Some t \<longleftrightarrow> (\<exists>idx. blockmap_RemoveTable S (primaryIndex m) r = Some idx \<and> t = m\<lparr>primaryIndex := idx\<rparr>)"
  by (auto simp: RemoveUnusedReader_def bind_eq_Some_conv)

lemma StartCompaction_Started: "StartCompaction m = (t, Started) \<longleftrightarrow> \<not> compactionState m \<and> pendingReaders m = [] \<and> t = m\<lparr>compactionState := True\<rparr>"
  by (auto simp: StartCompaction_def)

lemmas tracker_steps = merge_push_Some PushCompactedReader_Some RemoveUnusedReader_Some StartCompaction_Started

context block_index
begin

lemma act_map:
  assumes "act B S bs nb d d'" and inv: "inv_map B S bs nb d" "inv_lists d" "inv_merge B d" "inv_phase B d"
  shows "inv_map B S bs nb d'"
  using assms(1)
proof (cases rule: act.cases)
  case (write_active a R bl)
  have "a \<notin> set (bmr_rs (primaryIndex (dv_tracker d)))"
    using inv(4) write_active(2) by (auto simp: inv_phase_def Let_def outside_def indexed_def split: phase.splits)
  then have "newest ((dv_content d)(a := c)) (bmr_rs (primaryIndex (dv_tracker d))) = newest (dv_content d) (bmr_rs (primaryIndex (dv_tracker d)))" for c
    unfolding newest_def by (intro ext find_cong) auto
  with inv(1) write_active show ?thesis by (simp add: inv_map_def Let_def)
next
  case (merge_one rs br left t)
  from inv(3) merge_one(2) have "br \<notin> indexed d" by (auto simp: inv_merge_def)
  with push_index(1) [OF inv(1)] merge_one show ?thesis by (auto simp: tracker_steps inv_map_def Let_def)
next
  case (compact_push df t)
  then have "df \<notin> indexed d" by (simp add: fresh_def known_def)
  with push_index(1) [OF inv(1)] compact_push show ?thesis by (auto simp: tracker_steps)
next
  case (compact_remove r n t)
  with inv(4) have "r \<in> indexed d" "r \<notin> owners B d" by (auto simp: inv_phase_def Let_def)
  with remove_index(1) [OF inv(1)] compact_remove show ?thesis by (auto simp: tracker_steps inv_map_def Let_def)
qed (use inv in \<open>auto simp: inv_map_def inv_lists_def Let_def tracker_steps\<close>)

text \<open>Removing a reader from the index.\<close>

lemma compact_remove_effect:
  assumes inv: "inv_map B S bs nb d" "inv_merge B d" "inv_phase B d" and st: "dv_phase d = Removing r n" "RemoveUnusedReader S (dv_tracker d) r = Some t"
  obtains idx where "t = (dv_tracker d)\<lparr>primaryIndex := idx\<rparr>" "set (bmr_rs idx) = indexed d - {r}" "blockmap_content B (dv_content d) idx = index_content B d"
    "\<And>k. owner B idx k = owner B (primaryIndex (dv_tracker d)) k" "r \<in> indexed d" "r \<notin> owners B d"
    "set (pendingReaders (dv_tracker d)) \<inter> indexed d = {}" "\<And>rs left. dv_merge d \<noteq> Merging rs left"
proof -
  have r: "r \<in> indexed d" "r \<notin> owners B d" using inv(3) st(1) by (auto simp: inv_phase_def Let_def)
  have m: "set (pendingReaders (dv_tracker d)) \<inter> indexed d = {}" "\<And>rs left. dv_merge d \<noteq> Merging rs left"
    using inv(2) st(1) by (auto simp: inv_merge_def compacting_def split: merge.splits)
  obtain idx where idx: "blockmap_RemoveTable S (primaryIndex (dv_tracker d)) r = Some idx" "t = (dv_tracker d)\<lparr>primaryIndex := idx\<rparr>"
    using st(2) by (auto simp: tracker_steps)
  show thesis by (rule that [OF idx(2) remove_index(2-4) [OF inv(1) r idx(1)] r m])
qed

lemma act_lists:
  assumes "act B S bs nb d d'" and inv: "inv_map B S bs nb d" "inv_lists d" "inv_merge B d" "inv_phase B d"
  shows "inv_lists d'"
  using assms(1)
proof (cases rule: act.cases)
  case (merge_one rs br left t)
  then obtain idx where idx: "blockmap_PushReader B S (dv_env d) (primaryIndex (dv_tracker d)) br = Some idx"
    "t = (dv_tracker d)\<lparr>primaryIndex := idx\<rparr>" by (auto simp: tracker_steps)
  from inv(3) merge_one(2) have br: "br \<notin> indexed d" "br \<in> set (pendingReaders (dv_tracker d))" by (auto simp: inv_merge_def)
  then have "known d' = known d"
    using push_index(2) [OF inv(1) br(1) merge_one(3) idx(1)] unfolding merge_one(1) idx(2) by (auto simp: known_def indexed_def)
  with inv(2) show ?thesis unfolding merge_one(1) idx(2) by (simp add: inv_lists_def Let_def)
next
  case (compact_push df t)
  then obtain idx where idx: "blockmap_PushReader B S (dv_env d) (primaryIndex (dv_tracker d)) df = Some idx"
    "t = (dv_tracker d)\<lparr>primaryIndex := idx\<rparr>" by (auto simp: tracker_steps)
  have df: "df \<notin> indexed d" "df \<notin> dv_closed d" using compact_push(3) by (simp_all add: fresh_def known_def)
  then have "known d' = insert df (known d)"
    using push_index(2) [OF inv(1) df(1) compact_push(5) idx(1)] unfolding compact_push(1) idx(2) by (auto simp: known_def indexed_def)
  with inv(2) df(2) show ?thesis unfolding compact_push(1) idx(2) by (simp add: inv_lists_def Let_def)
next
  case (compact_remove r n t)
  obtain idx where idx: "t = (dv_tracker d)\<lparr>primaryIndex := idx\<rparr>" "set (bmr_rs idx) = indexed d - {r}" "r \<in> indexed d"
    "set (pendingReaders (dv_tracker d)) \<inter> indexed d = {}"
    by (rule compact_remove_effect [OF inv(1,3,4) compact_remove(2,4)]) (rule that; assumption)
  have "\<exists>a. tr_writers (dv_tracker d) = [a] \<and> outside d a" using inv(4) compact_remove(2) by (auto simp: inv_phase_def Let_def)
  moreover have k: "known d' = set (tr_writers (dv_tracker d)) \<union> set (pendingReaders (dv_tracker d)) \<union> (indexed d - {r})"
    using idx(2) unfolding compact_remove(1) idx(1) by (simp add: known_def indexed_def)
  moreover have "dv_closed d \<inter> known d = {}" using inv(2) by (simp add: inv_lists_def Let_def)
  ultimately have "insert r (dv_closed d) \<inter> known d' = {}" using idx(3,4) unfolding k by (auto simp: outside_def known_def)
  with inv(2) compact_remove(2) show ?thesis unfolding compact_remove(1) idx(1)
    by (simp add: inv_lists_def Let_def compacting_def)
next
  case (rotate_seal a)
  with inv(4) obtain w where "outside d a" "tr_writers (dv_tracker d) = [w, a]" by (auto simp: inv_phase_def Let_def)
  with rotate_seal inv(2) show ?thesis
    by (auto simp: inv_lists_def Let_def known_def indexed_def outside_def compacting_def)
next
  case (rotate_remove a)
  with inv(4) obtain w where "tr_writers (dv_tracker d) = [w, a]" "w \<noteq> a" by (auto simp: inv_phase_def Let_def)
  with rotate_remove inv(2) show ?thesis by (auto simp: inv_lists_def Let_def known_def indexed_def compacting_def)
qed (use inv(2) in \<open>auto simp: inv_lists_def Let_def tracker_steps known_def indexed_def fresh_def compacting_def\<close>)

text \<open>What lies below the writers changes only when a log is sealed.\<close>

lemma merge_one_lower:
  assumes "dv_merge d = Merging rs (br # left)" "length (bmr_rs (primaryIndex (dv_tracker d))) < 2 ^ 16 - 1"
    and "blockmap_PushReader B S (dv_env d) (primaryIndex (dv_tracker d)) br = Some idx" and inv: "inv_map B S bs nb d" "inv_merge B d"
  shows "blockmap_content B (dv_content d) idx = index_content B d ++ dv_content d br" "br \<in> set (pendingReaders (dv_tracker d))"
    "set (bmr_rs idx) = insert br (indexed d)"
proof -
  from inv(2) assms(1) have "br \<notin> indexed d" "br \<in> set (pendingReaders (dv_tracker d))" by (auto simp: inv_merge_def)
  with push_index [OF inv(1) _ assms(2,3)] show "blockmap_content B (dv_content d) idx = index_content B d ++ dv_content d br"
    "br \<in> set (pendingReaders (dv_tracker d))" "set (bmr_rs idx) = insert br (indexed d)" by blast+
qed

lemma add_covered: "br \<in> set st \<Longrightarrow> (m ++ C br) ++ layered (map C st) = m ++ layered (map C st)"
  using dom_layered [of "C br" "map C st"] map_add_covered [of "C br" "layered (map C st)"] by (simp flip: map_add_assoc)

lemma act_merge:
  assumes "act B S bs nb d d'" and inv: "inv_map B S bs nb d" "inv_lists d" "inv_merge B d" "inv_phase B d"
  shows "inv_merge B d'"
  using assms(1)
proof (cases rule: act.cases)
  case (merge_one rs br left t)
  then obtain idx where idx: "blockmap_PushReader B S (dv_env d) (primaryIndex (dv_tracker d)) br = Some idx"
    "t = (dv_tracker d)\<lparr>primaryIndex := idx\<rparr>" by (auto simp: tracker_steps)
  note lw = merge_one_lower [OF merge_one(2,3) idx(1) inv(1,3)]
  obtain ps newer where m: "rs = ps @ br # left" "pendingReaders (dv_tracker d) = newer @ rev rs"
    "set ps \<subseteq> indexed d" "(set newer \<union> set (br # left)) \<inter> indexed d = {}" "\<not> compacting (dv_phase d)"
    "layered (map (dv_content d) (rev ps)) \<subseteq>\<^sub>m index_content B d" by (rule inv_mergeE [OF inv(3) merge_one(2)])
  have "distinct (newer @ rev rs)" using inv(2) m(2) by (simp add: inv_lists_def Let_def)
  then have "(set newer \<union> set left) \<inter> insert br (indexed d) = {}" using m(1,4) by auto
  moreover have "layered (map (dv_content d) (rev (ps @ [br]))) \<subseteq>\<^sub>m index_content B d ++ dv_content d br"
    using map_le_add_right [OF m(6)] by simp
  moreover have "set (ps @ [br]) \<subseteq> insert br (indexed d)" using m(3) by auto
  ultimately have "\<exists>ps newer. rs = ps @ left \<and> rs \<noteq> [] \<and> pendingReaders (dv_tracker d) = newer @ rev rs \<and> set ps \<subseteq> insert br (indexed d) \<and>
      (set newer \<union> set left) \<inter> insert br (indexed d) = {} \<and> \<not> compacting (dv_phase d) \<and>
      layered (map (dv_content d) (rev ps)) \<subseteq>\<^sub>m index_content B d ++ dv_content d br"
    using m(1,2,5) by (intro exI [where x = newer] exI [where x = "ps @ [br]"] conjI) (simp_all del: rev_append layered_append)
  then show ?thesis
    using lw(1,3) unfolding merge_one(1) idx(2) by (simp add: inv_merge_def indexed_def index_content_def)
next
  case (merge_end rs)
  with inv(3) obtain newer where "pendingReaders (dv_tracker d) = newer @ rev rs" "set newer \<inter> indexed d = {}" by (auto simp: inv_merge_def)
  with merge_end show ?thesis by (auto simp: inv_merge_def indexed_def)
next
  case (compact_push df t)
  then have "df \<notin> known d" by (simp add: fresh_def)
  then have df: "df \<notin> indexed d" "df \<notin> set (pendingReaders (dv_tracker d))" by (auto simp: known_def)
  have "set (pendingReaders (dv_tracker d)) \<inter> indexed d = {}" "\<And>rs left. dv_merge d \<noteq> Merging rs left"
    using inv(3) compact_push(2) by (auto simp: inv_merge_def compacting_def split: merge.splits)
  with df compact_push push_index(2) [OF inv(1) df(1)] show ?thesis
    by (auto simp: inv_merge_def tracker_steps indexed_def split: merge.splits)
next
  case (compact_remove r n t)
  obtain idx where idx: "t = (dv_tracker d)\<lparr>primaryIndex := idx\<rparr>" "set (bmr_rs idx) = indexed d - {r}"
    "set (pendingReaders (dv_tracker d)) \<inter> indexed d = {}" "\<And>rs left. dv_merge d \<noteq> Merging rs left"
    by (rule compact_remove_effect [OF inv(1,3,4) compact_remove(2,4)]) (rule that; assumption)
  moreover have "indexed d' = indexed d - {r}" "pendingReaders (dv_tracker d') = pendingReaders (dv_tracker d)" "dv_merge d' = dv_merge d"
    using idx(2) unfolding compact_remove(1) idx(1) by (simp_all add: indexed_def)
  ultimately show ?thesis by (auto simp: inv_merge_def split: merge.splits)
next
  case (open_file r)
  then have "r \<notin> indexed d" by (simp add: fresh_def known_def)
  with open_file show ?thesis
    by (intro inv_merge_keep [OF inv(3), of _ "[r]"]) (simp_all add: indexed_def index_content_def)
next
  case (rotate_seal a)
  with inv(4) have "a \<notin> indexed d" by (auto simp: inv_phase_def Let_def outside_def)
  with rotate_seal show ?thesis
    by (intro inv_merge_keep [OF inv(3), of _ "[a]"]) (simp_all add: indexed_def index_content_def compacting_def)
next
  case (write_active a R bl)
  with inv(4) have a: "outside d a" by (auto simp: inv_phase_def Let_def split: phase.splits)
  with write_active index_content_other [OF inv(1), of a] show ?thesis
    by (intro inv_merge_keep [OF inv(3), of _ "[]"]) (auto simp: indexed_def index_content_def outside_def)
next
  case (compact_start t)
  with inv(3) have "\<nexists>rs left. dv_merge d = Merging rs left" by (auto simp: inv_merge_def tracker_steps)
  with compact_start show ?thesis by (auto simp: inv_merge_def tracker_steps split: merge.splits)
next
  case (rotate_remove a)
  with inv(2) show ?thesis
    by (intro inv_merge_keep [OF inv(3), of _ "[]"]) (simp_all add: indexed_def index_content_def compacting_def inv_lists_def Let_def)
next
  case (merge_begin rs)
  then show ?thesis using inv(2,3)
    by (auto simp: inv_merge_def merge_ready_def merge_clone_def inv_lists_def Let_def indexed_def)
next
  case (merge_rest n)
  with inv(3) show ?thesis by (simp add: inv_merge_def indexed_def)
qed (rule inv_merge_keep [OF inv(3), of _ "[]"]; simp add: indexed_def index_content_def compacting_def)+

lemma merge_one_effect:
  assumes d': "d' = d\<lparr>dv_tracker := t, dv_merge := Merging rs left\<rparr>" and st: "dv_merge d = Merging rs (br # left)"
    "length (bmr_rs (primaryIndex (dv_tracker d))) < 2 ^ 16 - 1" "merge_push B S (dv_env d) (dv_tracker d) br = Some t"
    and inv: "inv_map B S bs nb d" "inv_merge B d"
  obtains idx where "t = (dv_tracker d)\<lparr>primaryIndex := idx\<rparr>" "br \<in> set (pendingReaders (dv_tracker d))" "indexed d' = insert br (indexed d)"
    "index_content B d' = index_content B d ++ dv_content d br" "lower B d' = lower B d" "outside d' = outside d"
    "\<not> compacting (dv_phase d)"
proof -
  from st(3) obtain idx where idx: "blockmap_PushReader B S (dv_env d) (primaryIndex (dv_tracker d)) br = Some idx"
    "t = (dv_tracker d)\<lparr>primaryIndex := idx\<rparr>" by (auto simp: tracker_steps)
  note lw = merge_one_lower [OF st(1,2) idx(1) inv]
  have i: "index_content B d' = index_content B d ++ dv_content d br" using lw(1) by (simp add: d' idx(2) index_content_def)
  moreover have "lower B d' = lower B d"
    using add_covered [OF lw(2), of "index_content B d" "dv_content d"] by (simp add: lower_def i) (simp add: d' idx(2))
  moreover have x: "indexed d' = insert br (indexed d)" using lw(3) by (simp add: d' idx(2) indexed_def)
  moreover have "outside d' = outside d" using lw(2) by (auto simp: fun_eq_iff outside_def x) (auto simp: d' idx(2))
  moreover have "\<not> compacting (dv_phase d)" by (rule inv_mergeE [OF inv(2) st(1)])
  ultimately show thesis using that idx(2) lw(2) by blast
qed

lemma merge_end_effect:
  assumes d': "d' = (on_tracker (\<lambda>m. merge_finish m rs) d)\<lparr>dv_merge := m\<rparr>" and st: "dv_merge d = Merging rs []" and inv: "inv_merge B d" "inv_lists d"
  shows "lower B d' = lower B d" "outside d' = outside d" "index_content B d' = index_content B d" "indexed d' = indexed d" "owners B d' = owners B d"
proof -
  obtain ps newer where p: "rs = ps @ []" "pendingReaders (dv_tracker d) = newer @ rev rs" "set ps \<subseteq> indexed d" "(set newer \<union> set []) \<inter> indexed d = {}"
    "layered (map (dv_content d) (rev ps)) \<subseteq>\<^sub>m index_content B d" by (rule inv_mergeE [OF inv(1) st])
  have f: "filter (\<lambda>e. e \<notin> set rs) (pendingReaders (dv_tracker d)) = newer" using p(1-4) by (auto simp: filter_id_conv)
  show i: "index_content B d' = index_content B d" "indexed d' = indexed d" "owners B d' = owners B d"
    by (simp_all add: d' index_content_def indexed_def owners_def)
  have "index_content B d ++ (layered (map (dv_content d) (rev rs)) ++ layered (map (dv_content d) newer)) =
      index_content B d ++ layered (map (dv_content d) newer)"
    using map_add_known [OF p(5)] p(1) by simp
  then show "lower B d' = lower B d" unfolding lower_def i p(2) using f by (simp add: d')
  show "outside d' = outside d" 
  proof
    fix x
    have "pendingReaders (dv_tracker d') = newer" using f by (simp add: d')
    with p(1-3) show "outside d' x = outside d x" by (auto simp: outside_def i(2))
  qed
qed

end

lemma inv_phase_keep:
  assumes inv: "inv_phase B d" and eq: "dv_phase d' = dv_phase d" "dv_active d' = dv_active d"
    "tr_writers (dv_tracker d') = tr_writers (dv_tracker d)" "outside d' = outside d" "lower B d' = lower B d"
    "\<And>w. dv_phase d = Rotating w \<Longrightarrow> dv_content d' w = dv_content d w"
    "\<And>a. dv_phase d = Retired a \<Longrightarrow> dv_content d' a = dv_content d a"
    "dv_phase d = Opening \<Longrightarrow> dv_reads d' = Map.empty"
    "\<And>r n. dv_phase d = Removing r n \<Longrightarrow> indexed d' = indexed d \<and> owners B d' = owners B d"
  shows "inv_phase B d'"
proof (cases "dv_phase d")
  case (Removing r n)
  with eq(9) [OF this] inv show ?thesis by (simp add: inv_phase_def Let_def eq)
qed (use inv eq in \<open>auto simp: inv_phase_def Let_def\<close>)

context block_index
begin

lemma act_phase:
  assumes "act B S bs nb d d'" and inv: "inv_map B S bs nb d" "inv_lists d" "inv_merge B d" "inv_phase B d"
  shows "inv_phase B d'"
  using assms(1)
proof (cases rule: act.cases)
  case (merge_one rs br left t)
  show ?thesis
    by (rule merge_one_effect [OF merge_one inv(1,3)], rule inv_phase_keep [OF inv(4)])
      (use inv(4) in \<open>simp_all add: merge_one(1) compacting_def inv_phase_def Let_def\<close>)
next
  case (merge_end rs)
  note e = merge_end_effect [OF merge_end(1,2) inv(3,2)]
  show ?thesis
    by (rule inv_phase_keep [OF inv(4) _ _ _ e(2,1)]) (use inv(4) e(4,5) in \<open>simp_all add: merge_end(1) inv_phase_def Let_def\<close>)
next
  case (open_file r)
  then show ?thesis using inv(4) by (simp add: inv_phase_def)
next
  case (open_writer w)
  then show ?thesis using inv(4) by (simp add: inv_phase_def fresh_def known_def outside_def indexed_def)
next
  case read_start
  then show ?thesis
    by (intro inv_phase_keep [OF inv(4)]) (simp_all add: outside_def fun_eq_iff lower_def index_content_def indexed_def owners_def)
next
  case (read_end i)
  then show ?thesis using inv(4)
    by (intro inv_phase_keep [OF inv(4)]) (simp_all add: outside_def fun_eq_iff lower_def index_content_def indexed_def owners_def inv_phase_def)
next
  case (write_active a R bl)
  with inv(4) have a: "outside d a" by (auto simp: inv_phase_def Let_def split: phase.splits)
  have "lower B d' = lower B d"
    using a index_content_other [OF inv(1), of a] layered_other [of a "pendingReaders (dv_tracker d)"] write_active(1)
    by (simp add: lower_def index_content_def outside_def)
  then show ?thesis using inv(4) write_active
    by (intro inv_phase_keep [OF inv(4)]) (auto simp: outside_def fun_eq_iff indexed_def owners_def inv_phase_def)
next
  case (rotate_push w)
  then show ?thesis using inv(4) by (auto simp: inv_phase_def fresh_def known_def outside_def indexed_def)
next
  case (rotate_switch w a)
  then show ?thesis using inv(4) by (auto simp: inv_phase_def outside_def indexed_def)
next
  case (rotate_seal a)
  then have "lower B d' = lower B d ++ dv_content d a" by (simp add: lower_def index_content_def)
  with rotate_seal inv(4) show ?thesis by (auto simp: inv_phase_def outside_def indexed_def)
next
  case (rotate_remove a)
  then show ?thesis using inv(2,4) by (auto simp: inv_phase_def outside_def indexed_def inv_lists_def Let_def)
next
  case (rotate_done n)
  then show ?thesis using inv(4) by (auto simp: inv_phase_def outside_def indexed_def)
next
  case (merge_begin rs)
  then show ?thesis
    by (intro inv_phase_keep [OF inv(4)]) (use inv(4) in \<open>simp_all add: outside_def fun_eq_iff lower_def index_content_def indexed_def owners_def inv_phase_def\<close>)
next
  case (merge_rest n)
  then show ?thesis
    by (intro inv_phase_keep [OF inv(4)]) (use inv(4) in \<open>simp_all add: outside_def fun_eq_iff lower_def index_content_def indexed_def owners_def inv_phase_def\<close>)
next
  case (compact_start t)
  then show ?thesis using inv(4) by (auto simp: inv_phase_def outside_def indexed_def tracker_steps)
next
  case (compact_push df t)
  then obtain idx where idx: "blockmap_PushReader B S (dv_env d) (primaryIndex (dv_tracker d)) df = Some idx"
    "t = (dv_tracker d)\<lparr>primaryIndex := idx\<rparr>" by (auto simp: tracker_steps)
  have df: "df \<notin> indexed d" using compact_push(3) by (simp add: fresh_def known_def)
  from push_index(2) [OF inv(1) df(1) compact_push(5) idx(1)] have "indexed d' = insert df (indexed d)"
    unfolding compact_push(1) idx(2) by (simp add: indexed_def)
  with compact_push(2,3) inv(4) show ?thesis unfolding compact_push(1) idx(2)
    by (auto simp: inv_phase_def Let_def outside_def fresh_def known_def)
next
  case (compact_drain r)
  then show ?thesis using inv(4) by (auto simp: inv_phase_def outside_def indexed_def owners_def)
next
  case (compact_remove r n t)
  obtain idx where idx: "t = (dv_tracker d)\<lparr>primaryIndex := idx\<rparr>" "set (bmr_rs idx) = indexed d - {r}"
    by (rule compact_remove_effect [OF inv(1,3,4) compact_remove(2,4)]) (rule that; assumption)
  then have "indexed d' = indexed d - {r}" unfolding compact_remove(1) by (simp add: indexed_def)
  with compact_remove(2) inv(4) show ?thesis unfolding compact_remove(1) idx(1) by (auto simp: inv_phase_def Let_def outside_def)
next
  case compact_done
  then show ?thesis using inv(4) by (auto simp: inv_phase_def outside_def indexed_def)
qed

lemma act_known:
  assumes "act B S bs nb d d'" and inv: "inv_map B S bs nb d" "inv_lists d" "inv_merge B d" "inv_phase B d"
  shows "known d - dv_closed d' \<subseteq> known d'"
  using assms(1)
proof (cases rule: act.cases)
  case (merge_one rs br left t)
  obtain idx where "t = (dv_tracker d)\<lparr>primaryIndex := idx\<rparr>" "indexed d' = insert br (indexed d)"
    by (rule merge_one_effect [OF merge_one inv(1,3)]) (rule that; assumption)
  then show ?thesis unfolding known_def merge_one(1) by auto
next
  case (merge_end rs)
  obtain ps newer where "rs = ps @ []" "pendingReaders (dv_tracker d) = newer @ rev rs" "set ps \<subseteq> indexed d"
    by (rule inv_mergeE [OF inv(3) merge_end(2)])
  then show ?thesis unfolding known_def merge_end(1) by (auto simp: indexed_def)
next
  case (rotate_remove a)
  then show ?thesis using inv(2,4) by (auto simp: inv_phase_def known_def indexed_def inv_lists_def outside_def Let_def)
next
  case (compact_push df t)
  then obtain idx where idx: "blockmap_PushReader B S (dv_env d) (primaryIndex (dv_tracker d)) df = Some idx"
    "t = (dv_tracker d)\<lparr>primaryIndex := idx\<rparr>" by (auto simp: tracker_steps)
  have df: "df \<notin> indexed d" using compact_push(3) by (simp add: fresh_def known_def)
  from push_index(2) [OF inv(1) df(1) compact_push(5) idx(1)] have "indexed d' = insert df (indexed d)"
    unfolding compact_push(1) idx(2) by (simp add: indexed_def)
  then show ?thesis unfolding known_def compact_push(1) idx(2) by auto
next
  case (compact_remove r n t)
  obtain idx where idx: "t = (dv_tracker d)\<lparr>primaryIndex := idx\<rparr>" "set (bmr_rs idx) = indexed d - {r}"
    by (rule compact_remove_effect [OF inv(1,3,4) compact_remove(2,4)]) (rule that; assumption)
  then have "indexed d' = indexed d - {r}" unfolding compact_remove(1) by (simp add: indexed_def)
  then show ?thesis unfolding known_def compact_remove(1) idx(1) by auto
qed (auto simp: known_def indexed_def tracker_steps)

lemma inv_reads_keep:
  assumes inv: "inv_reads d" and eq: "dv_reads d' = dv_reads d" "dv_next d' = dv_next d"
    "\<And>i rd. dv_reads d i = Some rd \<Longrightarrow> set (pendingReaders (dv_tracker d)) \<subseteq> set (rd_stack rd) \<Longrightarrow> set (pendingReaders (dv_tracker d')) \<subseteq> set (rd_stack rd)"
    "\<And>i rd. dv_reads d i = Some rd \<Longrightarrow> set (rd_stack rd) \<subseteq> known d'"
    "\<And>i rd. dv_reads d i = Some rd \<Longrightarrow> i < dv_next d \<Longrightarrow> stack_shape (dv_phase d) (dv_active d) i (rd_stack rd) \<Longrightarrow>
       stack_shape (dv_phase d') (dv_active d') i (rd_stack rd)"
  shows "inv_reads d'"
  unfolding inv_reads_def eq(1,2)
proof (intro allI impI)
  fix i rd assume r: "dv_reads d i = Some rd"
  with inv have "i < dv_next d" "set (pendingReaders (dv_tracker d)) \<subseteq> set (rd_stack rd)" "stack_shape (dv_phase d) (dv_active d) i (rd_stack rd)"
    unfolding inv_reads_def by blast+
  with eq(3-5) [OF r] show "i < dv_next d \<and> set (pendingReaders (dv_tracker d')) \<subseteq> set (rd_stack rd) \<and> set (rd_stack rd) \<subseteq> known d' \<and>
      stack_shape (dv_phase d') (dv_active d') i (rd_stack rd)" by simp
qed

lemma act_reads:
  assumes act: "act B S bs nb d d'" and inv: "inv_map B S bs nb d" "inv_lists d" "inv_merge B d" "inv_phase B d" "inv_reads d" "inv_touch d"
  shows "inv_reads d'"
proof -
  have closed: "dv_closed d \<inter> known d = {}" using inv(2) by (simp add: inv_lists_def Let_def)
  have known: "set (rd_stack rd) \<subseteq> known d'" if "dv_reads d i = Some rd" "dv_reads d' = dv_reads d" for i rd
  proof -
    have "set (rd_stack rd) \<subseteq> known d" using inv(5) that(1) unfolding inv_reads_def by blast
    moreover have "set (rd_stack rd) \<inter> dv_closed d' = {}"
      using act
    proof (cases rule: act.cases)
      case (compact_remove r n t)
      then have "n \<le> i" using that(1) by (auto simp: drained_def)
      with inv(6) that(1) compact_remove(2) have "r \<notin> set (rd_stack rd)" unfolding inv_touch_def by blast
      with compact_remove(1) calculation closed show ?thesis by auto
    qed (use calculation closed in auto)
    ultimately show ?thesis using act_known [OF act inv(1-4)] by blast
  qed
  from act show ?thesis
  proof (cases rule: act.cases)
    case (open_file r)
    with inv(4) show ?thesis by (simp add: inv_reads_def inv_phase_def)
  next
    case (open_writer w)
    with inv(4) show ?thesis by (simp add: inv_reads_def inv_phase_def)
  next
    case read_start
    have "readerStack (dv_tracker d) = tr_writers (dv_tracker d) @ pendingReaders (dv_tracker d)" using inv(2) by (simp add: inv_lists_def Let_def)
    then have "set (readerStack (dv_tracker d)) \<subseteq> known d" "set (pendingReaders (dv_tracker d)) \<subseteq> set (readerStack (dv_tracker d))"
      "stack_shape (dv_phase d) (dv_active d) (dv_next d) (readerStack (dv_tracker d))"
      using inv(4) by (auto simp: known_def stack_shape_def inv_phase_def Let_def split: phase.splits)
    with inv(5) read_start(1) show ?thesis by (auto simp: inv_reads_def known_def indexed_def less_Suc_eq)
  next
    case (read_end i)
    with inv(5) show ?thesis by (auto simp: inv_reads_def known_def indexed_def)
  next
    case (rotate_push w)
    have "w \<notin> set (rd_stack rd)" if "dv_reads d i = Some rd" for i rd
      using inv(5) that rotate_push(3) unfolding inv_reads_def fresh_def by blast
    with rotate_push inv(4) show ?thesis
      by (intro inv_reads_keep [OF inv(5) _ _ _ known]) (auto simp: stack_shape_def inv_phase_def)
  next
    case (rotate_switch w a)
    with inv(4) show ?thesis
      by (intro inv_reads_keep [OF inv(5) _ _ _ known]) (auto simp: stack_shape_def inv_phase_def Let_def)
  next
    case (rotate_seal a)
    have "a \<in> set (rd_stack rd)" if "dv_reads d i = Some rd" for i rd
    proof -
      have "stack_shape (dv_phase d) (dv_active d) i (rd_stack rd)" using inv(5) that unfolding inv_reads_def by blast
      then show ?thesis using rotate_seal(2) by (auto simp: stack_shape_def)
    qed
    with rotate_seal show ?thesis
      by (intro inv_reads_keep [OF inv(5) _ _ _ known]) (auto simp: stack_shape_def)
  next
    case (rotate_remove a)
    with inv(2) show ?thesis
      by (intro inv_reads_keep [OF inv(5) _ _ _ known]) (auto simp: stack_shape_def inv_lists_def Let_def)
  next
    case (rotate_done n)
    then have "n \<le> i" if "dv_reads d i = Some rd" for i rd using that by (auto simp: drained_def)
    with rotate_done show ?thesis
      by (intro inv_reads_keep [OF inv(5) _ _ _ known]) (auto simp: stack_shape_def leD)
  qed (intro inv_reads_keep [OF inv(5) _ _ _ known]; auto simp: stack_shape_def tracker_steps)+
qed

lemma act_touch:
  assumes act: "act B S bs nb d d'" and inv: "inv_map B S bs nb d" "inv_lists d" "inv_merge B d" "inv_phase B d" "inv_reads d" "inv_touch d"
  shows "inv_touch d'"
  using act
proof (cases rule: act.cases)
  case read_start
  have st: "set (readerStack (dv_tracker d)) \<subseteq> known d" "dv_closed d \<inter> known d = {}"
    "readerStack (dv_tracker d) = tr_writers (dv_tracker d) @ pendingReaders (dv_tracker d)"
    using inv(2) by (auto simp: inv_lists_def Let_def known_def)
  have "r \<notin> set (readerStack (dv_tracker d))" if "dv_phase d = Removing r n" for r n
  proof -
    have "set (pendingReaders (dv_tracker d)) \<inter> indexed d = {}"
      using inv(3) that by (auto simp: inv_merge_def compacting_def split: merge.splits)
    with inv(4) that st(3) show ?thesis by (auto simp: inv_phase_def outside_def)
  qed
  with inv(6) st(1,2) read_start(1) show ?thesis by (auto simp: inv_touch_def)
next
  case (compact_drain r)
  then show ?thesis using inv(5,6) by (fastforce simp: inv_touch_def inv_reads_def)
next
  case (compact_remove r n t)
  have "n \<le> i \<and> r \<notin> rd_touched rd" if "dv_reads d i = Some rd" for i rd
    using that compact_remove(2,3) inv(6) by (auto simp: inv_touch_def drained_def)
  with compact_remove(1) inv(6) show ?thesis by (fastforce simp: inv_touch_def)
qed (use inv(4,6) in \<open>auto simp: inv_touch_def inv_phase_def tracker_steps split: if_splits\<close>)

lemma written_by_snoc:
  "j \<le> length log \<Longrightarrow> written_by (log @ [bl]) j = written_by log j"
  "written_by (log @ [bl]) (Suc (length log)) = written_by log (length log) ++ bl"
  by (simp_all add: written_by_def)

text \<open>A step that is neither an open nor a write changes neither what the device holds nor what a read in progress sees.\<close>

lemma inv_view_keep:
  assumes inv: "inv_view B d" and eq: "dv_log d' = dv_log d" "device_content B d' = device_content B d"
    and rd: "\<And>i rd. dv_reads d' i = Some rd \<Longrightarrow> dv_reads d i = Some rd \<and> view B d' (rd_stack rd) = view B d (rd_stack rd)"
  shows "inv_view B d'"
  unfolding inv_view_def eq
proof (intro conjI allI impI)
  fix i rd k assume r: "dv_reads d' i = Some rd"
  note r = rd [OF r]
  with inv show "rd_start rd \<le> length (dv_log d)" unfolding inv_view_def by blast
  from r inv show "\<exists>j\<ge>rd_start rd. j \<le> length (dv_log d) \<and> view B d' (rd_stack rd) k = written_by (dv_log d) j k"
    unfolding inv_view_def conjunct2 [OF r] by blast
qed (use inv in \<open>simp add: inv_view_def\<close>)

lemma same_below: "index_content B d' = index_content B d \<Longrightarrow> dv_content d' = dv_content d \<Longrightarrow> view B d' st = view B d st"
  by (simp add: view_eq)

lemma write_view:
  assumes a: "dv_active d = Some a" and d': "d' = d\<lparr>dv_env := E, dv_content := (dv_content d)(a := dv_content d a ++ bl), dv_log := l\<rparr>"
    and inv: "inv_map B S bs nb d" "inv_phase B d" and sh: "stack_shape (dv_phase d) (dv_active d) i st"
  shows "view B d' st k = (if a \<in> set st \<and> bl k \<noteq> None then bl k else view B d st k)"
proof -
  have out: "outside d a" using inv(2) a by (auto simp: inv_phase_def Let_def split: phase.splits)
  then have ix: "index_content B d' = index_content B d"
    using index_content_other [OF inv(1), of a] by (simp add: outside_def d' index_content_def)
  let ?C = "(dv_content d)(a := dv_content d a ++ bl)"
  have same: "layered (map ?C xs) k = layered (map (dv_content d) xs) k" if "bl k = None" for xs
    by (rule layered_at) (simp add: that map_add_def)
  show ?thesis
  proof (cases "a \<in> set st \<and> bl k \<noteq> None")
    case True
    then obtain b where b: "bl k = Some b" by blast
    have "(\<exists>ys. st = a # ys) \<or> (\<exists>w ys. st = w # a # ys \<and> w \<noteq> a \<and> dv_content d w = Map.empty)"
      using sh a True inv(2) by (auto simp: stack_shape_def inv_phase_def split: phase.splits)
    then show ?thesis using b True unfolding view_eq ix by (auto simp: d' map_add_def)
  next
    case False
    then show ?thesis unfolding view_eq ix using same layered_other [of a st "dv_content d" "dv_content d a ++ bl"]
      by (auto simp: d' map_add_def)
  qed
qed

lemma act_view_write:
  assumes act: "act B S bs nb d d'" and a: "dv_active d = Some a"
    and d': "d' = d\<lparr>dv_env := E, dv_content := (dv_content d)(a := dv_content d a ++ bl), dv_log := dv_log d @ [bl]\<rparr>"
    and inv: "inv_map B S bs nb d" "inv_lists d" "inv_merge B d" "inv_phase B d" "inv_reads d" "inv_view B d"
  shows "inv_view B d'"
  unfolding inv_view_def
proof (intro conjI allI impI)
  let ?n = "length (dv_log d)"
  note wv = write_view [OF a d' inv(1,4)]
  have st: "readerStack (dv_tracker d) = tr_writers (dv_tracker d) @ pendingReaders (dv_tracker d)" using inv(2) by (simp add: inv_lists_def Let_def)
  have "stack_shape (dv_phase d) (dv_active d) (dv_next d) (readerStack (dv_tracker d))" "a \<in> set (readerStack (dv_tracker d))"
    using inv(4) a st by (auto simp: stack_shape_def inv_phase_def Let_def split: phase.splits)
  from wv [OF this(1)] this(2) have "device_content B d' k = (if bl k \<noteq> None then bl k else device_content B d k)" for k
    by (simp add: device_content_def) (simp add: d')
  then have "device_content B d' = device_content B d ++ bl" by (auto simp: fun_eq_iff map_add_def split: option.splits)
  with inv(6) show "device_content B d' = written_by (dv_log d') (length (dv_log d'))"
    by (simp add: inv_view_def d' written_by_snoc)
  fix i rd k assume r: "dv_reads d' i = Some rd"
  then have r: "dv_reads d i = Some rd" by (simp add: d')
  with inv(6) obtain j where j: "rd_start rd \<le> j" "j \<le> ?n" "view B d (rd_stack rd) k = written_by (dv_log d) j k"
    unfolding inv_view_def by blast
  then show "rd_start rd \<le> length (dv_log d')" by (simp add: d')
  have "stack_shape (dv_phase d) (dv_active d) i (rd_stack rd)" using inv(5) r unfolding inv_reads_def by blast
  note v = wv [OF this, of k]
  show "\<exists>j\<ge>rd_start rd. j \<le> length (dv_log d') \<and> view B d' (rd_stack rd) k = written_by (dv_log d') j k"
  proof (cases "a \<in> set (rd_stack rd) \<and> bl k \<noteq> None")
    case True
    then have "view B d' (rd_stack rd) k = written_by (dv_log d') (Suc ?n) k"
      using v by (auto simp: d' written_by_snoc map_add_def)
    with j(1,2) show ?thesis by (intro exI [of _ "Suc ?n"]) (simp add: d')
  next
    case False
    then have "view B d' (rd_stack rd) k = written_by (dv_log d') j k"
      using v j(2,3) by (auto simp: d' written_by_snoc)
    with j(1,2) show ?thesis by (intro exI [of _ j]) (simp add: d')
  qed
qed

lemma act_view:
  assumes act: "act B S bs nb d d'" and inv: "inv_map B S bs nb d" "inv_lists d" "inv_merge B d" "inv_phase B d" "inv_reads d" "inv_view B d"
  shows "inv_view B d'"
proof -
  note dev = device_lower [OF inv(2), of B] device_lower [OF act_lists [OF act inv(1-4)], of B]
  have keep: "inv_view B d'" if "dv_log d' = dv_log d" "lower B d' = lower B d" "dv_content d' = dv_content d"
    "layered (map (dv_content d) (tr_writers (dv_tracker d'))) = layered (map (dv_content d) (tr_writers (dv_tracker d)))"
    "dv_reads d' = dv_reads d" "index_content B d' = index_content B d"
  proof (rule inv_view_keep [OF inv(6) that(1)])
    show "device_content B d' = device_content B d" unfolding dev that(2,3,4) ..
    show "dv_reads d i = Some rd \<and> view B d' (rd_stack rd) = view B d (rd_stack rd)" if "dv_reads d' i = Some rd" for i rd
      using that \<open>dv_reads d' = dv_reads d\<close> same_below [OF \<open>index_content B d' = index_content B d\<close> \<open>dv_content d' = dv_content d\<close>] by simp
  qed
  from act show ?thesis
  proof (cases rule: act.cases)
    case (open_file r)
    have "dv_reads d = Map.empty" "tr_writers (dv_tracker d) = []" using inv(4) open_file(2) by (simp_all add: inv_phase_def)
    with inv(6) dev open_file(1) show ?thesis by (simp add: inv_view_def lower_def index_content_def written_by_snoc)
  next
    case read_start
    have "device_content B d' = device_content B d" "view B d' st = view B d st" for st
      using read_start(1) by (simp_all add: device_content_def view_eq index_content_def)
    with inv(6) read_start(1) show ?thesis unfolding inv_view_def by (auto simp: device_content_def)
  next
    case (read_end i)
    then show ?thesis
      by (intro inv_view_keep [OF inv(6)]) (auto simp: device_content_def view_eq index_content_def split: if_splits)
  next
    case (write_active a R bl)
    from act_view_write [OF act write_active(2,1) inv] show ?thesis .
  next
    case (rotate_seal a)
    then have lw: "lower B d' = lower B d ++ dv_content d a" by (simp add: lower_def index_content_def)
    obtain w where w: "tr_writers (dv_tracker d) = [w, a]" using inv(4) rotate_seal(2) by (auto simp: inv_phase_def)
    have aa: "m ++ c ++ c = m ++ c" for m c :: "nat \<rightharpoonup> bytes"
      by (auto simp: fun_eq_iff map_add_def split: option.splits)
    have "device_content B d' = device_content B d" unfolding dev lw using w aa by (simp add: rotate_seal(1))
    with rotate_seal(1) show ?thesis by (intro inv_view_keep [OF inv(6)]) (simp_all add: view_eq index_content_def)
  next
    case (rotate_remove a)
    obtain w where w: "tr_writers (dv_tracker d) = [w, a]" "w \<noteq> a" "dv_content d a \<subseteq>\<^sub>m lower B d"
      using inv(4) rotate_remove(2) by (auto simp: inv_phase_def)
    have st: "readerStack (dv_tracker d) = tr_writers (dv_tracker d) @ pendingReaders (dv_tracker d)" using inv(2) by (simp add: inv_lists_def Let_def)
    then have "lower B d' = lower B d" using rotate_remove(1) by (simp add: lower_def index_content_def)
    then have "device_content B d' = device_content B d"
      unfolding dev using st w(1,2) map_add_known [OF w(3)] by (simp add: rotate_remove(1))
    with rotate_remove(1) st show ?thesis by (intro inv_view_keep [OF inv(6)]) (simp_all add: view_eq index_content_def)
  next
    case (merge_one rs br left t)
    obtain idx where e: "t = (dv_tracker d)\<lparr>primaryIndex := idx\<rparr>" "br \<in> set (pendingReaders (dv_tracker d))"
      "index_content B d' = index_content B d ++ dv_content d br" "lower B d' = lower B d"
      by (rule merge_one_effect [OF merge_one inv(1,3)]) (rule that; assumption)
    have "device_content B d' = device_content B d" unfolding dev e(4) by (simp add: merge_one(1) e(1))
    moreover have "view B d' (rd_stack rd) = view B d (rd_stack rd)" if "dv_reads d i = Some rd" for i rd
    proof -
      have "br \<in> set (rd_stack rd)" using inv(5) that e(2) unfolding inv_reads_def by blast
      from add_covered [OF this, of "index_content B d" "dv_content d"] show ?thesis unfolding view_eq e(3) by (simp add: merge_one(1))
    qed
    ultimately show ?thesis using merge_one(1) by (intro inv_view_keep [OF inv(6)]) simp_all
  next
    case (merge_end rs)
    note e = merge_end_effect [OF merge_end inv(3,2)]
    show ?thesis by (rule keep) (simp_all add: e, simp_all add: merge_end(1))
  next
    case (compact_push df t)
    then obtain idx where idx: "blockmap_PushReader B S (dv_env d) (primaryIndex (dv_tracker d)) df = Some idx"
      "t = (dv_tracker d)\<lparr>primaryIndex := idx\<rparr>" by (auto simp: tracker_steps)
    have df: "df \<notin> indexed d" using compact_push(3) by (simp add: fresh_def known_def)
    from push_index(3) [OF inv(1) df compact_push(5) idx(1)] map_add_known [OF compact_push(4)]
    have e: "index_content B d' = index_content B d" unfolding compact_push(1) idx(2) by (simp add: index_content_def)
    then have "lower B d' = lower B d" by (simp add: lower_def) (simp add: compact_push(1) idx(2))
    with e show ?thesis by (intro keep) (simp_all, simp_all add: compact_push(1) idx(2))
  next
    case (compact_remove r n t)
    obtain idx where idx: "t = (dv_tracker d)\<lparr>primaryIndex := idx\<rparr>" "blockmap_content B (dv_content d) idx = index_content B d"
      by (rule compact_remove_effect [OF inv(1,3,4) compact_remove(2,4)]) (rule that; assumption)
    then have e: "index_content B d' = index_content B d" unfolding compact_remove(1) by (simp add: index_content_def)
    then have "lower B d' = lower B d" by (simp add: lower_def) (simp add: compact_remove(1) idx(1))
    with e show ?thesis by (intro keep) (simp_all, simp_all add: compact_remove(1) idx(1))
  qed (intro keep; simp add: lower_def index_content_def tracker_steps; elim conjE; simp add: lower_def index_content_def)+
qed

end

subsection \<open>Every reachable state\<close>

definition dev_inv :: "'b bitmap256_ops \<Rightarrow> 's bitset_ops \<Rightarrow> nat \<Rightarrow> nat \<Rightarrow> ('b, 's, 'r) device \<Rightarrow> bool" where
  "dev_inv B S bs nb d \<longleftrightarrow>
     inv_map B S bs nb d \<and> inv_lists d \<and> inv_merge B d \<and> inv_phase B d \<and> inv_reads d \<and> inv_view B d \<and> inv_touch d"

context block_index
begin

lemma new_device_inv: "\<forall>r. stack_layer bs (env r) (C r) nb \<Longrightarrow> dev_inv B S bs nb (new_device S bs nb env C)"
  by (simp add: dev_inv_def new_device_def tracker_NewReader_def inv_map_def inv_lists_def inv_merge_def inv_phase_def inv_reads_def
      inv_view_def inv_touch_def new_blockmap compacting_def known_def indexed_def device_content_def view_eq index_content_def
      blockmap_content_def [abs_def] written_by_def newest_def Let_def)

lemma act_inv:
  assumes act: "act B S bs nb d d'" and "dev_inv B S bs nb d"
  shows "dev_inv B S bs nb d'"
proof -
  have inv: "inv_map B S bs nb d" "inv_lists d" "inv_merge B d" "inv_phase B d" "inv_reads d" "inv_view B d" "inv_touch d"
    using assms(2) by (simp_all add: dev_inv_def)
  show ?thesis
    unfolding dev_inv_def
    using act_map [OF act inv(1-4)] act_lists [OF act inv(1-4)] act_merge [OF act inv(1-4)] act_phase [OF act inv(1-4)]
      act_reads [OF act inv(1-5,7)] act_view [OF act inv(1-6)] act_touch [OF act inv(1-5,7)] by (intro conjI)
qed

lemma owners_known: "inv_map B S bs nb d \<Longrightarrow> owners B d \<subseteq> known d"
  using owner_listed [of B S "primaryIndex (dv_tracker d)"] by (auto simp: owners_def known_def indexed_def inv_map_def Let_def)

lemma observe_inv:
  assumes "dev_inv B S bs nb d"
  shows "dev_inv B S bs nb (observe B d)" "\<And>i rd. dv_reads (observe B d) i = Some rd \<Longrightarrow> owners B d \<subseteq> rd_touched rd"
proof -
  have inv: "inv_map B S bs nb d" "inv_lists d" "inv_merge B d" "inv_phase B d" "inv_reads d" "inv_view B d" "inv_touch d"
    using assms by (simp_all add: dev_inv_def)
  have same: "index_content B (observe B d) = index_content B d" "lower B (observe B d) = lower B d" "indexed (observe B d) = indexed d"
    "known (observe B d) = known d" "outside (observe B d) = outside d" "owners B (observe B d) = owners B d"
    "device_content B (observe B d) = device_content B d" "view B (observe B d) = view B d"
    by (simp_all add: fun_eq_iff observe_def index_content_def lower_def indexed_def known_def outside_def owners_def device_content_def view_eq)
  have rd: "\<exists>r. dv_reads d i = Some r \<and> rd = r\<lparr>rd_touched := rd_touched r \<union> owners B d\<rparr>" if "dv_reads (observe B d) i = Some rd" for i rd
    using that by (auto simp: observe_def)
  have "inv_map B S bs nb (observe B d)" "inv_lists (observe B d)"
    using inv(1,2) unfolding inv_map_def inv_lists_def same by (simp_all add: observe_def)
  moreover have "inv_merge B (observe B d)"
    by (rule inv_merge_keep [OF inv(3), of _ "[]"]) (simp_all add: same)
  moreover have "inv_phase B (observe B d)"
  proof (rule inv_phase_keep [OF inv(4)])
    show "dv_reads (observe B d) = Map.empty" if "dv_phase d = Opening"
      using inv(4) that by (simp add: inv_phase_def observe_def)
  qed (simp_all add: same)
  moreover have "inv_reads (observe B d)"
    using inv(5) rd unfolding inv_reads_def same by (fastforce simp: observe_def)
  moreover have "inv_view B (observe B d)"
    using inv(6) rd unfolding inv_view_def same by (fastforce simp: observe_def)
  moreover have "inv_touch (observe B d)"
    unfolding inv_touch_def
  proof (intro allI impI)
    fix i rd' assume "dv_reads (observe B d) i = Some rd'"
    then obtain r where r: "dv_reads d i = Some r" "rd' = r\<lparr>rd_touched := rd_touched r \<union> owners B d\<rparr>" using rd by blast
    have t: "set (rd_stack r) \<subseteq> rd_touched r" "rd_touched r \<inter> dv_closed d = {}" "\<And>x n. dv_phase d = Removing x n \<Longrightarrow> n \<le> i \<Longrightarrow> x \<notin> rd_touched r"
      using inv(7) r(1) unfolding inv_touch_def by blast+
    have "owners B d \<inter> dv_closed d = {}" using owners_known [OF inv(1)] inv(2) by (auto simp: inv_lists_def Let_def)
    moreover have "x \<notin> owners B d" if "dv_phase d = Removing x n" for x n using inv(4) that by (simp add: inv_phase_def)
    ultimately show "set (rd_stack rd') \<subseteq> rd_touched rd' \<and> rd_touched rd' \<inter> dv_closed (observe B d) = {} \<and>
        (\<forall>x n. dv_phase (observe B d) = Removing x n \<longrightarrow> n \<le> i \<longrightarrow> x \<notin> rd_touched rd')"
      using t r(2) by (auto simp: observe_def)
  qed
  ultimately show "dev_inv B S bs nb (observe B d)" by (simp add: dev_inv_def)
  show "\<And>i rd. dv_reads (observe B d) i = Some rd \<Longrightarrow> owners B d \<subseteq> rd_touched rd" using rd by fastforce
qed

lemma reachable_inv: "reachable B S bs nb d \<Longrightarrow> dev_inv B S bs nb d \<and> (\<forall>i rd. dv_reads d i = Some rd \<longrightarrow> owners B d \<subseteq> rd_touched rd)"
proof (induction rule: reachable.induct)
  case (opened env C)
  then show ?case using new_device_inv by (simp add: new_device_def)
next
  case (acted d d')
  from acted.IH act_inv [OF acted.hyps(2)] have i: "dev_inv B S bs nb d'" by blast
  moreover have "owners B (observe B d') = owners B d'" by (simp add: owners_def observe_def)
  ultimately show ?case using observe_inv [OF i] by metis
qed

text \<open>A read of any stack returns what \<^const>\<open>view\<close> says.\<close>

lemma stack_read:
  assumes inv: "inv_map B S bs nb d" and p: "length p = n * bs"
  shows "tracker_ReadBlocks B S (dv_env d) (dv_tracker d) st p (int k) =
    (let m = in_device nb k n in Some (blocks_or_zero bs (view B d st) k m @ drop (m * bs) p, int m, if m < n then Some EOF else None))"
proof -
  let ?r = "primaryIndex (dv_tracker d)" and ?C = "dv_content d"
  have i: "blockmap_inv B S ?r" "bmr_blockSize ?r = int bs" "\<And>k br. owner B ?r k = Some br \<Longrightarrow> ?C br k \<noteq> None"
    "\<And>r. stack_layer bs (dv_env d r) (?C r) nb" "tr_blockSize (dv_tracker d) = int bs" "tr_numBlocks (dv_tracker d) = int nb"
    using inv newest_Some [of ?C] by (auto simp: inv_map_def Let_def)
  have hr: "block_hole_reader bs (dv_env d r) (?C r)" and dev: "nb * bs \<le> max_off" "\<And>k. ?C r k \<noteq> None \<Longrightarrow> k < nb" for r
    using i(4) [of r] by (simp_all add: stack_layer_def stack_layer_axioms_def)
  have pos: "0 < bs" using hr block_hole_reader.bs_pos by blast
  have bm: "block_map B S (dv_env d) ?C bs ?r"
    by (intro block_map.intro block_map_axioms.intro block_index_axioms i(1,2) pos hr i(3))
  have "k < nb" if k: "index_content B d k \<noteq> None" for k
  proof -
    from k obtain br where "?C br k \<noteq> None" by (auto simp: index_content_def blockmap_content_def bind_eq_Some_conv)
    then show ?thesis by (rule dev(2))
  qed
  then have "stack_layer bs (blockmap_reader B S (dv_env d) ?r) (index_content B d) nb"
    using block_map.as_reader [OF bm] dev(1) unfolding index_content_def stack_layer_def stack_layer_axioms_def by blast
  then have "list_all2 (\<lambda>tr c. stack_layer bs tr c nb) (map (dv_env d) st @ [blockmap_reader B S (dv_env d) ?r]) (map ?C st @ [index_content B d])"
    using i(4) by (intro list_all2_appendI) (simp_all add: list_all2_map1 list_all2_map2 list_all2_refl)
  from readBlocksFrom_ok [OF this pos p, of 0 k] pos p go_mod_mult [of bs n] show ?thesis
    by (simp add: tracker_ReadBlocks_def StackedBlockReader_ReadBlocks_def NewStackedBlockReader_def Let_def i(5,6) view_def)
qed

end

section \<open>Properties\<close>



text \<open>C12. No file is deleted under a read. The files a read in progress may have open are those of its stack and every one the block map has
  pointed to since it started; none of them is among the files that compaction closed and deleted.\<close>

theorem tracker_no_use_after_close:
  assumes "bitmap256 B" "bitset S" "reachable B S bs nb d" "dv_reads d i = Some rd"
  shows "set (rd_stack rd) \<union> owners B d \<subseteq> rd_touched rd \<and> rd_touched rd \<inter> dv_closed d = {}"
proof -
  from block_index.reachable_inv [OF block_index_intro [OF assms(1,2)] assms(3)]
  have "inv_touch d" "owners B d \<subseteq> rd_touched rd" using assms(4) by (auto simp: dev_inv_def)
  with assms(4) show ?thesis unfolding inv_touch_def by blast
qed

text \<open>A device of four blocks of two bytes with one log: a read starts, then a block is written.\<close>

lemma empty_log: "to_blocks 2 (mem_content ([] :: bytes)) = Map.empty"
  by (simp add: fun_eq_iff to_blocks_def mem_content_def)

lemma sample_layers: "stack_layer 2 (mem_blocks []) Map.empty 4" "stack_layer 2 (mem_blocks [1, 1]) (to_blocks 2 (mem_content [1, 1])) 4"
  using mem_layer [of 2 "[]" 0 4] mem_layer [of 2 "[1, 1]" 1 4] by (simp_all add: empty_log)

lemma sample_device:
  "\<exists>d rd. reachable list_bitmap list_bitset 2 4 (d :: (nat list, nat \<times> nat list, nat) device) \<and> dv_reads d 0 = Some rd \<and> rd_start rd = 0 \<and>
     rd_stack rd = [0] \<and> dv_log d = [to_blocks 2 (mem_content [1, 1])] \<and> readerStack (dv_tracker d) = [0]"
proof -
  let ?new = "new_device list_bitset 2 4 (\<lambda>_. mem_blocks []) (\<lambda>_. Map.empty) :: (nat list, nat \<times> nat list, nat) device"
  have a: "reachable list_bitmap list_bitset 2 4 ?new" by (rule reachable.opened) (simp add: sample_layers(1))
  define d1 where "d1 = (on_tracker (\<lambda>m. PushWriter m 0) ?new)\<lparr>dv_phase := Idle, dv_active := Some 0\<rparr>"
  have b: "reachable list_bitmap list_bitset 2 4 (observe list_bitmap d1)"
    unfolding d1_def
    by (rule reachable.acted [OF a act.open_writer]) (simp_all add: new_device_def tracker_NewReader_def fresh_def known_def indexed_def)
  have f: "dv_phase d1 = Idle" "dv_active d1 = Some 0" "dv_next d1 = 0" "readerStack (dv_tracker d1) = [0]" "dv_log d1 = []" "dv_content d1 = (\<lambda>_. Map.empty)"
    by (simp_all add: d1_def new_device_def tracker_NewReader_def)
  define d2 where "d2 = (observe list_bitmap d1)\<lparr>dv_reads := (dv_reads (observe list_bitmap d1))(dv_next (observe list_bitmap d1) \<mapsto>
      \<lparr>rd_stack = readerStack (dv_tracker (observe list_bitmap d1)), rd_start = length (dv_log (observe list_bitmap d1)),
       rd_touched = set (readerStack (dv_tracker (observe list_bitmap d1)))\<rparr>), dv_next := Suc (dv_next (observe list_bitmap d1))\<rparr>"
  have c: "reachable list_bitmap list_bitset 2 4 (observe list_bitmap d2)"
    unfolding d2_def by (rule reachable.acted [OF b act.read_start]) (simp add: f)
  have g: "dv_active (observe list_bitmap d2) = Some 0" "readerStack (dv_tracker d2) = [0]" "dv_log d2 = []" "dv_content d2 = (\<lambda>_. Map.empty)"
    by (simp_all add: d2_def f)
  obtain rd where rd: "dv_reads (observe list_bitmap d2) 0 = Some rd" "rd_stack rd = [0]" "rd_start rd = 0"
    using observe_read [of d2 0] by (fastforce simp: d2_def f)
  let ?bl = "to_blocks 2 (mem_content [1, 1])"
  have "stack_layer 2 (mem_blocks [1, 1]) (dv_content (observe list_bitmap d2) 0 ++ ?bl) 4" by (simp add: g sample_layers(2))
  note r = reachable.acted [OF c act.write_active [OF g(1) this]]
  define d3 where "d3 = (observe list_bitmap d2)\<lparr>dv_env := (dv_env (observe list_bitmap d2))(0 := mem_blocks [1, 1]),
      dv_content := (dv_content (observe list_bitmap d2))(0 := dv_content (observe list_bitmap d2) 0 ++ ?bl),
      dv_log := dv_log (observe list_bitmap d2) @ [?bl]\<rparr>"
  have "dv_reads d3 0 = Some rd" "dv_log d3 = [?bl]" "readerStack (dv_tracker d3) = [0]" using g rd by (simp_all add: d3_def)
  with observe_read [of d3 0] rd r [folded d3_def] show ?thesis by (fastforce intro: exI [of _ "observe list_bitmap d3"])
qed



theorem tracker_no_use_after_close_witness:
  "\<exists>(d :: (nat list, nat \<times> nat list, nat) device) rd. reachable list_bitmap list_bitset 2 4 d \<and> dv_reads d 0 = Some rd \<and> 0 \<in> rd_touched rd \<and>
     0 \<notin> dv_closed d"
proof -
  obtain d :: "(nat list, nat \<times> nat list, nat) device" and rd where d: "reachable list_bitmap list_bitset 2 4 d" "dv_reads d 0 = Some rd" "rd_stack rd = [0]"
    using sample_device by blast
  from tracker_no_use_after_close [OF list_bitmap.bitmap256_axioms list_bitset.bitset_axioms d(1,2)] d show ?thesis by auto
qed

end
