(* ===== verification/Write_Log.thy ===== *)
theory Write_Log
  imports Wal_Properties Tracker_Reader
begin

text \<open>
  \<open>internal/block/write_log.go\<close>: a log of block writes, over a \<open>ReadableLog\<close> while it is written and over a \<open>wal.Reader\<close> when
  it was found at the start. The file is that of \<open>Wal_Writer\<close>: \<open>at\<close> is its \<open>ReadAt\<close> in a state, \<open>ra\<close> that of a
  file opened for reading. What \<open>Close\<close> and \<open>Flush\<close> of the file return are arguments.
\<close>

section \<open>Operations\<close>

text \<open>\<open>wlg_log\<close> is the field \<open>log\<close>, nil for a log opened for reading; \<open>w\<close> is nil together with it. The embedded \<open>BlockHoleReader\<close> is an adaptor over
  \<open>log\<close> or, when that is nil, over the reader \<open>wlg_reader\<close>.\<close>

record ('w, 't) WriteLog =
  wlg_name :: string
  wlg_fileSize :: int
  wlg_blockSize :: int
  wlg_log :: "('w, 't) wal_Writer option"
  wlg_reader :: "'t wal_Reader option"

definition NewWriteLogFromWriter :: "('w, 't) wal_lib \<Rightarrow> 'w \<Rightarrow> int \<Rightarrow> string \<Rightarrow> ('w, 't) WriteLog" where
  "NewWriteLogFromWriter L lf blockSize name =
     \<lparr>wlg_name = name, wlg_fileSize = 0, wlg_blockSize = blockSize, wlg_log = Some (NewReadableLog L lf), wlg_reader = None\<rparr>"

definition NewWriteLogFromReader :: "('w, 't) wal_lib \<Rightarrow> ReaderAt \<Rightarrow> int \<Rightarrow> int \<Rightarrow> string \<Rightarrow>
    (('w, 't) WriteLog option \<times> go_error option) option" where
  "NewWriteLogFromReader L ra sz blockSize name = do {
     (reader, err) \<leftarrow> wal_NewReader L ra sz;
     if err \<noteq> Some ErrUnexpectedEOF \<and> err \<noteq> Some ErrCorruptedLog \<and> err \<noteq> None then Some (None, err)
     else Some (Some \<lparr>wlg_name = name, wlg_fileSize = sz, wlg_blockSize = blockSize, wlg_log = None, wlg_reader = Some reader\<rparr>, None)
   }"

definition WriteLog_blocks :: "('w, 't) wal_lib \<Rightarrow> ('w \<Rightarrow> ReaderAt) \<Rightarrow> ReaderAt \<Rightarrow> ('w, 't) WriteLog \<Rightarrow> BlockHoleReader option" where
  "WriteLog_blocks L at ra l =
     (case wlg_log l of
        Some w \<Rightarrow> Some (NewBlockReader (ReadableLog_reader L at w) (wlg_blockSize l))
      | None \<Rightarrow> map_option (\<lambda>r. NewBlockReader (wal_Reader_reader L ra r) (wlg_blockSize l)) (wlg_reader l))"

definition WriteLog_WriteBlocks :: "('w, 't) wal_lib \<Rightarrow> ('w, 't) WriteLog \<Rightarrow> bytes \<Rightarrow> int \<Rightarrow> (('w, 't) WriteLog \<times> int \<times> go_error option) option" where
  "WriteLog_WriteBlocks L l buf off =
     (case wlg_log l of
        None \<Rightarrow> Some (l, 0, Some ErrWriteNotSupported)
      | Some w \<Rightarrow> do {
          (w, n, err) \<leftarrow> BlockReadWriter_WriteBlocks (wal_WriteAt L) (wlg_blockSize l) w buf off;
          Some (l\<lparr>wlg_log := Some w\<rparr>, n, err)
        })"

definition WriteLog_Name :: "('w, 't) WriteLog \<Rightarrow> string" where
  "WriteLog_Name l = wlg_name l"

definition WriteLog_Written :: "('w, 't) WriteLog \<Rightarrow> int" where
  "WriteLog_Written l = (case wlg_log l of None \<Rightarrow> wlg_fileSize l | Some w \<Rightarrow> Written w)"

definition WriteLog_Close :: "('w, 't) wal_lib \<Rightarrow> go_error option \<Rightarrow> ('w, 't) WriteLog \<Rightarrow> (('w, 't) WriteLog \<times> go_error option) option" where
  "WriteLog_Close L close l =
     (case wlg_log l of
        None \<Rightarrow> Some (l, close)
      | Some w \<Rightarrow> do { (w, _) \<leftarrow> CloseWriter L w; Some (l\<lparr>wlg_log := Some w\<rparr>, close) })"

text \<open>\<open>flush\<close> is what the file's \<open>Flush\<close> returns, \<^const>\<open>None\<close> when it has none.\<close>

definition WriteLog_Flush :: "go_error option option \<Rightarrow> ('w, 't) WriteLog \<Rightarrow> go_error option" where
  "WriteLog_Flush flush l = (case flush of Some err \<Rightarrow> err | None \<Rightarrow> None)"

definition WriteLog_CloseWriter :: "('w, 't) wal_lib \<Rightarrow> go_error option option \<Rightarrow> ('w, 't) WriteLog \<Rightarrow> (('w, 't) WriteLog \<times> go_error option) option" where
  "WriteLog_CloseWriter L flush l =
     (case wlg_log l of
        None \<Rightarrow> Some (l, Some ErrWriteNotSupported)
      | Some w \<Rightarrow> do {
          (w, err) \<leftarrow> CloseWriter L w;
          let l = l\<lparr>wlg_log := Some w\<rparr>;
          if err \<noteq> None then Some (l, err) else Some (l, WriteLog_Flush flush l)
        })"

section \<open>Block writes\<close>

text \<open>A write of whole blocks: the index of the first block, and the data.\<close>

type_synonym block_write = "nat \<times> bytes"

definition block_op :: "nat \<Rightarrow> block_write \<Rightarrow> wal_op" where
  "block_op bs = (\<lambda>(k, buf). WriteOp (k * bs) buf)"

definition blocks_of :: "nat \<Rightarrow> block_write \<Rightarrow> nat \<rightharpoonup> bytes" where
  "blocks_of bs = (\<lambda>(k, buf) i. if k \<le> i \<and> Suc i * bs \<le> k * bs + length buf then Some (take bs (drop ((i - k) * bs) buf)) else None)"

definition write_fits :: "nat \<Rightarrow> nat \<Rightarrow> block_write \<Rightarrow> bool" where
  "write_fits bs nb = (\<lambda>(k, buf). buf \<noteq> [] \<and> length buf mod bs = 0 \<and> length buf \<le> MaxWriteSize \<and> k * bs + length buf \<le> nb * bs)"

fun log_writes :: "('w, 't) wal_lib \<Rightarrow> ('w, 't) WriteLog \<Rightarrow> block_write list \<Rightarrow> (('w, 't) WriteLog \<times> go_error option) option" where
  "log_writes L l [] = Some (l, None)"
| "log_writes L l ((k, buf) # ws) = do {
     (l, n, err) \<leftarrow> WriteLog_WriteBlocks L l buf (int k);
     if err \<noteq> None then Some (l, err) else log_writes L l ws
   }"

abbreviation block_content :: "nat \<Rightarrow> block_write list \<Rightarrow> nat \<rightharpoonup> bytes" where
  "block_content bs ws \<equiv> foldl (++) Map.empty (map (blocks_of bs) ws)"

lemma write_fitsE:
  assumes "write_fits bs nb (k, buf)" "0 < bs"
  obtains n where "length buf = n * bs" "0 < n" "n * bs \<le> MaxWriteSize" "k + n \<le> nb"
proof -
  have "length buf = (length buf div bs) * bs" using assms(1) by (auto simp: write_fits_def)
  then obtain n where n: "length buf = n * bs" by blast
  moreover have "(k + n) * bs \<le> nb * bs" using assms(1) n by (simp add: write_fits_def add_mult_distrib)
  moreover have "0 < n" using assms(1) n by (cases n) (auto simp: write_fits_def)
  ultimately show thesis using that [of n] assms by (auto simp: write_fits_def)
qed

lemma op_fits_block: "write_fits bs nb w \<Longrightarrow> nb * bs \<le> max_off \<Longrightarrow> op_fits (block_op bs w)"
  by (auto simp: write_fits_def block_op_def split: prod.splits)

text \<open>Overlaying whole blocks, by bytes and by blocks.\<close>

lemma overlay_block:
  assumes "length buf = n * bs" "0 < bs" "j < bs"
  shows "overlay c (k * bs) buf (i * bs + j) = (if k \<le> i \<and> i < k + n then Some (buf ! ((i - k) * bs + j)) else c (i * bs + j))"
proof -
  have "k * bs \<le> i * bs + j \<longleftrightarrow> k \<le> i"
  proof
    assume "k * bs \<le> i * bs + j"
    then have "k * bs < Suc i * bs" using assms(3) by simp
    then show "k \<le> i" by (simp only: mult_less_cancel2 less_Suc_eq_le)
  qed (simp add: trans_le_add1)
  moreover have "i * bs + j < k * bs + n * bs \<longleftrightarrow> i < k + n"
  proof
    assume "i * bs + j < k * bs + n * bs"
    then have "i * bs < (k + n) * bs" by (simp add: add_mult_distrib)
    then show "i < k + n" using assms(2) by simp
  next
    assume "i < k + n"
    then have "Suc i * bs \<le> (k + n) * bs" by (intro mult_le_mono1) simp
    then show "i * bs + j < k * bs + n * bs" using assms(3) by (simp add: add_mult_distrib)
  qed
  moreover have "i * bs + j - k * bs = (i - k) * bs + j" if "k \<le> i" using that by (simp add: diff_mult_distrib)
  ultimately show ?thesis using assms(1) by (auto simp: overlay_def)
qed

lemma overlay_aligned:
  assumes "length buf = n * bs" "0 < bs" "block_aligned bs c"
  shows "block_aligned bs (overlay c (k * bs) buf)"
  unfolding block_aligned_def
proof
  fix x
  have x: "x = x div bs * bs + x mod bs" "x mod bs < bs" using assms(2) by simp_all
  have "overlay c (k * bs) buf x = None \<longleftrightarrow> \<not> (k \<le> x div bs \<and> x div bs < k + n) \<and> c x = None"
    using overlay_block [OF assms(1,2) x(2), of c k "x div bs"] x(1) by auto
  moreover have "overlay c (k * bs) buf (x div bs * bs) = None \<longleftrightarrow> \<not> (k \<le> x div bs \<and> x div bs < k + n) \<and> c (x div bs * bs) = None"
    using overlay_block [OF assms(1,2) assms(2), of c k "x div bs"] by auto
  moreover have "c x = None \<longleftrightarrow> c (x div bs * bs) = None" using assms(3) unfolding block_aligned_def by blast
  ultimately show "overlay c (k * bs) buf x = None \<longleftrightarrow> overlay c (k * bs) buf (x div bs * bs) = None" by blast
qed

lemma overlay_to_blocks:
  assumes "length buf = n * bs" "0 < bs"
  shows "to_blocks bs (overlay c (k * bs) buf) = to_blocks bs c ++ blocks_of bs (k, buf)"
proof
  fix i
  note o0 = overlay_block [OF assms assms(2), of c k i]
  have b: "blocks_of bs (k, buf) i = (if k \<le> i \<and> i < k + n then Some (take bs (drop ((i - k) * bs) buf)) else None)"
  proof -
    have "Suc i * bs \<le> k * bs + n * bs \<longleftrightarrow> Suc i * bs \<le> (k + n) * bs" by (simp add: add_mult_distrib)
    also have "\<dots> \<longleftrightarrow> i < k + n" using assms(2) by (simp add: mult_le_cancel2 Suc_le_eq del: mult_Suc)
    finally show ?thesis using assms(1) by (auto simp: blocks_of_def)
  qed
  show "to_blocks bs (overlay c (k * bs) buf) i = (to_blocks bs c ++ blocks_of bs (k, buf)) i"
  proof (cases "k \<le> i \<and> i < k + n")
    case True
    then have in_buf: "(i - k) * bs + bs \<le> length buf"
    proof -
      have "Suc (i - k) * bs \<le> n * bs" using True by (intro mult_le_mono1) linarith
      then show ?thesis using assms(1) by simp
    qed
    have "read_data (overlay c (k * bs) buf) (i * bs) bs = take bs (drop ((i - k) * bs) buf)"
      using True in_buf overlay_block [OF assms, of _ c k i]
      by (intro nth_equalityI) (simp_all add: read_data_def)
    with True b o0 show ?thesis by (simp add: to_blocks_def map_add_def)
  next
    case False
    have "read_data (overlay c (k * bs) buf) (i * bs) bs = read_data c (i * bs) bs"
      using False overlay_block [OF assms, of _ c k i] by (intro nth_equalityI) (auto simp: read_data_def)
    with False b o0 show ?thesis by (auto simp: to_blocks_def map_add_def)
  qed
qed

lemma log_content_blocks:
  assumes "\<forall>w\<in>set ws. write_fits bs nb w" "0 < bs"
  shows "block_aligned bs (log_content (map (block_op bs) ws)) \<and> to_blocks bs (log_content (map (block_op bs) ws)) = block_content bs ws"
  using assms(1)
proof (induction ws rule: rev_induct)
  case Nil
  then show ?case by (simp add: block_aligned_def log_content_def to_blocks_def fun_eq_iff)
next
  case (snoc w ws)
  obtain k buf where w: "w = (k, buf)" by fastforce
  have "write_fits bs nb (k, buf)" using snoc.prems w by simp
  then obtain n where n: "length buf = n * bs" using assms(2) by (rule write_fitsE)
  have ops: "log_content (map (block_op bs) (ws @ [w])) = overlay (log_content (map (block_op bs) ws)) (k * bs) buf"
    by (simp add: log_content_snoc block_op_def w)
  show ?case using snoc overlay_aligned [OF n assms(2)] overlay_to_blocks [OF n assms(2)] unfolding ops by (simp add: w)
qed

lemma block_content_in_device:
  assumes "\<forall>w\<in>set ws. write_fits bs nb w" "0 < bs" "block_content bs ws i \<noteq> None"
  shows "i < nb"
  using assms(1,3)
proof (induction ws rule: rev_induct)
  case (snoc w ws)
  obtain k buf where w: "w = (k, buf)" by fastforce
  have "i < nb" if "blocks_of bs w i \<noteq> None"
  proof -
    have "Suc i * bs \<le> nb * bs" using that snoc.prems(1) w by (auto simp: blocks_of_def write_fits_def split: if_splits)
    then show ?thesis using assms(2) by (simp add: mult_le_cancel2 Suc_le_eq del: mult_Suc)
  qed
  with snoc show ?case by (cases "blocks_of bs w i") (auto simp: map_add_def)
qed simp

text \<open>A byte reader of a log of block writes is, through the adaptor, a layer of the device.\<close>

lemma log_layer:
  assumes hr: "hole_reader_at R (log_content (map (block_op bs) ws))" and ws: "\<forall>w\<in>set ws. write_fits bs nb w"
    and bs: "0 < bs" "nb * bs \<le> max_off"
  shows "stack_layer bs (NewBlockReader R (int bs)) (block_content bs ws) nb"
proof -
  note c = log_content_blocks [OF ws bs(1)]
  have "aligned_hole_reader R (log_content (map (block_op bs) ws)) bs"
    by (intro aligned_hole_reader.intro hr aligned_hole_reader_axioms.intro bs(1) conjunct1 [OF c])
  from aligned_hole_reader.as_block_reader [OF this] show ?thesis
    using block_content_in_device [OF ws bs(1)] bs(2) unfolding conjunct2 [OF c] stack_layer_def stack_layer_axioms_def by blast
qed

context wal_sink
begin

lemma WriteBlocks_ok:
  assumes w: "wlg_log l = Some w" "wlg_blockSize l = int bs" "wal_inv L written ok w (map (block_op bs) ws)" "\<not> ww_nil w"
    and fits: "write_fits bs nb (k, buf)" "0 < bs" "nb * bs \<le> max_off" and sz: "length (log_image L (map (block_op bs) (ws @ [(k, buf)]))) \<le> max_off"
  shows "\<exists>w' n e. WriteLog_WriteBlocks L l buf (int k) = Some (l\<lparr>wlg_log := Some w'\<rparr>, n, e) \<and> (sink_live L \<longrightarrow> e = None) \<and>
    (e = None \<longrightarrow> n * int bs = int (length buf) \<and> wal_inv L written ok w' (map (block_op bs) (ws @ [(k, buf)])) \<and> \<not> ww_nil w')"
proof -
  obtain n where n: "length buf = n * bs" "k + n \<le> nb" by (rule write_fitsE [OF fits(1,2)])
  have "k * bs \<le> nb * bs" using n(2) by simp
  then have off: "s64 (int k * int bs) = int (k * bs)" using fits(3) by (intro s64_mult) linarith
  have op: "op_fits (WriteOp (k * bs) buf)" using op_fits_block [OF fits(1,3)] by (simp add: block_op_def)
  have "length (log_image L (map (block_op bs) ws @ [WriteOp (k * bs) buf])) \<le> max_off" using sz by (simp add: block_op_def)
  from WriteAt_ok [OF w(3,4) op this] obtain w' m e where
    w': "wal_WriteAt L w buf (int (k * bs)) = Some (w', m, e)"
      "e = None \<longrightarrow> m = int (length buf) \<and> wal_inv L written ok w' (map (block_op bs) ws @ [WriteOp (k * bs) buf]) \<and> \<not> ww_nil w'"
      "sink_live L \<longrightarrow> e = None" by blast
  have "go_mod (int (length buf)) (int bs) = 0" "go_div (int (length buf)) (int bs) = int n"
    unfolding n(1) using fits(2) by (simp_all only: go_mod_mult go_div_mult)
  with w w' off n(1) fits(2) show ?thesis
    by (auto simp: WriteLog_WriteBlocks_def BlockReadWriter_WriteBlocks_def block_op_def)
qed

lemma log_writes_ok:
  assumes "wlg_log l = Some w" "wlg_blockSize l = int bs" "wal_inv L written ok w (map (block_op bs) pre)" "\<not> ww_nil w"
    and "\<forall>w\<in>set ws. write_fits bs nb w" "0 < bs" "nb * bs \<le> max_off" "length (log_image L (map (block_op bs) (pre @ ws))) \<le> max_off"
  shows "\<exists>l' e. log_writes L l ws = Some (l', e) \<and> (sink_live L \<longrightarrow> e = None) \<and>
    (e = None \<longrightarrow> (\<exists>w'. l' = l\<lparr>wlg_log := Some w'\<rparr> \<and> wal_inv L written ok w' (map (block_op bs) (pre @ ws)) \<and> \<not> ww_nil w'))"
  using assms
proof (induction ws arbitrary: l w pre)
  case Nil
  then have "l = l\<lparr>wlg_log := Some w\<rparr>" by (cases l) simp
  with Nil show ?case by fastforce
next
  case (Cons b ws)
  obtain k buf where b: "b = (k, buf)" by fastforce
  have fits: "write_fits bs nb (k, buf)" using Cons.prems(5) b by simp
  have "length (log_image L (map (block_op bs) (pre @ [(k, buf)]))) \<le> max_off" using Cons.prems(8) b by (simp add: log_image_def)
  from WriteBlocks_ok [OF Cons.prems(1-4) fits Cons.prems(6,7) this] obtain w' n e where
    w': "WriteLog_WriteBlocks L l buf (int k) = Some (l\<lparr>wlg_log := Some w'\<rparr>, n, e)" "sink_live L \<longrightarrow> e = None"
      "e = None \<longrightarrow> wal_inv L written ok w' (map (block_op bs) (pre @ [(k, buf)])) \<and> \<not> ww_nil w'" by blast
  show ?case
  proof (cases "e = None")
    case True
    from Cons.IH [of "l\<lparr>wlg_log := Some w'\<rparr>" w' "pre @ [(k, buf)]"] w' True Cons.prems(2,5-8) b obtain l' e' where
      "log_writes L (l\<lparr>wlg_log := Some w'\<rparr>) ws = Some (l', e')" "sink_live L \<longrightarrow> e' = None"
      "e' = None \<longrightarrow> (\<exists>w''. l' = l\<lparr>wlg_log := Some w''\<rparr> \<and> wal_inv L written ok w'' (map (block_op bs) (pre @ b # ws)) \<and> \<not> ww_nil w'')" by auto
    with w'(1) True b show ?thesis by simp
  qed (use w' b in auto)
qed

end

section \<open>Opening a log\<close>

context wal_recovery
begin

text \<open>A file that does not end in the footer magic is scanned.\<close>

lemma NewReader_no_footer:
  assumes "16 \<le> length f" "drop (length f - 8) f \<noteq> FooterMagic"
  shows "wal_NewReader L R (int (length f)) = wal_NewReader L R 0"
proof -
  have s: "s64 (int (length f) - int 16) = int (length f - 16)" using assms(1) file_size by (rule s64_diff)
  have "length f - 16 + length (replicate 16 (0 :: byte)) \<le> length f" using assms(1) by simp
  from read_inside [OF this] obtain e where e: "R (replicate 16 0) (int (length f - 16)) = Some (drop (length f - 16) f, 16, e)"
    using assms(1) by auto
  have "drop 8 (drop (length f - 16) f) = drop (length f - 8) f" using assms(1) by simp
  with assms(2) s e have "\<exists>ix z err. readIndex L R (int (length f)) = Some (ix, z, Some err)"
    by (cases e) (auto simp: readIndex_def Let_def)
  then show ?thesis by (auto simp: wal_NewReader_def Let_def intro!: Option.bind_cong)
qed

end

lemma block_ops: "\<forall>w\<in>set ws. write_fits bs nb w \<Longrightarrow> nb * bs \<le> max_off \<Longrightarrow> (\<forall>op\<in>set (map (block_op bs) ws). op_fits op) \<and> writes_only (map (block_op bs) ws)"
  using op_fits_block by (fastforce simp: writes_only_def block_op_def split: prod.splits)

section \<open>Properties\<close>

text \<open>C5. A write log is a layer of the device that holds the blocks written to it. Any sequence of writes of whole blocks inside the device
  to a new log returns without a panic, with nil when the file does not fail, and then the log reads, blocks and holes, as
  these writes laid over each other. This is what the steps of the reader tracker assume of a log.\<close>

theorem write_log_blocks:
  assumes "wal_sink L written ok" "written lf = []" "\<forall>w\<in>set ws. write_fits bs nb w" "0 < bs" "nb * bs \<le> max_off"
    and "length (log_image L (map (block_op bs) ws)) \<le> max_off" "\<forall>w. exact_reader_at (at w) (written w)"
  shows "\<exists>l e. log_writes L (NewWriteLogFromWriter L lf (int bs) name) ws = Some (l, e) \<and> (sink_live L \<longrightarrow> e = None) \<and>
    (e = None \<longrightarrow> (\<exists>R. WriteLog_blocks L at ra l = Some R \<and> stack_layer bs R (block_content bs ws) nb))"
proof -
  let ?l = "NewWriteLogFromWriter L lf (int bs) name"
  have new: "wlg_log ?l = Some (wal_NewWriter L lf)" "wlg_blockSize ?l = int bs" "wal_inv L written ok (wal_NewWriter L lf) (map (block_op bs) [])"
    "\<not> ww_nil (wal_NewWriter L lf)"
    using wal_sink.new_writer [OF assms(1,2)] by (simp_all add: NewWriteLogFromWriter_def NewReadableLog_def)
  from wal_sink.log_writes_ok [OF assms(1) new assms(3-5)] assms(6) obtain l e where
    l: "log_writes L ?l ws = Some (l, e)" "sink_live L \<longrightarrow> e = None"
      "e = None \<longrightarrow> (\<exists>w'. l = ?l\<lparr>wlg_log := Some w'\<rparr> \<and> wal_inv L written ok w' (map (block_op bs) ws) \<and> \<not> ww_nil w')" by auto
  have "\<exists>R. WriteLog_blocks L at ra l = Some R \<and> stack_layer bs R (block_content bs ws) nb" if e: "e = None"
  proof -
    obtain w' where w': "l = ?l\<lparr>wlg_log := Some w'\<rparr>" "wal_inv L written ok w' (map (block_op bs) ws)" using l(3) e by blast
    have "exact_reader_at (at (ww_w w')) (written (ww_w w'))" using assms(7) by blast
    from wal_sink.log_serves [where at = at, OF assms(1) w'(2) this] have
      "hole_reader_at (ReadableLog_reader L at w') (log_content (map (block_op bs) ws))"
      unfolding wal_sink.ReadableLog_index [OF assms(1)] by (rule log_index.index_serves)
    from log_layer [OF this assms(3-5)] w'(1) show ?thesis by (simp add: WriteLog_blocks_def NewWriteLogFromWriter_def)
  qed
  with l(1,2) show ?thesis by blast
qed

theorem write_log_blocks_witness:
  "\<exists>l R. log_writes mem_wal (NewWriteLogFromWriter mem_wal [] 2 ''wal'') [(1, [7, 8])] = Some (l, None) \<and>
    WriteLog_blocks mem_wal file_ReadAt (file_ReadAt []) l = Some R \<and> stack_layer 2 R (block_content 2 [(1, [7, 8])]) 4"
proof -
  have "\<forall>w\<in>set [(1, [7, 8])]. write_fits 2 4 w" by (simp add: write_fits_def MaxWriteSize_def)
  moreover have "length (log_image mem_wal (map (block_op 2) [(1, [7, 8])])) \<le> max_off"
    using mem_log_size by (simp add: log_image_def block_op_def entry_bytes_def length_entry_rest)
  ultimately show ?thesis
    using write_log_blocks [OF mem_log.wal_sink_axioms id_apply, of "[(1, [7, 8])]" 2 4 file_ReadAt "''wal''" "file_ReadAt []"]
      mem_live os_file.exact_reader_at_axioms by auto
qed

text \<open>C9. A log is opened again after a crash in the middle of a write, with the blocks of the complete writes: nil is returned although \<open>NewReader\<close>
  reports the incomplete entry. One case is left out by the code: when the file ends in bytes 8 to 15 of the entry, the error is end-of-file, which is
  not among those it accepts, and the log, and with it the device, cannot be opened. The file is one that does not happen to end in the
  magic of a footer.\<close>

theorem write_log_reopen:
  assumes rec: "wal_recovery L ok R f" and f: "f = log_image L (map (block_op bs) ws) @ take k (op_bytes (block_op bs w))"
    and fits: "\<forall>w\<in>set ws. write_fits bs nb w" "write_fits bs nb w" "0 < bs" "nb * bs \<le> max_off" "k < length (op_bytes (block_op bs w))"
    and foot: "16 \<le> length f" "drop (length f - 8) f \<noteq> FooterMagic"
  shows "\<exists>l e. NewWriteLogFromReader L R (int (length f)) (int bs) name = Some (l, e) \<and>
    (if 8 \<le> k \<and> k < 16 then l = None \<and> e = Some EOF
     else e = None \<and> (\<exists>l' Rb. l = Some l' \<and> WriteLog_blocks L at R l' = Some Rb \<and> stack_layer bs Rb (block_content bs ws) nb))"
proof -
  obtain b buf where w: "w = (b, buf)" by fastforce
  have op: "op_fits (WriteOp (b * bs) buf)" "op_bytes (block_op bs w) = op_bytes (WriteOp (b * bs) buf)"
    using op_fits_block [OF fits(2,4)] by (simp_all add: block_op_def w)
  note ops = block_ops [OF fits(1,4)]
  let ?e = "if k = 0 then None else Some (if 8 \<le> k \<and> k < 16 then EOF else ErrUnexpectedEOF)"
  have "\<exists>r. wal_NewReader L R 0 = Some (r, ?e) \<and> hole_reader_at (wal_Reader_reader L R r) (log_content (map (block_op bs) ws))"
  proof (cases "k = 0")
    case True
    then have "f = log_image L (map (block_op bs) ws) @ []" using f by simp
    from wal_recovery.recover_tail [OF rec this conjunct1 [OF ops] conjunct2 [OF ops] wal_recovery.scan_end [OF rec]] True show ?thesis by auto
  next
    case False
    note rec' = rec [unfolded f op(2)]
    have k: "0 < k" "k < length (op_bytes (WriteOp (b * bs) buf))" using False fits(5) unfolding op(2) by simp_all
    from wal_recovery.recover_tail [OF rec' refl conjunct1 [OF ops] conjunct2 [OF ops] wal_recovery.scan_torn [OF rec' op(1) k]] False
    show ?thesis by auto
  qed
  then obtain r where r: "wal_NewReader L R (int (length f)) = Some (r, ?e)" "hole_reader_at (wal_Reader_reader L R r) (log_content (map (block_op bs) ws))"
    unfolding wal_recovery.NewReader_no_footer [OF rec foot] by blast
  from log_layer [OF r(2) fits(1,3,4)] r(1) show ?thesis
    by (auto simp: NewWriteLogFromReader_def WriteLog_blocks_def)
qed

lemma no_footer_end: "length t = 3 \<Longrightarrow> drop (length (p @ [7, 8] @ t) - 8) (p @ [7, 8 :: byte] @ t) \<noteq> FooterMagic" if "6 \<le> length p"
proof
  assume "length t = 3" and eq: "drop (length (p @ [7, 8] @ t) - 8) (p @ [7, 8] @ t) = FooterMagic"
  then have e: "drop (length p - 3) p @ 7 # 8 # t = FooterMagic" by simp
  have "(drop (length p - 3) p @ 7 # 8 # t) ! 3 = 7" using that by (simp add: nth_append)
  then show False unfolding e by (simp add: FooterMagic_def)
qed

theorem write_log_reopen_witness:
  "\<exists>l Rb. NewWriteLogFromReader mem_wal (file_ReadAt (log_image mem_wal (map (block_op 2) [(1, [7, 8])]) @ take 3 (op_bytes (block_op 2 (0, [1, 2])))))
      65 2 ''wal'' = Some (Some l, None) \<and>
    WriteLog_blocks mem_wal file_ReadAt (file_ReadAt (log_image mem_wal (map (block_op 2) [(1, [7, 8])]) @ take 3 (op_bytes (block_op 2 (0, [1, 2]))))) l = Some Rb \<and>
    stack_layer 2 Rb (block_content 2 [(1, [7, 8])]) 4"
proof -
  let ?e = "op_bytes (block_op 2 (0, [1, 2]))" and ?img = "log_image mem_wal (map (block_op 2) [(1, [7, 8])])"
  let ?f = "?img @ take 3 ?e"
  have e: "length ?e = 18" by (simp add: block_op_def entry_bytes_def length_entry_rest)
  obtain p where p: "?img = p @ [7, 8]" "length p = 60"
    using mem_small(2) by (simp add: log_image_def block_op_def entry_bytes_def length_entry_rest)
  have len: "length ?f = 65" using p e by simp
  have "wal_recovery mem_wal (list_tree_ok Range_Key) (file_ReadAt ?f) ?f" by (rule mem_recovery) (use len in simp)
  moreover have "\<forall>w\<in>set [(1, [7, 8])]. write_fits 2 4 w" "write_fits 2 4 (0, [1, 2])" by (simp_all add: write_fits_def MaxWriteSize_def)
  moreover have "drop (length ?f - 8) ?f \<noteq> FooterMagic" using no_footer_end [of p "take 3 ?e"] p e by simp
  ultimately show ?thesis
    using write_log_reopen [where name = "''wal''" and at = file_ReadAt and k = 3 and w = "(0, [1, 2])", OF _ refl] e len by fastforce
qed

end
