(* ===== verification/Sparse_Builder.thy ===== *)
theory Sparse_Builder
  imports Go_IO Third_Party
begin

text \<open>
  \<open>internal/sparseblock/builder.go\<close>: the builder of sparse block tables. The protobuf codec \<open>P\<close> and
  \<open>iou.WriteMany\<close> are parameters; \<open>Write\<close> and \<open>rf\<close> are the methods of the destination. A block entry's
  reader is a value of its own, so no two entries share one. The linked list of entries is a list.
\<close>

section \<open>Constants and entries\<close>

definition EntryType_Data :: int where "EntryType_Data = 0"
definition EntryType_Hole :: int where "EntryType_Hole = 1"
definition maxRangeEntries :: int where "maxRangeEntries = 64"
definition maxEntryLength :: int where "maxEntryLength = 2 ^ 7 - 1"
definition rangeEntrySize :: nat where "rangeEntrySize = 16"
definition blockEntrySize :: nat where "blockEntrySize = 3"
definition MaxBlocks :: int where "MaxBlocks = 2 ^ 48"
definition blockMask :: nat where "blockMask = 2 ^ 48 - 1"
definition sparse_Magic :: bytes where
  "sparse_Magic = map (\<lambda>c. of_nat (of_char c)) ''sparseblock'' @ [0x31, 0x41, 0x59, 0x26, 0x53]"
definition writeBufferSize :: nat where "writeBufferSize = 64 * 1024"

record 'r indexEntry =
  ie_offset :: int
  ie_length :: int
  ie_r :: 'r
  ie_eType :: int

record rangeEntry =
  startOffset :: int
  re_dataOffset :: int
  numEntries :: int
  firstEntryIndex :: int

text \<open>\<open>unmarshal\<close> indexes 16 bytes of the buffer and panics on a shorter one.\<close>

definition rangeEntry_unmarshal :: "rangeEntry \<Rightarrow> bytes \<Rightarrow> rangeEntry option" where
  "rangeEntry_unmarshal e buf =
     (if length buf < 16 then None
      else Some (e\<lparr>startOffset := int64 (le_nat (take 8 buf) AND blockMask),
                   re_dataOffset := int64 (le_nat (take 8 (drop 8 buf)) AND blockMask),
                   numEntries := int (unat (buf ! 6))\<rparr>))"

definition rangeEntry_marshalAppend :: "rangeEntry \<Rightarrow> bytes \<Rightarrow> bytes" where
  "rangeEntry_marshalAppend e b =
     b @ (le_bytes 8 (uint64 (startOffset e) AND blockMask) @
          le_bytes 8 (uint64 (re_dataOffset e) AND blockMask)) [6 := of_int (numEntries e)]"

record blockEntry =
  be_offset :: nat
  lengthType :: nat

definition blockEntry_marshalAppend :: "blockEntry \<Rightarrow> bytes \<Rightarrow> bytes" where
  "blockEntry_marshalAppend e b = b @ le_bytes 2 (be_offset e) @ [of_nat (lengthType e)]"

definition blockEntry_unmarshal :: "bytes \<Rightarrow> blockEntry option" where
  "blockEntry_unmarshal buf =
     (if length buf < 3 then None
      else Some \<lparr>be_offset = unat (buf ! 0) OR push_bit 8 (unat (buf ! 1)), lengthType = unat (buf ! 2)\<rparr>)"

definition setLengthType :: "blockEntry \<Rightarrow> int \<Rightarrow> int \<Rightarrow> blockEntry option" where
  "setLengthType e len typ =
     (if len < 0 \<or> len > maxEntryLength then None
      else if typ \<noteq> EntryType_Data \<and> typ \<noteq> EntryType_Hole then None
      else Some (e\<lparr>lengthType := nat (push_bit 1 len mod 256) OR nat (typ mod 256)\<rparr>))"

definition blockEntry_length :: "blockEntry \<Rightarrow> int" where
  "blockEntry_length e = int (drop_bit 1 (lengthType e))"

section \<open>The builder\<close>

record ('w, 'r) Builder =
  b_w :: "'w bufio_Writer"
  b_blockSize :: int
  entries :: "'r indexEntry list"
  b_dataOffset :: int
  ranges :: "rangeEntry list"
  blockEntryBuf :: bytes
  totalBlocks :: int
  totalDataBlocks :: int
  prevEnd :: int

definition NewBuilder :: "'w \<Rightarrow> int \<Rightarrow> ('w, 'r) Builder" where
  "NewBuilder w blockSize =
     \<lparr>b_w = bufio_NewWriterSize w writeBufferSize, b_blockSize = blockSize, entries = [], b_dataOffset = 0,
      ranges = [], blockEntryBuf = [], totalBlocks = 0, totalDataBlocks = 0, prevEnd = 0\<rparr>"

text \<open>The loop of \<open>AddBlocks\<close>; \<open>currRange\<close> points to the last of \<open>ranges\<close>.\<close>

definition eLen_of :: "int \<Rightarrow> int \<Rightarrow> int" where
  "eLen_of len eOffset = (if len - eOffset > maxEntryLength then maxEntryLength else len - eOffset)"

function AddBlocks_loop :: "int \<Rightarrow> int \<Rightarrow> int \<Rightarrow> ('w, 'r) Builder \<Rightarrow> ('w, 'r) Builder option" where
  "AddBlocks_loop offset len eOffset b =
     (if eOffset < len
      then do {
        let blockOffset = s64 (offset + eOffset);
        let currRange = last (ranges b);
        let b = (if numEntries currRange \<ge> maxRangeEntries \<or> s64 (blockOffset - startOffset currRange) > 2 ^ 16 - 1
          then b\<lparr>ranges := ranges b @ [\<lparr>startOffset = blockOffset, re_dataOffset = b_dataOffset b,
                    numEntries = 0, firstEntryIndex = 0\<rparr>]\<rparr>
          else b);
        let currRange = last (ranges b);
        let eLen = eLen_of len eOffset;
        be \<leftarrow> setLengthType \<lparr>be_offset = nat (s64 (blockOffset - startOffset currRange) mod 2 ^ 16), lengthType = 0\<rparr>
                eLen EntryType_Data;
        AddBlocks_loop offset len (eOffset + eLen)
          (b\<lparr>blockEntryBuf := blockEntry_marshalAppend be (blockEntryBuf b),
             ranges := butlast (ranges b) @ [currRange\<lparr>numEntries := numEntries currRange + 1\<rparr>],
             b_dataOffset := b_dataOffset b + eLen\<rparr>)
      }
      else Some b)"
  by pat_completeness auto
termination by (relation "measure (\<lambda>(offset, len, eOffset, b). nat (len - eOffset))")
    (auto simp: eLen_of_def maxEntryLength_def)

declare AddBlocks_loop.simps [simp del]

definition AddBlocks :: "('w, 'r) Builder \<Rightarrow> int \<Rightarrow> int \<Rightarrow> 'r \<Rightarrow> ('w, 'r) Builder option" where
  "AddBlocks b offset len r =
     (if offset < 0 \<or> len < 0 then None
      else if len > MaxBlocks then None
      else if b_dataOffset b + len > MaxBlocks then None
      else if offset < prevEnd b then None
      else if len = 0 then Some b
      else do {
        let b = b\<lparr>entries := entries b @ [\<lparr>ie_offset = offset, ie_length = len, ie_r = r, ie_eType = EntryType_Data\<rparr>]\<rparr>;
        let b = (if ranges b = [] then b\<lparr>ranges := [\<lparr>startOffset = offset, re_dataOffset = 0,
                   numEntries = 0, firstEntryIndex = 0\<rparr>]\<rparr> else b);
        b \<leftarrow> AddBlocks_loop offset len 0 b;
        Some (b\<lparr>prevEnd := s64 (offset + len), totalBlocks := totalBlocks b + len,
                totalDataBlocks := totalDataBlocks b + len\<rparr>)
      })"

section \<open>Writing the table\<close>

record sparse_Header =
  Version :: nat
  BlockSize :: nat
  NumRangeEntries :: nat
  RangeEntrySize :: nat
  NumBlockEntries :: nat
  BlockEntrySize :: nat
  TotalBlocks :: nat
  TotalDataBlocks :: nat
  EndBlock :: nat

fun write_ranges :: "'w Write \<Rightarrow> 'w bufio_Writer \<Rightarrow> rangeEntry list \<Rightarrow> ('w bufio_Writer \<times> go_error option) option" where
  "write_ranges Write w [] = Some (w, None)"
| "write_ranges Write w (h # hs) = do {
     (w, _, err) \<leftarrow> bw_Write Write w (rangeEntry_marshalAppend h []);
     if err \<noteq> None then Some (w, err) else write_ranges Write w hs
   }"

definition writeIndex :: "'w Write \<Rightarrow> ('w, 'r) Builder \<Rightarrow> (('w, 'r) Builder \<times> go_error option) option" where
  "writeIndex Write b = do {
     (w, err) \<leftarrow> write_ranges Write (b_w b) (ranges b);
     if err \<noteq> None then Some (b\<lparr>b_w := w\<rparr>, err)
     else do {
       (w, _, err) \<leftarrow> bw_Write Write w (blockEntryBuf b);
       Some (b\<lparr>b_w := w\<rparr>, err)
     }
   }"

fun write_data :: "'w Write \<Rightarrow> ('w, 'r LimitedReader) ReadFrom option \<Rightarrow> 'r Read \<Rightarrow> int \<Rightarrow>
    'w bufio_Writer \<Rightarrow> 'r indexEntry list \<Rightarrow> int \<Rightarrow> ('w bufio_Writer \<times> int \<times> go_error option) option" where
  "write_data Write rf Read bs w [] writtenBlocks = Some (w, writtenBlocks, None)"
| "write_data Write rf Read bs w (e # es) writtenBlocks =
     (if ie_eType e \<noteq> EntryType_Data then write_data Write rf Read bs w es writtenBlocks
      else do {
        let byteLength = s64 (ie_length e * bs);
        (w, _, n, err) \<leftarrow> bw_ReadFrom Write rf (LimitedReader_Read Read) w \<lparr>lr_R = ie_r e, lr_N = byteLength\<rparr>;
        if err \<noteq> None then Some (w, writtenBlocks, err)
        else if int n \<noteq> byteLength then Some (w, writtenBlocks, Some ErrShortRead)
        else write_data Write rf Read bs w es (writtenBlocks + ie_length e)
      })"

definition Builder_header :: "('w, 'r) Builder \<Rightarrow> sparse_Header" where
  "Builder_header b =
     \<lparr>Version = 1, BlockSize = uint32 (b_blockSize b), NumRangeEntries = uint32 (int (length (ranges b))),
      RangeEntrySize = rangeEntrySize,
      NumBlockEntries = uint32 (int (length (blockEntryBuf b) div blockEntrySize)),
      BlockEntrySize = blockEntrySize, TotalBlocks = uint64 (totalBlocks b),
      TotalDataBlocks = uint64 (totalDataBlocks b), EndBlock = uint64 (prevEnd b)\<rparr>"

definition Build :: "sparse_Header proto_ops \<Rightarrow>
    ('w bufio_Writer \<Rightarrow> bytes list \<Rightarrow> ('w bufio_Writer \<times> nat \<times> go_error option) option) \<Rightarrow>
    'w Write \<Rightarrow> ('w, 'r LimitedReader) ReadFrom option \<Rightarrow> 'r Read \<Rightarrow> ('w, 'r) Builder \<Rightarrow>
    ('w bufio_Writer \<times> go_error option) option" where
  "Build P WriteMany Write rf Read b =
     (case proto_Marshal P (Builder_header b) of
        Inl err \<Rightarrow> Some (b_w b, Some err)
      | Inr headerBuf \<Rightarrow> do {
          (w, _, err) \<leftarrow> WriteMany (b_w b) [sparse_Magic, le_bytes 4 (uint32 (int (length headerBuf))), headerBuf];
          if err \<noteq> None then Some (w, err)
          else do {
            (b, err) \<leftarrow> writeIndex Write (b\<lparr>b_w := w\<rparr>);
            if err \<noteq> None then Some (b_w b, err)
            else do {
              (w, writtenBlocks, err) \<leftarrow> write_data Write rf Read (b_blockSize b) (b_w b) (entries b) 0;
              if err \<noteq> None then Some (w, err)
              else if writtenBlocks \<noteq> totalDataBlocks b then None
              else Some (bw_Flush Write w)
            }
          }
        })"

end
