(* ===== verification/Sparse_Reader.thy ===== *)
theory Sparse_Reader
  imports Sparse_Builder
begin

text \<open>
  \<open>internal/sparseblock/reader.go\<close>: loading a table and reading from it. \<open>getNextEntry\<close> returns the
  entry it fills, or \<^const>\<open>None\<close> inside where the code returns false; a panic is the outer \<^const>\<open>None\<close>.
\<close>

section \<open>Operations\<close>

record readerIndexEntry =
  e_offset :: int
  e_length :: int
  e_dataOffset :: int
  e_eType :: int
  e_rangeIndex :: int
  e_entryIndex :: int

definition readerIndexEntry_Contains :: "readerIndexEntry \<Rightarrow> int \<Rightarrow> bool" where
  "readerIndexEntry_Contains e off \<longleftrightarrow> off \<ge> e_offset e \<and> off < s64 (e_offset e + e_length e)"

record sparse_Reader =
  sr_r :: ReaderAt
  sr_header :: sparse_Header
  sr_dataOffset :: int
  sr_ranges :: "rangeEntry list"
  sr_entryBuf :: bytes

definition sparse_Size :: "sparse_Reader \<Rightarrow> int" where
  "sparse_Size r = s64 (int64 (EndBlock (sr_header r)) * int (BlockSize (sr_header r)))"

definition sparse_LiveSize :: "sparse_Reader \<Rightarrow> int" where
  "sparse_LiveSize r = s64 (int64 (TotalBlocks (sr_header r)) * int (BlockSize (sr_header r)))"

definition sparse_DataSize :: "sparse_Reader \<Rightarrow> int" where
  "sparse_DataSize r = s64 (int64 (TotalBlocks (sr_header r)) * int (BlockSize (sr_header r)))"

text \<open>The figures handed to the logger; both divisions panic on zero.\<close>

definition LogLoadStats :: "sparse_Reader \<Rightarrow> (int \<times> int \<times> nat \<times> nat \<times> int) option" where
  "LogLoadStats r =
     (let h = sr_header r
      in if NumRangeEntries h = 0 \<or> NumBlockEntries h = 0 then None
         else Some (int (length (sr_ranges r)), int (length (sr_entryBuf r)), NumBlockEntries h,
                NumBlockEntries h div NumRangeEntries h,
                go_div (int64 (TotalBlocks h)) (int (NumBlockEntries h))))"

definition sparse_Close :: "sparse_Reader \<Rightarrow> sparse_Reader \<times> go_error option" where
  "sparse_Close r = (r\<lparr>sr_r := (\<lambda>_ _. None), sr_ranges := [], sr_entryBuf := []\<rparr>, None)"

fun parse_ranges :: "nat \<Rightarrow> bytes \<Rightarrow> int \<Rightarrow> nat \<Rightarrow> nat \<Rightarrow> rangeEntry list option" where
  "parse_ranges 0 rangeBuf entryCount i sz = Some []"
| "parse_ranges (Suc n) rangeBuf entryCount i sz = do {
     buf \<leftarrow> slice rangeBuf (int (i * sz)) (int (i * sz + sz));
     re \<leftarrow> rangeEntry_unmarshal \<lparr>startOffset = 0, re_dataOffset = 0, numEntries = 0, firstEntryIndex = entryCount\<rparr> buf;
     res \<leftarrow> parse_ranges n rangeBuf (entryCount + numEntries re) (Suc i) sz;
     Some (re # res)
   }"

definition sparse_readIndex :: "sparse_Header proto_ops \<Rightarrow> sparse_Reader \<Rightarrow> (sparse_Reader \<times> go_error option) option" where
  "sparse_readIndex P r = do {
     (magicHeaderSizeBuf, _, err) \<leftarrow> sr_r r (replicate (length sparse_Magic + 4) 0) 0;
     if err \<noteq> None then Some (r, err)
     else if take (length sparse_Magic) magicHeaderSizeBuf \<noteq> sparse_Magic then Some (r, Some ErrInvalidMagic)
     else do {
       let headerSize = le_nat (take 4 (drop (length sparse_Magic) magicHeaderSizeBuf));
       (headerBuf, _, err) \<leftarrow> sr_r r (replicate headerSize 0) (int (length sparse_Magic + 4));
       if err \<noteq> None then Some (r, err)
       else case proto_Unmarshal P headerBuf of
         Inl err \<Rightarrow> Some (r, Some err)
       | Inr h \<Rightarrow>
           let r = r\<lparr>sr_header := h\<rparr>
           in if Version h \<noteq> 1 then Some (r, Some (Err ''unsupported version''))
              else if BlockSize h < 512 \<or> BlockSize h > 1024 * 1024 then Some (r, Some (Err ''invalid block size''))
              else if NumRangeEntries h = 0 \<or> NumBlockEntries h = 0 then Some (r, None)
              else do {
                let rangeLen = NumRangeEntries h * RangeEntrySize h mod 2 ^ 32;
                let rangeOffset = length sparse_Magic + 4 + headerSize;
                let entryLen = NumBlockEntries h * BlockEntrySize h mod 2 ^ 32;
                let entryOffset = rangeOffset + rangeLen;
                (rangeBuf, _, err) \<leftarrow> sr_r r (replicate rangeLen 0) (int rangeOffset);
                if err \<noteq> None then Some (r, err)
                else do {
                  (entryBuf, _, err) \<leftarrow> sr_r r (replicate entryLen 0) (int entryOffset);
                  if err \<noteq> None then Some (r, err)
                  else do {
                    rs \<leftarrow> parse_ranges (NumRangeEntries h) rangeBuf 0 0 (RangeEntrySize h);
                    Some (r\<lparr>sr_ranges := rs, sr_entryBuf := entryBuf,
                            sr_dataOffset := int (rangeOffset + (rangeLen + entryLen))\<rparr>, None)
                  }
                }
              }
     }
   }"

definition sparse_Load :: "sparse_Header proto_ops \<Rightarrow> ReaderAt \<Rightarrow> (sparse_Reader option \<times> go_error option) option" where
  "sparse_Load P ra = do {
     (r, err) \<leftarrow> sparse_readIndex P \<lparr>sr_r = ra,
        sr_header = \<lparr>Version = 0, BlockSize = 0, NumRangeEntries = 0, RangeEntrySize = 0, NumBlockEntries = 0,
          BlockEntrySize = 0, TotalBlocks = 0, TotalDataBlocks = 0, EndBlock = 0\<rparr>,
        sr_dataOffset = 0, sr_ranges = [], sr_entryBuf = []\<rparr>;
     if err \<noteq> None then Some (None, err) else Some (Some r, None)
   }"

definition parseBlockEntry :: "sparse_Reader \<Rightarrow> int \<Rightarrow> blockEntry option" where
  "parseBlockEntry r i = do {
     let off = i * int (BlockEntrySize (sr_header r));
     buf \<leftarrow> slice (sr_entryBuf r) off (off + int (BlockEntrySize (sr_header r)));
     blockEntry_unmarshal buf
   }"

text \<open>\<open>e_dataOffset\<close> is set by the caller.\<close>

definition fillEntry :: "sparse_Reader \<Rightarrow> int \<Rightarrow> int \<Rightarrow> int \<Rightarrow> readerIndexEntry option" where
  "fillEntry r rangeIndex blockIndex dataOff =
     (if rangeIndex < 0 \<or> int (length (sr_ranges r)) \<le> rangeIndex then None
      else do {
        let re = sr_ranges r ! nat rangeIndex;
        be \<leftarrow> parseBlockEntry r blockIndex;
        Some \<lparr>e_offset = s64 ((startOffset re + int (be_offset be)) * int (BlockSize (sr_header r))),
              e_length = blockEntry_length be * int (BlockSize (sr_header r)),
              e_dataOffset = dataOff, e_eType = EntryType_Data,
              e_rangeIndex = rangeIndex, e_entryIndex = blockIndex\<rparr>
      })"

text \<open>The scan of one range from entry \<open>ei\<close> on, with \<open>n\<close> entries left; the block offset of the data
  of the entry found is returned with its index.\<close>

fun scan_range :: "sparse_Reader \<Rightarrow> rangeEntry \<Rightarrow> int \<Rightarrow> nat \<Rightarrow> int \<Rightarrow> int \<Rightarrow> (int \<times> int) option option" where
  "scan_range r re off 0 ei dataBlockOffset = Some None"
| "scan_range r re off (Suc n) ei dataBlockOffset = do {
     entry \<leftarrow> parseBlockEntry r ei;
     let entryOff = startOffset re + int (be_offset entry);
     if entryOff \<ge> off \<or> off \<ge> entryOff \<and> off < entryOff + blockEntry_length entry
     then Some (Some (ei, dataBlockOffset))
     else scan_range r re off n (ei + 1) (dataBlockOffset + blockEntry_length entry)
   }"

definition getNextEntry :: "sparse_Reader \<Rightarrow> int \<Rightarrow> readerIndexEntry option option" where
  "getNextEntry r off =
     (let bs = int (BlockSize (sr_header r));
          ri = int (sort_Search (length (sr_ranges r)) (\<lambda>i. off < startOffset (sr_ranges r ! i))) - 1
      in if ri < 0 then map_option Some (fillEntry r 0 0 0)
         else do {
           let re = sr_ranges r ! nat ri;
           found \<leftarrow> scan_range r re off (nat (numEntries re)) (firstEntryIndex re) (re_dataOffset re);
           case found of
             Some (ei, dataBlockOffset) \<Rightarrow> map_option Some (fillEntry r ri ei (s64 (dataBlockOffset * bs)))
           | None \<Rightarrow>
               let ri = ri + 1
               in if ri < int (length (sr_ranges r))
                  then let re = sr_ranges r ! nat ri
                    in map_option Some (fillEntry r ri (firstEntryIndex re) (s64 (re_dataOffset re * bs)))
                  else Some None
         })"

definition sparse_NextData :: "sparse_Reader \<Rightarrow> int \<Rightarrow> (int \<times> go_error option) option" where
  "sparse_NextData r off =
     (if BlockSize (sr_header r) = 0 then None
      else do {
        e \<leftarrow> getNextEntry r (go_div off (int (BlockSize (sr_header r))));
        case e of
          Some e \<Rightarrow> if readerIndexEntry_Contains e off then Some (off, None) else Some (e_offset e, None)
        | None \<Rightarrow> Some (0, Some EOF)
      })"

partial_function (option) sparse_NextHole :: "sparse_Reader \<Rightarrow> int \<Rightarrow> (int \<times> go_error option) option" where
  "sparse_NextHole r off =
     (if BlockSize (sr_header r) = 0 then None
      else do {
        e \<leftarrow> getNextEntry r (go_div off (int (BlockSize (sr_header r))));
        case e of
          None \<Rightarrow> Some (off, None)
        | Some e \<Rightarrow> if \<not> readerIndexEntry_Contains e off then Some (off, None)
                    else sparse_NextHole r (s64 (e_offset e + e_length e))
      })"

text \<open>One round of \<open>ReadAt\<close> on the rest \<open>p\<close> of the buffer, after the zeros of a gap: the entry's part of it.\<close>

definition read_entry :: "sparse_Reader \<Rightarrow> readerIndexEntry \<Rightarrow> bytes \<Rightarrow> int \<Rightarrow> (bytes \<times> nat \<times> go_error option) option" where
  "read_entry r e p off =
     (let eEnd = s64 (e_offset e + e_length e);
          readLen = (if int (length p) > s64 (eEnd - off) then s64 (eEnd - off) else int (length p))
      in if readLen < 0 then None
         else if e_eType e = EntryType_Data
         then do {
           (q, n, err) \<leftarrow> sr_r r (take (nat readLen) p) (s64 (s64 (off - e_offset e) + s64 (sr_dataOffset r + e_dataOffset e)));
           Some (q @ drop (nat readLen) p, nat readLen, if err = Some EOF \<and> n = readLen then None else err)
         }
         else if e_eType e = EntryType_Hole
         then Some (replicate (nat readLen) 0 @ drop (nat readLen) p, nat readLen, None)
         else None)"

partial_function (option) sparse_ReadAt_loop :: "sparse_Reader \<Rightarrow> bytes \<Rightarrow> int \<Rightarrow> int \<Rightarrow>
    (bytes \<times> int \<times> go_error option) option" where
  "sparse_ReadAt_loop r p off bytesRead =
     (if p = [] then Some ([], bytesRead, None)
      else if BlockSize (sr_header r) = 0 then None
      else do {
        e \<leftarrow> getNextEntry r (go_div off (int (BlockSize (sr_header r))));
        case e of
          None \<Rightarrow> Some (p, bytesRead, Some EOF)
        | Some e \<Rightarrow> do {
            let gap = (if readerIndexEntry_Contains e off then 0
                       else if int (length p) > s64 (e_offset e - off) then s64 (e_offset e - off) else int (length p));
            if gap < 0 then None
            else do {
              let zeros = replicate (nat gap) 0;
              let rem = drop (nat gap) p;
              let bytesRead = bytesRead + gap;
              let off = s64 (off + gap);
              if rem = [] then Some (zeros, bytesRead, None)
              else do {
                (q, readLen, err) \<leftarrow> read_entry r e rem off;
                if err \<noteq> None then Some (zeros @ q, bytesRead, err)
                else do {
                  (tl, n, err) \<leftarrow> sparse_ReadAt_loop r (drop readLen q) (s64 (off + int readLen)) (bytesRead + int readLen);
                  Some (zeros @ take readLen q @ tl, n, err)
                }
              }
            }
          }
      })"

definition sparse_ReadAt :: "sparse_Reader \<Rightarrow> bytes \<Rightarrow> int \<Rightarrow> (bytes \<times> int \<times> go_error option) option" where
  "sparse_ReadAt r p off = sparse_ReadAt_loop r p off 0"

definition sparse_reader_at :: "sparse_Reader \<Rightarrow> HoleReaderAt" where
  "sparse_reader_at r = \<lparr>ReadAt = sparse_ReadAt r, NextData = sparse_NextData r, NextHole = sparse_NextHole r\<rparr>"

section \<open>The index as a list of extents\<close>

text \<open>The block entries in order: offset and length in blocks. \<open>next_entry k es i d\<close> is the first that
  ends after block \<open>k\<close>, with its index and the block offset of its data, counted from \<open>i\<close> and \<open>d\<close>.\<close>

fun next_entry :: "nat \<Rightarrow> (nat \<times> nat) list \<Rightarrow> nat \<Rightarrow> nat \<Rightarrow> (nat \<times> nat \<times> nat \<times> nat) option" where
  "next_entry k [] i d = None"
| "next_entry k ((o', l) # es) i d = (if k < o' + l then Some (i, o', l, d) else next_entry k es (Suc i) (d + l))"

abbreviation blocks_in :: "(nat \<times> nat) list \<Rightarrow> nat" where
  "blocks_in es \<equiv> sum_list (map snd es)"

definition extents_ok :: "(nat \<times> nat) list \<Rightarrow> bool" where
  "extents_ok es \<longleftrightarrow> sorted_wrt (\<lambda>a b. fst a + snd a \<le> fst b) es \<and> (\<forall>e\<in>set es. 0 < snd e)"

lemma next_entry_append:
  "next_entry k (xs @ ys) i d = (case next_entry k xs i d of
     Some r \<Rightarrow> Some r | None \<Rightarrow> next_entry k ys (i + length xs) (d + blocks_in xs))"
  by (induction xs arbitrary: i d) (auto simp: add.assoc split: option.splits)

lemma next_entry_None: "next_entry k es i d = None \<longleftrightarrow> (\<forall>e\<in>set es. fst e + snd e \<le> k)"
  by (induction k es i d rule: next_entry.induct) auto

lemma next_entry_Some:
  assumes "next_entry k es i d = Some (j, o', l, d')"
  obtains xs ys where "es = xs @ (o', l) # ys" "j = i + length xs" "d' = d + blocks_in xs" "k < o' + l"
    "\<forall>e\<in>set xs. fst e + snd e \<le> k"
proof -
  have "\<exists>xs ys. es = xs @ (o', l) # ys \<and> j = i + length xs \<and> d' = d + blocks_in xs \<and> k < o' + l \<and>
    (\<forall>e\<in>set xs. fst e + snd e \<le> k)"
    using assms
  proof (induction es arbitrary: i d)
    case (Cons e es)
    obtain a b where e: "e = (a, b)" by fastforce
    show ?case
    proof (cases "k < a + b")
      case True
      with Cons.prems e show ?thesis by (intro exI [of _ "[]"] exI [of _ es]) auto
    next
      case False
      with Cons.prems e have "next_entry k es (Suc i) (d + b) = Some (j, o', l, d')" by simp
      from Cons.IH [OF this] obtain xs ys where "es = xs @ (o', l) # ys" "j = Suc i + length xs" "d' = d + b + blocks_in xs"
        "k < o' + l" "\<forall>e\<in>set xs. fst e + snd e \<le> k" by blast
      with False e show ?thesis by (intro exI [of _ "(a, b) # xs"] exI [of _ ys]) auto
    qed
  qed simp
  with that show thesis by blast
qed

lemma next_entry_same:
  assumes "next_entry k es i d = Some (j, o', l, d')" "k \<le> k'" "k' < o' + l"
  shows "next_entry k' es i d = Some (j, o', l, d')"
proof -
  from next_entry_Some [OF assms(1)] obtain xs ys where xs: "es = xs @ (o', l) # ys" "j = i + length xs"
    "d' = d + blocks_in xs" "\<forall>e\<in>set xs. fst e + snd e \<le> k" by blast
  have "next_entry k' xs i d = None" unfolding next_entry_None using xs(4) assms(2) by auto
  with xs(1-3) assms(3) show ?thesis by (simp add: next_entry_append)
qed

section \<open>The contents of a table\<close>

text \<open>The byte at \<open>x\<close> of a table with extents \<open>es\<close> and data \<open>D\<close>.\<close>

definition table_content :: "nat \<Rightarrow> (nat \<times> nat) list \<Rightarrow> bytes \<Rightarrow> nat \<rightharpoonup> byte" where
  "table_content bs es D x =
     (case next_entry (x div bs) es 0 0 of
        None \<Rightarrow> None
      | Some (i, o', l, d) \<Rightarrow> if o' \<le> x div bs then Some (D ! (d * bs + (x - o' * bs))) else None)"

text \<open>How the loaded reader stores the extents: \<open>gs\<close> are the ranges, each with its start and its
  entries relative to it.\<close>

definition extents :: "(nat \<times> (nat \<times> nat) list) list \<Rightarrow> (nat \<times> nat) list" where
  "extents gs = concat (map (\<lambda>(s, es). map (\<lambda>(o', l). (s + o', l)) es) gs)"

definition entries_before :: "(nat \<times> (nat \<times> nat) list) list \<Rightarrow> nat \<Rightarrow> (nat \<times> nat) list" where
  "entries_before gs i = concat (map snd (take i gs))"

definition ranges_ok :: "(nat \<times> (nat \<times> nat) list) list \<Rightarrow> bool" where
  "ranges_ok gs \<longleftrightarrow> gs \<noteq> [] \<and> extents_ok (extents gs) \<and> (\<forall>(s, es)\<in>set gs. es \<noteq> [] \<and> fst (hd es) = 0)"

definition index_ok :: "sparse_Reader \<Rightarrow> (nat \<times> (nat \<times> nat) list) list \<Rightarrow> bool" where
  "index_ok r gs \<longleftrightarrow> length (sr_ranges r) = length gs \<and>
     (\<forall>i<length gs. startOffset (sr_ranges r ! i) = int (fst (gs ! i)) \<and>
        re_dataOffset (sr_ranges r ! i) = int (blocks_in (entries_before gs i)) \<and>
        numEntries (sr_ranges r ! i) = int (length (snd (gs ! i))) \<and>
        firstEntryIndex (sr_ranges r ! i) = int (length (entries_before gs i))) \<and>
     (\<forall>j<length (concat (map snd gs)).
        parseBlockEntry r (int j) = Some \<lparr>be_offset = fst (concat (map snd gs) ! j),
          lengthType = 2 * snd (concat (map snd gs) ! j)\<rparr>)"

lemma extents_append: "extents (as @ bs) = extents as @ extents bs"
  by (simp add: extents_def)

lemma extents_Cons: "extents ((s, es) # gs) = map (\<lambda>(o', l). (s + o', l)) es @ extents gs"
  by (simp add: extents_def)

lemma extents_member:
  assumes "i < length gs" "(a, l) \<in> set (snd (gs ! i))"
  shows "(fst (gs ! i) + a, l) \<in> set (extents gs)"
proof -
  obtain s es where g: "gs ! i = (s, es)" by fastforce
  then have "(s, es) \<in> set gs" using assms(1) by (metis nth_mem)
  with assms(2) g show ?thesis by (force simp: extents_def)
qed

lemma blocks_in_shift: "blocks_in (map (\<lambda>(o', l). (s + o', l)) es) = blocks_in es"
  by (induction es) auto

lemma extents_size: "length (extents gs) = length (concat (map snd gs))" "blocks_in (extents gs) = blocks_in (concat (map snd gs))"
  by (induction gs) (auto simp: extents_Cons extents_def [of "[]"] blocks_in_shift [unfolded map_map])

lemma entries_at:
  assumes "i < length gs" "m < length (snd (gs ! i))"
  shows "concat (map snd gs) ! (length (entries_before gs i) + m) = snd (gs ! i) ! m"
    and "length (entries_before gs i) + m < length (concat (map snd gs))"
proof -
  have "concat (map snd gs) = entries_before gs i @ snd (gs ! i) @ concat (map snd (drop (Suc i) gs))"
    using arg_cong [OF id_take_nth_drop [OF assms(1)], of "\<lambda>gs. concat (map snd gs)"] by (simp add: entries_before_def)
  with assms(2) show "concat (map snd gs) ! (length (entries_before gs i) + m) = snd (gs ! i) ! m"
    "length (entries_before gs i) + m < length (concat (map snd gs))"
    by (simp_all add: nth_append)
qed

lemma before_start:
  assumes "ranges_ok gs" "i < length gs" "e \<in> set (extents (take i gs))"
  shows "fst e + snd e \<le> fst (gs ! i)"
proof -
  obtain s es where g: "gs ! i = (s, es)" by fastforce
  then have "(s, es) \<in> set gs" using assms(2) by (metis nth_mem)
  with assms(1) have "es \<noteq> []" "fst (hd es) = 0" by (auto simp: ranges_ok_def)
  then obtain l es' where es: "es = (0, l) # es'" by (cases es) auto
  have "gs = take i gs @ (s, es) # drop (Suc i) gs" using assms(2) g by (metis id_take_nth_drop)
  from arg_cong [OF this, of extents] have "extents gs = extents (take i gs) @ (s, l) # map (\<lambda>(o', l). (s + o', l)) es' @ extents (drop (Suc i) gs)"
    by (simp add: extents_append extents_Cons es)
  with assms(1,3) g show ?thesis by (auto simp: ranges_ok_def extents_ok_def sorted_wrt_append)
qed

lemma starts_mono:
  assumes "ranges_ok gs" "a \<le> b" "b < length gs"
  shows "fst (gs ! a) \<le> fst (gs ! b)"
proof (cases "a = b")
  case False
  obtain s es where g: "gs ! a = (s, es)" by fastforce
  have "a < length (take b gs)" "take b gs ! a = (s, es)" using assms g False by auto
  then have "(s, es) \<in> set (take b gs)" by (metis nth_mem)
  moreover from this have "es \<noteq> []" "fst (hd es) = 0" using assms(1) by (auto simp: ranges_ok_def dest: in_set_takeD)
  ultimately have "(s, snd (hd es)) \<in> set (extents (take b gs))"
    by (cases es) (auto simp: extents_def image_iff intro!: bexI [of _ "(s, es)"])
  from before_start [OF assms(1,3) this] g show ?thesis by simp
qed simp

lemma scan_range_ok:
  assumes "\<forall>m<length es. parseBlockEntry r (int (i + m)) = Some \<lparr>be_offset = fst (es ! m), lengthType = 2 * snd (es ! m)\<rparr>"
    and "startOffset re = int s" "\<forall>e\<in>set es. 0 < snd e"
  shows "scan_range r re (int k) (length es) (int i) (int d) =
    Some (map_option (\<lambda>(j, o', l, d). (int j, int d)) (next_entry k (map (\<lambda>(o', l). (s + o', l)) es) i d))"
  using assms
proof (induction es arbitrary: i d)
  case (Cons e es)
  obtain a b where e: "e = (a, b)" by fastforce
  have p: "parseBlockEntry r (int i) = Some \<lparr>be_offset = a, lengthType = 2 * b\<rparr>"
    using Cons.prems(1) e by (auto dest: spec [of _ 0])
  have len: "blockEntry_length \<lparr>be_offset = a, lengthType = 2 * b\<rparr> = int b"
    by (simp add: blockEntry_length_def drop_bit_eq_div)
  have "0 < b" using Cons.prems(3) e by simp
  then have c: "int s + int a \<ge> int k \<or> int k \<ge> int s + int a \<and> int k < int s + int a + int b \<longleftrightarrow> k < s + a + b" by auto
  have "\<forall>m<length es. parseBlockEntry r (int (Suc i + m)) = Some \<lparr>be_offset = fst (es ! m), lengthType = 2 * snd (es ! m)\<rparr>"
    using Cons.prems(1) by (metis Suc_less_eq add_Suc_shift length_Cons nth_Cons_Suc)
  from Cons.IH [OF this Cons.prems(2), of "d + b"] Cons.prems(3) p len c Cons.prems(2) show ?case
    by (simp add: e Let_def add.commute [of "int i" 1])
qed simp

text \<open>A loaded table: its index, and its data inside the file \<open>f\<close>.\<close>

locale sparse_table = reader_at R f
  for R :: ReaderAt and f :: bytes +
  fixes r :: sparse_Reader and gs :: "(nat \<times> (nat \<times> nat) list) list" and bs dat :: nat
  assumes t_reader: "sr_r r = R" and t_bs: "BlockSize (sr_header r) = bs" "0 < bs"
    and t_ranges: "ranges_ok gs" and t_index: "index_ok r gs"
    and t_data: "sr_dataOffset r = int dat" "length f = dat + blocks_in (extents gs) * bs" "length f \<le> max_off"
    and t_bound: "(o', l) \<in> set (extents gs) \<Longrightarrow> (o' + l) * bs \<le> max_off"
begin

abbreviation es where "es \<equiv> extents gs"

abbreviation content where "content \<equiv> table_content bs es (drop dat f)"


lemma index_at:
  assumes "i < length gs"
  shows "startOffset (sr_ranges r ! i) = int (fst (gs ! i))"
    "re_dataOffset (sr_ranges r ! i) = int (blocks_in (entries_before gs i))"
    "numEntries (sr_ranges r ! i) = int (length (snd (gs ! i)))"
    "firstEntryIndex (sr_ranges r ! i) = int (length (entries_before gs i))"
    "\<forall>m<length (snd (gs ! i)). parseBlockEntry r (int (length (entries_before gs i) + m)) =
       Some \<lparr>be_offset = fst (snd (gs ! i) ! m), lengthType = 2 * snd (snd (gs ! i) ! m)\<rparr>"
  using t_index assms entries_at [OF assms] unfolding index_ok_def by metis+

text \<open>What \<open>getNextEntry\<close> returns for the entry \<open>(i, o', l, d)\<close>.\<close>

definition is_entry :: "readerIndexEntry \<Rightarrow> nat \<times> nat \<times> nat \<times> nat \<Rightarrow> bool" where
  "is_entry e = (\<lambda>(i, o', l, d). e_offset e = int (o' * bs) \<and> e_length e = int (l * bs) \<and> e_dataOffset e = int (d * bs) \<and>
     e_eType e = EntryType_Data)"

lemma fillEntry_ok:
  assumes i: "i < length gs" and m: "m < length (snd (gs ! i))" "snd (gs ! i) ! m = (a, l)"
    and "d * bs \<le> max_off"
  shows "\<exists>e. fillEntry r (int i) (int (length (entries_before gs i) + m)) (s64 (int d * int bs)) = Some e \<and>
    is_entry e (j, fst (gs ! i) + a, l, d)"
proof -
  obtain s es' where g: "gs ! i = (s, es')" by fastforce
  have "(a, l) \<in> set (snd (gs ! i))" using m by (metis nth_mem)
  from extents_member [OF i this] have "(s + a, l) \<in> set es" by (simp add: g)
  from t_bound [OF this] have "(s + a) * bs \<le> max_off" "l * bs \<le> max_off" by (simp_all add: add_mult_distrib)
  then have "s64 ((int s + int a) * int bs) = int ((s + a) * bs)" "s64 (int d * int bs) = int (d * bs)"
    using assms(4) by (auto simp flip: of_nat_add of_nat_mult intro!: s64_id)
  moreover have "length (sr_ranges r) = length gs" using t_index by (simp add: index_ok_def)
  ultimately show ?thesis
    using index_at(5) [OF i] index_at(1) [OF i] m i g t_bs
    by (simp add: fillEntry_def is_entry_def blockEntry_length_def drop_bit_eq_div)
qed


lemma pos_len: "i < length gs \<Longrightarrow> \<forall>e\<in>set (snd (gs ! i)). 0 < snd e"
proof
  fix e assume "i < length gs" "e \<in> set (snd (gs ! i))"
  then have "(fst (gs ! i) + fst e, snd e) \<in> set es" by (intro extents_member) simp_all
  then show "0 < snd e" using t_ranges by (auto simp: ranges_ok_def extents_ok_def)
qed

lemma split_at:
  assumes "m < length gs" "fst (gs ! m) \<le> k"
  shows "next_entry k es 0 0 =
    (case next_entry k (map (\<lambda>(o', l). (fst (gs ! m) + o', l)) (snd (gs ! m))) (length (entries_before gs m)) (blocks_in (entries_before gs m)) of
       Some r \<Rightarrow> Some r
     | None \<Rightarrow> next_entry k (extents (drop (Suc m) gs)) (length (entries_before gs (Suc m))) (blocks_in (entries_before gs (Suc m))))"
proof -
  have e: "es = extents (take m gs) @ map (\<lambda>(o', l). (fst (gs ! m) + o', l)) (snd (gs ! m)) @ extents (drop (Suc m) gs)"
    using arg_cong [OF id_take_nth_drop [OF assms(1)], of extents]
    by (cases "gs ! m") (simp add: extents_append extents_Cons)
  have "next_entry k (extents (take m gs)) 0 0 = None"
    unfolding next_entry_None using before_start [OF t_ranges assms(1)] assms(2) by (meson order_trans)
  moreover have "length (extents (take m gs)) = length (entries_before gs m)" "blocks_in (extents (take m gs)) = blocks_in (entries_before gs m)"
    by (simp_all add: extents_size entries_before_def)
  moreover have "entries_before gs (Suc m) = entries_before gs m @ snd (gs ! m)"
    using assms(1) by (simp add: entries_before_def take_Suc_conv_app_nth)
  ultimately show ?thesis
    unfolding e next_entry_append by (simp add: blocks_in_shift [unfolded map_map] cong: option.case_cong)
qed

lemma first_entry:
  assumes "m < length gs" "k < fst (gs ! m)"
  obtains l where "snd (gs ! m) ! 0 = (0, l)" "0 < length (snd (gs ! m))"
    "next_entry k (extents (drop m gs)) i d = Some (i, fst (gs ! m), l, d)"
proof -
  obtain s es' where g: "gs ! m = (s, es')" by fastforce
  then have "(s, es') \<in> set gs" using assms(1) by (metis nth_mem)
  with t_ranges have "es' \<noteq> []" "fst (hd es') = 0" by (auto simp: ranges_ok_def)
  then obtain l es'' where es: "es' = (0, l) # es''" by (cases es') auto
  have "drop m gs = (s, es') # drop (Suc m) gs" using assms(1) g by (metis Cons_nth_drop_Suc)
  with that assms(2) g es show thesis by (simp add: extents_Cons)
qed

lemma data_bound: "entries_before gs i = xs \<Longrightarrow> blocks_in xs * bs \<le> max_off"
proof -
  assume xs: "entries_before gs i = xs"
  have "concat (map snd gs) = entries_before gs i @ concat (map snd (drop i gs))"
    unfolding entries_before_def by (metis append_take_drop_id concat_append map_append)
  then have "blocks_in xs \<le> blocks_in es" by (simp add: extents_size xs)
  then have "blocks_in xs * bs \<le> blocks_in es * bs" by simp
  then show ?thesis using t_data(2,3) by linarith
qed

lemma getNextEntry_ok:
  shows "case next_entry k es 0 0 of
     None \<Rightarrow> getNextEntry r (int k) = Some None
   | Some x \<Rightarrow> \<exists>e. getNextEntry r (int k) = Some (Some e) \<and> is_entry e x"
proof -
  have len: "length (sr_ranges r) = length gs" using t_index by (simp add: index_ok_def)
  define n where "n = sort_Search (length gs) (\<lambda>i. int k < startOffset (sr_ranges r ! i))"
  have f: "int k < startOffset (sr_ranges r ! i) \<longleftrightarrow> k < fst (gs ! i)" if "i < length gs" for i
    using index_at(1) [OF that] by simp
  have "\<forall>a b. a \<le> b \<longrightarrow> b < length gs \<longrightarrow> int k < startOffset (sr_ranges r ! a) \<longrightarrow> int k < startOffset (sr_ranges r ! b)"
    using f starts_mono [OF t_ranges] by (meson le_less_trans less_le_trans)
  note search = sort_Search_ok [OF this, folded n_def]
  have bs: "int (BlockSize (sr_header r)) = int bs" by (simp add: t_bs)
  show ?thesis
  proof (cases n)
    case 0
    have g0: "0 < length gs" using t_ranges by (simp add: ranges_ok_def)
    have "k < fst (gs ! 0)" using search(3) [of 0] 0 g0 f [OF g0] by simp
    from first_entry [OF g0 this, of 0 0] obtain l where l: "snd (gs ! 0) ! 0 = (0, l)" "0 < length (snd (gs ! 0))"
      "next_entry k es 0 0 = Some (0, fst (gs ! 0), l, 0)" by (metis drop0)
    from fillEntry_ok [OF g0 l(2,1), of 0 0] obtain e where "fillEntry r 0 0 0 = Some e" "is_entry e (0, fst (gs ! 0), l, 0)"
      by (auto simp: entries_before_def s64_id)
    with l(3) show ?thesis
      by (simp add: getNextEntry_def len n_def [symmetric] 0 Let_def)
  next
    case (Suc m)
    then have m: "m < length gs" using search(1) by simp
    have "\<not> int k < startOffset (sr_ranges r ! m)" using search(2) [of m] Suc by simp
    then have sm: "fst (gs ! m) \<le> k" using f [OF m] by simp
    let ?i = "length (entries_before gs m)" and ?d = "blocks_in (entries_before gs m)"
    let ?N = "next_entry k (map (\<lambda>(o', l). (fst (gs ! m) + o', l)) (snd (gs ! m))) ?i ?d"
    have scan: "scan_range r (sr_ranges r ! m) (int k) (nat (numEntries (sr_ranges r ! m)))
        (firstEntryIndex (sr_ranges r ! m)) (re_dataOffset (sr_ranges r ! m)) =
        Some (map_option (\<lambda>(j, o', l, d). (int j, int d)) ?N)"
      using scan_range_ok [OF index_at(5) [OF m] index_at(1) [OF m] pos_len [OF m], of k ?d]
      unfolding index_at(2-4) [OF m] by simp
    have ge: "getNextEntry r (int k) = (case ?N of
        Some (j, o', l, d) \<Rightarrow> map_option Some (fillEntry r (int m) (int j) (s64 (int d * int bs)))
      | None \<Rightarrow> if Suc m < length gs then map_option Some (fillEntry r (int (Suc m)) (firstEntryIndex (sr_ranges r ! Suc m))
          (s64 (re_dataOffset (sr_ranges r ! Suc m) * int bs))) else Some None)"
      using scan by (auto simp: getNextEntry_def len n_def [symmetric] Suc Let_def bs add.commute nat_add_distrib split: option.splits)
    show ?thesis
    proof (cases ?N)
      case None
      note sp = split_at [OF m sm, unfolded None option.case]
      show ?thesis
      proof (cases "Suc m < length gs")
        case True
        have "k < fst (gs ! Suc m)" using search(3) [of "Suc m"] Suc True f [OF True] by simp
        from first_entry [OF True this] obtain l where l: "snd (gs ! Suc m) ! 0 = (0, l)" "0 < length (snd (gs ! Suc m))"
          "next_entry k es 0 0 = Some (length (entries_before gs (Suc m)), fst (gs ! Suc m), l, blocks_in (entries_before gs (Suc m)))"
          unfolding sp by metis
        from fillEntry_ok [OF True l(2,1) data_bound [OF refl], of "Suc m"] l(3) True show ?thesis
          by (auto simp: ge None index_at(2,4) [OF True] is_entry_def)
      next
        case False
        then have "next_entry k es 0 0 = None" unfolding sp by (simp add: extents_def)
        with False show ?thesis by (simp add: ge None)
      qed
    next
      case (Some x)
      obtain j o' l d where x: "x = (j, o', l, d)" by (metis prod_cases4)
      note ne = split_at [OF m sm, unfolded Some x option.case]
      from next_entry_Some [OF Some [unfolded x]] obtain xs ys where
        xs: "map (\<lambda>(o', l). (fst (gs ! m) + o', l)) (snd (gs ! m)) = xs @ (o', l) # ys" "j = ?i + length xs" "d = ?d + blocks_in xs"
        by metis
      have lx: "length xs < length (snd (gs ! m))" using arg_cong [OF xs(1), of length] by simp
      obtain a l' where al: "snd (gs ! m) ! length xs = (a, l')" by fastforce
      with arg_cong [OF xs(1), of "\<lambda>z. z ! length xs"] lx have o': "o' = fst (gs ! m) + a" "l' = l" by simp_all
      have "blocks_in xs \<le> blocks_in (snd (gs ! m))"
        using arg_cong [OF xs(1), of blocks_in] by (simp only: blocks_in_shift) simp
      moreover have "entries_before gs (Suc m) = entries_before gs m @ snd (gs ! m)"
        using m by (simp add: entries_before_def take_Suc_conv_app_nth)
      ultimately have "d \<le> blocks_in (entries_before gs (Suc m))" by (simp add: xs(3))
      then have "d * bs \<le> max_off" using data_bound [OF refl, of "Suc m"] by (meson mult_le_mono1 order_trans)
      from fillEntry_ok [OF m lx al this, of j] ne show ?thesis
        by (auto simp: ge Some x xs(2) o')
    qed
  qed
qed

end

end
