(* ===== verification/Sparse_Table.thy ===== *)
theory Sparse_Table
  imports Sparse_Reader Adaptors
begin

text \<open>
  A loaded sparse table is a byte reader: the scans and reads of \<open>reader.go\<close> agree with the contents
  its index and data describe.
\<close>

section \<open>Reading\<close>

text \<open>The end of the last extent, in blocks.\<close>

fun extents_end :: "(nat \<times> nat) list \<Rightarrow> nat" where
  "extents_end [] = 0"
| "extents_end ((o', l) # es) = max (o' + l) (extents_end es)"

lemma extents_end_le: "extents_end es \<le> k \<longleftrightarrow> (\<forall>e\<in>set es. fst e + snd e \<le> k)"
  by (induction es rule: extents_end.induct) auto

lemma next_entry_end: "next_entry k es i d = None \<longleftrightarrow> extents_end es \<le> k"
  by (simp add: next_entry_None extents_end_le)

context sparse_table
begin

lemma entry_member:
  assumes "next_entry k es 0 0 = Some (i, o', l, d)"
  shows "(o', l) \<in> set es" "k < o' + l" "d + l \<le> blocks_in es" "o' + l \<le> extents_end es" "(o' + l) * bs \<le> max_off"
proof -
  from next_entry_Some [OF assms] obtain xs ys where xs: "es = xs @ (o', l) # ys" "d = 0 + blocks_in xs" "k < o' + l" by metis
  then show m: "(o', l) \<in> set es" "k < o' + l" "d + l \<le> blocks_in es" by simp_all
  have "extents_end es \<le> extents_end es" ..
  with m(1) show "o' + l \<le> extents_end es" unfolding extents_end_le by force
  show "(o' + l) * bs \<le> max_off" by (rule t_bound [OF m(1)])
qed

lemma end_bound: "extents_end es * bs \<le> max_off"
proof -
  have "extents_end es' * bs \<le> max_off" if "\<forall>e\<in>set es'. (fst e + snd e) * bs \<le> max_off" for es'
    using that by (induction es' rule: extents_end.induct) (auto simp: max_def)
  moreover have "\<forall>e\<in>set es. (fst e + snd e) * bs \<le> max_off" using t_bound by force
  ultimately show ?thesis by blast
qed

lemma block_pos: "x div bs < b \<longleftrightarrow> x < b * bs" "b \<le> x div bs \<longleftrightarrow> b * bs \<le> x"
  using t_bs(2) by (simp_all add: div_less_iff_less_mult less_eq_div_iff_mult_less_eq)

lemma content_entry:
  assumes "next_entry (x div bs) es 0 0 = Some (i, o', l, d)"
  shows "content x = (if o' * bs \<le> x then Some (f ! (dat + d * bs + (x - o' * bs))) else None)"
  using assms block_pos(2) [of o' x] t_data(2) by (simp add: table_content_def add.assoc)

lemma content_None: "next_entry (x div bs) es 0 0 = None \<Longrightarrow> content x = None"
  by (simp add: table_content_def)

lemma same_entry:
  assumes "next_entry (k div bs) es 0 0 = Some (i, o', l, d)" "k \<le> x" "x < (o' + l) * bs"
  shows "next_entry (x div bs) es 0 0 = Some (i, o', l, d)"
  using next_entry_same [OF assms(1) div_le_mono [OF assms(2), of bs]] assms(3) block_pos(1) by blast

lemma content_bounded: "content x \<noteq> None \<Longrightarrow> x < max_off"
proof (cases "next_entry (x div bs) es 0 0")
  case (Some y)
  then obtain i o' l d where y: "next_entry (x div bs) es 0 0 = Some (i, o', l, d)" by (cases y) auto
  from entry_member(2,5) [OF y] block_pos(1) have "x < (o' + l) * bs" by blast
  with entry_member(5) [OF y] show ?thesis by linarith
qed (simp add: content_None)

text \<open>\<open>getNextEntry\<close> at the block of byte \<open>k\<close>.\<close>

lemma next_at:
  obtains (none) "next_entry (k div bs) es 0 0 = None" "getNextEntry r (go_div (int k) (int (BlockSize (sr_header r)))) = Some None"
    "extents_end es * bs \<le> k"
  | (entry) i o' l d e where "next_entry (k div bs) es 0 0 = Some (i, o', l, d)"
    "getNextEntry r (go_div (int k) (int (BlockSize (sr_header r)))) = Some (Some e)"
    "is_entry e (i, o', l, d)" "k < (o' + l) * bs" "(o' + l) * bs \<le> max_off"
    "readerIndexEntry_Contains e (int k) \<longleftrightarrow> o' * bs \<le> k" "k < extents_end es * bs"
proof -
  have gd: "go_div (int k) (int (BlockSize (sr_header r))) = int (k div bs)"
    using t_bs by (simp add: go_div_nonneg zdiv_int)
  show thesis
  proof (cases "next_entry (k div bs) es 0 0")
    case None
    with getNextEntry_ok [of "k div bs"] block_pos(2) show thesis
      by (intro none) (auto simp: gd next_entry_end)
  next
    case (Some y)
    then obtain i o' l d where y: "next_entry (k div bs) es 0 0 = Some (i, o', l, d)" by (cases y) auto
    with getNextEntry_ok [of "k div bs"] obtain e where e: "getNextEntry r (int (k div bs)) = Some (Some e)" "is_entry e (i, o', l, d)"
      by auto
    have b: "k < (o' + l) * bs" "(o' + l) * bs \<le> max_off" using entry_member(2,5) [OF y] block_pos(1) by blast+
    have "s64 (int (o' * bs) + int (l * bs)) = int ((o' + l) * bs)"
      using s64_nat [OF b(2)] by (simp only: add_mult_distrib of_nat_add)
    then have "readerIndexEntry_Contains e (int k) \<longleftrightarrow> o' * bs \<le> k"
      using e(2) b(1) by (simp add: is_entry_def readerIndexEntry_Contains_def del: of_nat_mult)
    moreover have "k < extents_end es * bs"
      using entry_member(4) [OF y] b(1) by (meson less_le_trans mult_le_mono1)
    ultimately show thesis using entry y e b by (simp add: gd)
  qed
qed


lemma read_entry_ok:
  assumes y: "next_entry (k div bs) es 0 0 = Some (i, o', l, d)" and e: "is_entry e (i, o', l, d)"
    and k: "o' * bs \<le> k" and n: "n = min (length p) ((o' + l) * bs - k)"
  shows "read_entry r e p (int k) = Some (zero_filled content k n @ drop n p, n, None)"
proof -
  have b: "k < (o' + l) * bs" "(o' + l) * bs \<le> max_off" using entry_member(2,5) [OF y] block_pos(1) by blast+
  have le: "(d + l) * bs \<le> blocks_in es * bs" using entry_member(3) [OF y] by simp
  let ?pos = "dat + d * bs + (k - o' * bs)"
  have len: "?pos + n \<le> length f" using le b(1) k n t_data(2) by (simp add: add_mult_distrib)
  have end_eq: "s64 (e_offset e + e_length e) = int ((o' + l) * bs)"
    using s64_nat [OF b(2)] e by (simp add: is_entry_def add_mult_distrib)
  have diff: "int ((o' + l) * bs) - int k = int ((o' + l) * bs - k)" using b(1) by (simp only: of_nat_diff less_imp_le)
  have "s64 (int ((o' + l) * bs) - int k) = int ((o' + l) * bs - k)"
    unfolding diff by (rule s64_nat) (use b(2) in linarith)
  then have rl: "(if int (length p) > s64 (s64 (e_offset e + e_length e) - int k)
      then s64 (s64 (e_offset e + e_length e) - int k) else int (length p)) = int n"
    using n by (simp add: end_eq del: of_nat_mult of_nat_add)
  have "?pos \<le> max_off" using len t_data(3) by linarith
  have k': "int k - e_offset e = int (k - o' * bs)" using e k by (simp only: is_entry_def of_nat_diff prod.case)
  have po: "s64 (s64 (int k - e_offset e) + s64 (sr_dataOffset r + e_dataOffset e)) = int ?pos"
  proof -
    have "s64 (int (k - o' * bs)) = int (k - o' * bs)" by (rule s64_nat) (use b in linarith)
    moreover have "sr_dataOffset r + e_dataOffset e = int (dat + d * bs)" using t_data(1) e by (simp add: is_entry_def)
    moreover have "s64 (int (dat + d * bs)) = int (dat + d * bs)" by (rule s64_nat) (use \<open>?pos \<le> max_off\<close> in linarith)
    moreover have "int (k - o' * bs) + int (dat + d * bs) = int ?pos" by simp
    ultimately show ?thesis using s64_nat [OF \<open>?pos \<le> max_off\<close>] k' by metis
  qed
  have np: "length (take n p) = n" using n by simp
  from read_inside [of ?pos "take n p"] len np obtain ee where
    rd: "R (take n p) (int ?pos) = Some (take n (drop ?pos f), int n, ee)" "ee = None \<or> ee = Some EOF" by auto
  have data: "take n (drop ?pos f) = zero_filled content k n"
  proof (rule nth_equalityI)
    show "length (take n (drop ?pos f)) = length (zero_filled content k n)" using len by simp
  next
    fix m assume "m < length (take n (drop ?pos f))"
    then have m: "m < n" by simp
    have "k + m < (o' + l) * bs" using m n by linarith
    from content_entry [OF same_entry [OF y _ this]] k have "content (k + m) = Some (f ! (dat + d * bs + (k + m - o' * bs)))"
      by simp
    with m len k show "take n (drop ?pos f) ! m = zero_filled content k n ! m"
      by (simp add: zero_filled_def add.assoc)
  qed
  have "e_eType e = EntryType_Data" using e by (simp add: is_entry_def)
  then show ?thesis
    unfolding read_entry_def Let_def rl po t_reader using rd by (auto simp: data simp del: of_nat_add of_nat_mult)
qed

lemma pos_extent: "(o', l) \<in> set es \<Longrightarrow> 0 < l"
  using t_ranges by (auto simp: ranges_ok_def extents_ok_def)

text \<open>The zeros before the next entry.\<close>

lemma gap_ok:
  assumes "next_entry (k div bs) es 0 0 = Some (i, o', l, d)" "is_entry e (i, o', l, d)"
    and "readerIndexEntry_Contains e (int k) \<longleftrightarrow> o' * bs \<le> k" "g = min n (o' * bs - k)"
  shows "(if readerIndexEntry_Contains e (int k) then 0
       else if int n > s64 (e_offset e - int k) then s64 (e_offset e - int k) else int n) = int g"
    and "zero_filled content k g = replicate g 0"
proof -
  show "(if readerIndexEntry_Contains e (int k) then 0
       else if int n > s64 (e_offset e - int k) then s64 (e_offset e - int k) else int n) = int g"
  proof (cases "o' * bs \<le> k")
    case False
    have "o' * bs \<le> max_off" using entry_member(5) [OF assms(1)] by (simp add: add_mult_distrib)
    then have "s64 (int (o' * bs - k)) = int (o' * bs - k)" by (intro s64_nat) simp
    moreover have "e_offset e - int k = int (o' * bs - k)"
      using assms(2) False by (simp only: is_entry_def of_nat_diff prod.case)
    ultimately show ?thesis using assms(3,4) False by (simp only: if_False of_nat_less_iff min_def) simp
  qed (use assms(3,4) in simp)
  have "content (k + j) = None" if "j < g" for j
  proof -
    have "k + j < o' * bs" using that assms(4) by linarith
    then show ?thesis using content_entry [OF same_entry [OF assms(1), of "k + j"]] by (simp add: add_mult_distrib)
  qed
  then show "zero_filled content k g = replicate g 0" by (intro zero_filled_none) simp
qed

lemma ReadAt_loop_ok:
  assumes "k \<le> max_off"
  shows "sparse_ReadAt_loop r p (int k) c =
    (let m = min (length p) (extents_end es * bs - k)
     in Some (zero_filled content k m @ drop m p, c + int m, if m < length p then Some EOF else None))"
  using assms
proof (induction "length p" arbitrary: p k c rule: less_induct)
  case less
  let ?E = "extents_end es * bs"
  show ?case
  proof (cases "p = []")
    case True
    then show ?thesis by (subst sparse_ReadAt_loop.simps) (simp add: zero_filled_def)
  next
    case False
    show ?thesis
    proof (cases rule: next_at [of k])
      case none
      with False t_bs show ?thesis
        by (subst sparse_ReadAt_loop.simps) (simp add: zero_filled_def)
    next
      case (entry i o' l d e)
      define g where "g = min (length p) (o' * bs - k)"
      note gap = gap_ok [OF entry(1,3,6) g_def]
      have El: "(o' + l) * bs \<le> ?E" using entry_member(4) [OF entry(1)] by simp
      have k1: "k + g \<le> max_off" using g_def entry(4,5) less.prems by (simp add: add_mult_distrib)
      note step = sparse_ReadAt_loop.simps [of r p "int k" c, unfolded entry(2) Option.bind_lunit option.case Let_def gap(1)]
      show ?thesis
      proof (cases "g = length p")
        case True
        then have "min (length p) (?E - k) = g" using g_def El by (simp add: add_mult_distrib)
        with True step gap False t_bs show ?thesis by (simp add: Let_def)
      next
        case rem: False
        define k1 where "k1 = k + g"
        define q where "q = drop g p"
        define n where "n = min (length q) ((o' + l) * bs - k1)"
        have "g = o' * bs - k" using rem g_def by simp
        moreover have "0 < l * bs" using pos_extent [OF entry_member(1) [OF entry(1)]] t_bs(2) by simp
        ultimately have k1b: "o' * bs \<le> k1" "k1 < (o' + l) * bs"
          using entry(4) unfolding k1_def add_mult_distrib by linarith+
        have y1: "next_entry (k1 div bs) es 0 0 = Some (i, o', l, d)"
          by (rule same_entry [OF entry(1) _ k1b(2)]) (simp add: k1_def)
        note re = read_entry_ok [OF y1 entry(3) k1b(1) n_def]
        have qn: "q \<noteq> []" using rem g_def by (simp add: q_def)
        then have n0: "0 < n" "n \<le> length q" using k1b(2) by (simp_all add: n_def)
        have kn: "k1 + n \<le> max_off" using n_def entry(5) k1b(2) by linarith
        have "length (drop n q) < length p" using n0 qn by (simp add: q_def)
        define m where "m = min (length (drop n q)) (?E - (k1 + n))"
        note IH = less.hyps [OF \<open>length (drop n q) < length p\<close> kn, of "c + int g + int n", unfolded Let_def, folded m_def]
        have off: "s64 (int k + int g) = int k1" "s64 (int k1 + int n) = int (k1 + n)"
          using s64_nat [OF k1] s64_nat [OF kn] by (simp_all add: k1_def)
        have lp: "length p = g + length q" using g_def by (simp add: q_def)
        have "k1 + n \<le> ?E" using n_def k1b(2) El by linarith
        then have m: "min (length p) (?E - k) = g + (n + m)"
          using n0(2) unfolding m_def lp length_drop k1_def by linarith
        have "sparse_ReadAt_loop r p (int k) c =
            Some (replicate g 0 @ zero_filled content k1 n @ zero_filled content (k1 + n) m @ drop m (drop n q),
              c + int g + int n + int m, if m < length (drop n q) then Some EOF else None)"
          unfolding step using False t_bs qn re IH off
          by (simp add: q_def [symmetric] del: of_nat_add length_drop)
        moreover have "zero_filled content k (g + (n + m)) =
            replicate g 0 @ zero_filled content k1 n @ zero_filled content (k1 + n) m"
          by (simp add: zero_filled_append gap(2) k1_def)
        moreover have "drop (g + (n + m)) p = drop m (drop n q)" by (simp add: q_def add.commute add.left_commute)
        moreover have "g + (n + m) < length p \<longleftrightarrow> m < length (drop n q)" unfolding lp using n0(2) by auto
        ultimately show ?thesis unfolding Let_def m by simp
      qed
    qed
  qed
qed


lemma NextData_eval:
  assumes "k \<le> max_off"
  shows "sparse_NextData r (int k) = (case next_data content k of None \<Rightarrow> Some (0, Some EOF) | Some j \<Rightarrow> Some (int j, None))"
proof (cases rule: next_at [of k])
  case none
  have "content j = None" if "k \<le> j" for j
  proof (rule content_None)
    have "extents_end es \<le> j div bs" using none(3) that block_pos(2) [of "extents_end es" j] by linarith
    then show "next_entry (j div bs) es 0 0 = None" by (simp add: next_entry_end)
  qed
  then have "next_data content k = None" unfolding next_data_None by blast
  with none t_bs show ?thesis by (simp add: sparse_NextData_def)
next
  case (entry i o' l d e)
  have off: "e_offset e = int (o' * bs)" using entry(3) by (simp add: is_entry_def)
  have "next_data content k = Some (max k (o' * bs))"
    unfolding next_data_Some
  proof (intro conjI allI impI)
    show "k \<le> max k (o' * bs)" by simp
    have m: "max k (o' * bs) < (o' + l) * bs"
      using entry(4) pos_extent [OF entry_member(1) [OF entry(1)]] t_bs(2) by (simp add: add_mult_distrib)
    then show "content (max k (o' * bs)) \<noteq> None"
      using content_entry [OF same_entry [OF entry(1) _ m]] by simp
  next
    fix j assume "k \<le> j" "j < max k (o' * bs)"
    then have "j < o' * bs" by linarith
    then have "j < (o' + l) * bs" by (simp add: add_mult_distrib)
    from content_entry [OF same_entry [OF entry(1) \<open>k \<le> j\<close> this]] \<open>j < o' * bs\<close> show "content j = None" by simp
  qed
  with entry(2,6) t_bs off show ?thesis by (simp add: sparse_NextData_def max_def del: of_nat_mult)
qed

lemma NextHole_eval:
  assumes "k \<le> max_off"
  shows "sparse_NextHole r (int k) = Some (int (next_hole content k), None)"
  using assms
proof (induction "max_off - k" arbitrary: k rule: less_induct)
  case less
  have bd: "\<forall>j. content j \<noteq> None \<longrightarrow> j < max_off" using content_bounded by blast
  show ?case
  proof (cases rule: next_at [of k])
    case none
    then have "next_hole content k = k" using content_None unfolding next_hole_eq [OF bd] by simp
    with none t_bs show ?thesis by (subst sparse_NextHole.simps) simp
  next
    case (entry i o' l d e)
    show ?thesis
    proof (cases "o' * bs \<le> k")
      case False
      then have "next_hole content k = k" using content_entry [OF entry(1)] unfolding next_hole_eq [OF bd] by simp
      with entry(2,6) False t_bs show ?thesis by (subst sparse_NextHole.simps) simp
    next
      case True
      let ?e = "(o' + l) * bs"
      have e: "s64 (e_offset e + e_length e) = int ?e"
        using s64_nat [OF entry(5)] entry(3) by (simp add: is_entry_def add_mult_distrib)
      have data: "\<forall>j. k \<le> j \<longrightarrow> j < ?e \<longrightarrow> content j \<noteq> None"
        using content_entry [OF same_entry [OF entry(1)]] True by auto
      have "next_hole content ?e = next_hole content k"
      proof -
        have "content (next_hole content ?e) = None \<and> ?e \<le> next_hole content ?e \<and>
            (\<forall>i. ?e \<le> i \<longrightarrow> i < next_hole content ?e \<longrightarrow> content i \<noteq> None)"
          using next_hole_eq [OF bd, of ?e "next_hole content ?e"] by blast
        with data entry(4) show ?thesis
          by (intro sym [OF iffD2 [OF next_hole_eq [OF bd]]]) (meson le_trans less_imp_le_nat not_le)
      qed
      moreover have "max_off - ?e < max_off - k" using entry(4,5) by linarith
      ultimately show ?thesis
        using less.hyps [OF _ entry(5)] entry(2,6) True t_bs e by (subst sparse_NextHole.simps) simp
    qed
  qed
qed

end

sublocale sparse_table \<subseteq> tab: hole_reader_at "sparse_reader_at r" "table_content bs (extents gs) (drop dat f)"
proof (unfold_locales, goal_cases)
  case (1 k)
  then show ?case by (rule content_bounded)
next
  case (2 k j)
  then show ?case by (simp add: sparse_reader_at_def NextData_eval)
next
  case (3 k)
  then show ?case by (simp add: sparse_reader_at_def NextData_eval)
next
  case (4 k)
  then show ?case by (simp add: sparse_reader_at_def NextHole_eval)
next
  case (5 buf k)
  let ?x = "k + (length buf - 1)"
  have kx: "k \<le> max_off"
    using 5 content_bounded [of k] by (auto simp: all_data_def dest!: spec [of _ 0])
  have "content ?x \<noteq> None" using 5 by (auto simp: all_data_def dest!: spec [of _ "length buf - 1"])
  then have "\<not> extents_end es * bs \<le> ?x"
    using content_None [of ?x] block_pos(2) [of "extents_end es" ?x] by (auto simp: next_entry_end)
  moreover have "0 < length buf" using 5(1) by simp
  ultimately have "min (length buf) (extents_end es * bs - k) = length buf" by linarith
  with ReadAt_loop_ok [OF kx, of buf 0] zero_filled_data [OF 5(2)] show ?case
    by (simp add: sparse_reader_at_def sparse_ReadAt_def Let_def)
qed

context sparse_table
begin

lemmas as_hole_reader = tab.hole_reader_at_axioms

end

end
