(* ===== verification/Sparse_File.thy ===== *)
theory Sparse_File
  imports Sparse_Table
begin

text \<open>
  What the builder writes and what \<open>Load\<close> makes of it: the encodings of the entries, the index kept
  by \<open>AddBlocks\<close>, the file \<open>Build\<close> writes, and the table loaded from it.
\<close>

section \<open>Encodings\<close>

lemma le_nat_append: "le_nat (xs @ ys) = le_nat xs + 256 ^ length xs * le_nat ys"
  by (induction xs) (simp_all add: algebra_simps)

lemma take_le_bytes: "m \<le> n \<Longrightarrow> take m (le_bytes n x) = le_bytes m x"
proof (induction m arbitrary: n x)
  case (Suc m)
  then show ?case by (cases n) simp_all
qed simp

lemma and_blockMask: "n AND blockMask = n mod 2 ^ 48"
proof -
  have "n AND mask 48 = n mod 2 ^ 48" by (simp only: take_bit_eq_mask [symmetric] take_bit_eq_mod)
  then show ?thesis by (simp add: blockMask_def mask_eq_exp_minus_1)
qed

lemma length_rangeEntry_marshal: "length (rangeEntry_marshalAppend e []) = 16"
  by (simp add: rangeEntry_marshalAppend_def)

lemma rangeEntry_roundtrip:
  assumes "0 \<le> startOffset e" "startOffset e < 2 ^ 48" "0 \<le> re_dataOffset e" "re_dataOffset e < 2 ^ 48"
    and "0 \<le> numEntries e" "numEntries e < 256"
  shows "rangeEntry_unmarshal e0 (rangeEntry_marshalAppend e []) =
    Some (e0\<lparr>startOffset := startOffset e, re_dataOffset := re_dataOffset e, numEntries := numEntries e\<rparr>)"
proof -
  obtain s where s: "startOffset e = int s" "s < 2 ^ 48" using assms(1,2) by (metis nat_0_le nat_less_iff of_nat_numeral of_nat_power)
  obtain d where d: "re_dataOffset e = int d" "d < 2 ^ 48" using assms(3,4) by (metis nat_0_le nat_less_iff of_nat_numeral of_nat_power)
  obtain n where n: "numEntries e = int n" "n < 256" using assms(5,6) by (metis nat_0_le nat_less_iff of_nat_numeral)
  have us: "uint64 (int s) AND blockMask = s" "uint64 (int d) AND blockMask = d"
    using s d by (simp_all add: and_blockMask uint64_def)
  let ?a = "le_bytes 8 s" and ?b = "le_bytes 8 d"
  have buf: "rangeEntry_marshalAppend e [] = (?a [6 := of_int (int n)]) @ ?b"
    unfolding rangeEntry_marshalAppend_def s(1) d(1) n(1) us by (simp add: list_update_append)
  have "?a [6 := of_int (int n)] = le_bytes 6 s @ of_int (int n) # drop 7 ?a"
    using upd_conv_take_nth_drop [of 6 ?a "of_int (int n)"] take_le_bytes [of 6 8 s] by simp
  then have "le_nat (?a [6 := of_int (int n)]) = s + 2 ^ 48 * le_nat (of_int (int n) # drop 7 ?a)"
    using s(2) by (simp add: le_nat_append le_nat_le_bytes del: le_nat.simps)
  then have "le_nat (?a [6 := of_int (int n)]) mod 2 ^ 48 = s"
    using s(2) by (simp del: le_nat.simps)
  moreover have "le_nat ?b mod 2 ^ 48 = d" using d(2) by (simp add: le_nat_le_bytes)
  moreover have "unat (of_int (int n) :: byte) = n" using n(2) by (simp add: unat_of_nat)
  ultimately show ?thesis
    using s d n by (simp add: rangeEntry_unmarshal_def buf and_blockMask nth_append int64_id)
qed

lemma blockEntry_roundtrip:
  assumes "be_offset e < 2 ^ 16" "lengthType e < 256"
  shows "blockEntry_unmarshal (blockEntry_marshalAppend e []) = Some e"
proof -
  let ?a = "of_nat (be_offset e) :: byte" and ?b = "of_nat (be_offset e div 256) :: byte"
  have ab: "unat ?a = be_offset e mod 256" "unat ?b = be_offset e div 256"
    using assms(1) by (simp_all add: unat_of_nat)
  have "unat ?a OR push_bit 8 (unat ?b) = be_offset e"
  proof -
    have "take_bit 8 (be_offset e) OR push_bit 8 (drop_bit 8 (be_offset e)) = be_offset e"
    proof (rule bit_eqI)
      fix n
      show "bit (take_bit 8 (be_offset e) OR push_bit 8 (drop_bit 8 (be_offset e))) n = bit (be_offset e) n"
        by (cases "n < 8") (auto simp: bit_or_iff bit_take_bit_iff bit_push_bit_iff bit_drop_bit_eq)
    qed
    then show ?thesis unfolding ab by (simp add: take_bit_eq_mod drop_bit_eq_div)
  qed
  moreover have "unat (of_nat (lengthType e) :: byte) = lengthType e" using assms(2) by (simp add: unat_of_nat)
  ultimately show ?thesis
    by (simp add: blockEntry_unmarshal_def blockEntry_marshalAppend_def numeral_2_eq_2)
qed

lemma setLengthType_ok:
  "l \<le> 127 \<Longrightarrow> setLengthType e (int l) EntryType_Data = Some (e\<lparr>lengthType := 2 * l\<rparr>)"
  by (simp add: setLengthType_def maxEntryLength_def EntryType_Data_def push_bit_eq_mult nat_mod_distrib)

section \<open>The index kept by \<open>AddBlocks\<close>\<close>

text \<open>The extents of one call: pieces of at most 127 blocks.\<close>

function chunks :: "nat \<Rightarrow> nat \<Rightarrow> (nat \<times> nat) list" where
  "chunks k l = (if l = 0 then [] else (k, min l 127) # chunks (k + min l 127) (l - min l 127))"
  by pat_completeness auto
termination by (relation "measure snd") auto

declare chunks.simps [simp del]

lemma chunks_0 [simp]: "chunks k 0 = []"
  by (subst chunks.simps) simp

definition add_entry :: "nat \<Rightarrow> nat \<Rightarrow> (nat \<times> (nat \<times> nat) list) list \<Rightarrow> (nat \<times> (nat \<times> nat) list) list" where
  "add_entry k l gs = (case last gs of (s, es) \<Rightarrow>
     if 64 \<le> length es \<or> 2 ^ 16 - 1 < k - s then gs @ [(k, [(0, l)])] else butlast gs @ [(s, es @ [(k - s, l)])])"

fun encode_ranges :: "(nat \<times> (nat \<times> nat) list) list \<Rightarrow> nat \<Rightarrow> rangeEntry list" where
  "encode_ranges [] d = []"
| "encode_ranges ((s, es) # gs) d =
     \<lparr>startOffset = int s, re_dataOffset = int d, numEntries = int (length es), firstEntryIndex = 0\<rparr> #
     encode_ranges gs (d + blocks_in es)"

definition encode_entries :: "(nat \<times> nat) list \<Rightarrow> bytes" where
  "encode_entries es = concat (map (\<lambda>(o', l). blockEntry_marshalAppend \<lparr>be_offset = o', lengthType = 2 * l\<rparr> []) es)"

lemma encode_ranges_append:
  "encode_ranges (as @ bs) d = encode_ranges as d @ encode_ranges bs (d + blocks_in (extents as))"
  by (induction as d rule: encode_ranges.induct)
    (auto simp: extents_Cons extents_def [of "[]"] blocks_in_shift [unfolded map_map] add.assoc)

lemma length_encode_ranges [simp]: "length (encode_ranges gs d) = length gs"
  by (induction gs d rule: encode_ranges.induct) auto

lemma encode_entries_append: "encode_entries (as @ bs) = encode_entries as @ encode_entries bs"
  by (simp add: encode_entries_def)

lemma length_encode_entries: "length (encode_entries es) = 3 * length es"
  by (induction es) (auto simp: encode_entries_def blockEntry_marshalAppend_def)

text \<open>The ranges while a call is under way: the last may still be empty, and then it starts at \<open>k\<close>,
  the next block to enter.\<close>

definition open_ranges :: "(nat \<times> (nat \<times> nat) list) list \<Rightarrow> nat \<Rightarrow> bool" where
  "open_ranges gs k \<longleftrightarrow> gs \<noteq> [] \<and> extents_ok (extents gs) \<and> extents_end (extents gs) \<le> k \<and>
     (\<forall>(s, es)\<in>set (butlast gs). es \<noteq> []) \<and>
     (\<forall>(s, es)\<in>set gs. (es = [] \<longrightarrow> s = k) \<and> (es \<noteq> [] \<longrightarrow> fst (hd es) = 0) \<and> s \<le> k \<and> length es \<le> 64 \<and>
        (\<forall>(o', l)\<in>set es. o' < 2 ^ 16 \<and> l \<le> 127))"

lemma extents_end_append: "extents_end (as @ bs) = max (extents_end as) (extents_end bs)"
  by (induction as rule: extents_end.induct) auto

lemma last_split: "gs \<noteq> [] \<Longrightarrow> last gs = (s, es) \<Longrightarrow> gs = butlast gs @ [(s, es)]"
  by (metis append_butlast_last_id)

lemma extents_add:
  assumes "open_ranges gs k"
  shows "extents (add_entry k l gs) = extents gs @ [(k, l)]"
proof -
  obtain s es where last: "last gs = (s, es)" by fastforce
  have ne: "gs \<noteq> []" using assms by (simp add: open_ranges_def)
  note gs = last_split [OF ne last]
  have "s \<le> k" using assms last last_in_set [OF ne] by (auto simp: open_ranges_def)
  then have "extents (butlast gs @ [(s, es @ [(k - s, l)])]) = extents (butlast gs @ [(s, es)]) @ [(k, l)]"
    by (simp add: extents_append extents_Cons extents_def [of "[]"])
  then show ?thesis
    using gs by (simp add: add_entry_def last extents_append extents_Cons extents_def [of "[]"])
qed

lemma extents_ok_snoc: "extents_ok es \<Longrightarrow> extents_end es \<le> k \<Longrightarrow> 0 < l \<Longrightarrow> extents_ok (es @ [(k, l)])"
  by (auto simp: extents_ok_def sorted_wrt_append extents_end_le)

lemma open_add:
  assumes "open_ranges gs k" "0 < l" "l \<le> 127"
  shows "open_ranges (add_entry k l gs) (k + l)" "\<forall>(s, es)\<in>set (add_entry k l gs). es \<noteq> []"
proof -
  obtain s es where last: "last gs = (s, es)" by fastforce
  have ne: "gs \<noteq> []" using assms(1) by (simp add: open_ranges_def)
  note gs = last_split [OF ne last]
  have bl: "\<forall>(s, es)\<in>set (butlast gs). es \<noteq> []"
    and all: "\<And>s es. (s, es) \<in> set gs \<Longrightarrow> (es = [] \<longrightarrow> s = k) \<and> (es \<noteq> [] \<longrightarrow> fst (hd es) = 0) \<and> s \<le> k \<and> length es \<le> 64 \<and>
        (\<forall>(o', l)\<in>set es. o' < 2 ^ 16 \<and> l \<le> 127)"
    using assms(1) by (auto simp: open_ranges_def)
  have s: "(es = [] \<longrightarrow> s = k) \<and> (es \<noteq> [] \<longrightarrow> fst (hd es) = 0) \<and> s \<le> k \<and> length es \<le> 64 \<and>
        (\<forall>(o', l)\<in>set es. o' < 2 ^ 16 \<and> l \<le> 127)"
    using all last last_in_set [OF ne] by metis
  have ext: "extents_ok (extents (add_entry k l gs))" "extents_end (extents (add_entry k l gs)) \<le> k + l"
    unfolding extents_add [OF assms(1)] using assms
    by (auto simp: open_ranges_def extents_end_append intro: extents_ok_snoc)
  show all_ne: "\<forall>(s, es)\<in>set (add_entry k l gs). es \<noteq> []"
  proof (cases "64 \<le> length es \<or> 2 ^ 16 - 1 < k - s")
    case True
    then have "es \<noteq> []" using s by auto
    then have "\<forall>(s, es)\<in>set gs. es \<noteq> []" using bl by (subst gs) auto
    with True show ?thesis by (simp add: add_entry_def last)
  next
    case False
    with bl show ?thesis by (simp add: add_entry_def last)
  qed
  have "add_entry k l gs \<noteq> []" by (simp add: add_entry_def last)
  moreover have "fst (hd es') = 0 \<and> s' \<le> k + l \<and> length es' \<le> 64 \<and> (\<forall>(o', l)\<in>set es'. o' < 2 ^ 16 \<and> l \<le> 127)"
    if m: "(s', es') \<in> set (add_entry k l gs)" for s' es'
  proof -
    have ne': "es' \<noteq> []" using all_ne m by blast
    consider "(s', es') \<in> set gs" | "s' = k" "es' = [(0, l)]"
      | "s' = s" "es' = es @ [(k - s, l)]" "length es < 64" "k - s \<le> 2 ^ 16 - 1"
      using m by (auto simp: add_entry_def last split: if_splits dest: in_set_butlastD)
    then show ?thesis
    proof cases
      case 1
      from all [OF 1] ne' show ?thesis by auto
    next
      case 2
      with assms show ?thesis by simp
    next
      case 3
      with s assms show ?thesis by (cases es) auto
    qed
  qed
  ultimately show "open_ranges (add_entry k l gs) (k + l)"
    unfolding open_ranges_def using ext all_ne by (fastforce dest: in_set_butlastD)
qed

text \<open>The state of a builder whose index is \<open>gs\<close>.\<close>

definition builder_index :: "('w, 'r) Builder \<Rightarrow> (nat \<times> (nat \<times> nat) list) list \<Rightarrow> bool" where
  "builder_index b gs \<longleftrightarrow> ranges b = encode_ranges gs 0 \<and> blockEntryBuf b = encode_entries (concat (map snd gs)) \<and>
     b_dataOffset b = int (blocks_in (extents gs))"

lemma add_step:
  assumes b: "builder_index b gs" and gs: "open_ranges gs k" and l: "l \<le> 127" and k: "k \<le> max_off"
  defines "b1 \<equiv> (if numEntries (last (ranges b)) \<ge> maxRangeEntries \<or> s64 (int k - startOffset (last (ranges b))) > 2 ^ 16 - 1
          then b\<lparr>ranges := ranges b @ [\<lparr>startOffset = int k, re_dataOffset = b_dataOffset b,
                    numEntries = 0, firstEntryIndex = 0\<rparr>]\<rparr>
          else b)"
  shows "\<exists>be. setLengthType \<lparr>be_offset = nat (s64 (int k - startOffset (last (ranges b1))) mod 2 ^ 16), lengthType = 0\<rparr>
        (int l) EntryType_Data = Some be \<and>
     builder_index (b1\<lparr>blockEntryBuf := blockEntry_marshalAppend be (blockEntryBuf b1),
             ranges := butlast (ranges b1) @ [(last (ranges b1))\<lparr>numEntries := numEntries (last (ranges b1)) + 1\<rparr>],
             b_dataOffset := b_dataOffset b1 + int l\<rparr>) (add_entry k l gs)"
proof -
  obtain s es where last: "last gs = (s, es)" by fastforce
  have ne: "gs \<noteq> []" using gs by (simp add: open_ranges_def)
  note sp = last_split [OF ne last]
  have sk: "s \<le> k" using gs last last_in_set [OF ne] by (auto simp: open_ranges_def)
  let ?B = "butlast gs"
  have rb: "ranges b = encode_ranges ?B 0 @ [\<lparr>startOffset = int s, re_dataOffset = int (blocks_in (extents ?B)),
      numEntries = int (length es), firstEntryIndex = 0\<rparr>]"
    using b unfolding builder_index_def by (subst (asm) sp) (simp add: encode_ranges_append)
  have ks: "int k - int s = int (k - s)" "s64 (int (k - s)) = int (k - s)"
    using sk s64_nat [of "k - s"] k by (simp_all add: of_nat_diff)
  have ext: "extents gs = extents ?B @ map (\<lambda>(o', l). (s + o', l)) es"
    by (subst sp) (simp add: extents_append extents_Cons extents_def [of "[]"])
  have cat: "concat (map snd gs) = concat (map snd ?B) @ es" by (subst sp) simp
  have bd: "b_dataOffset b = int (blocks_in (extents gs))" "blockEntryBuf b = encode_entries (concat (map snd gs))"
    "ranges b = encode_ranges gs 0"
    using b by (simp_all add: builder_index_def)
  have app: "blockEntry_marshalAppend e xs = xs @ blockEntry_marshalAppend e []" for e xs
    by (simp add: blockEntry_marshalAppend_def)
  have cond: "(numEntries (last (ranges b)) \<ge> maxRangeEntries \<or> s64 (int k - startOffset (last (ranges b))) > 2 ^ 16 - 1) \<longleftrightarrow>
      64 \<le> length es \<or> 2 ^ 16 - 1 < k - s"
    by (auto simp: rb ks maxRangeEntries_def)
  show ?thesis
  proof (cases "64 \<le> length es \<or> 2 ^ 16 - 1 < k - s")
    case True
    then have b1: "b1 = b\<lparr>ranges := ranges b @ [\<lparr>startOffset = int k, re_dataOffset = b_dataOffset b,
                    numEntries = 0, firstEntryIndex = 0\<rparr>]\<rparr>" unfolding b1_def cond by simp
    have "add_entry k l gs = gs @ [(k, [(0, l)])]" using True by (simp add: add_entry_def last)
    then show ?thesis
      unfolding b1 using setLengthType_ok [OF l]
      by (simp add: builder_index_def s64_id bd encode_ranges_append encode_entries_append extents_append extents_Cons
          extents_def [of "[]"] app [of _ "encode_entries _"] encode_entries_def [of "[_]"])
  next
    case False
    then have b1: "b1 = b" unfolding b1_def cond by simp
    have "add_entry k l gs = ?B @ [(s, es @ [(k - s, l)])]" using False by (simp add: add_entry_def last)
    moreover have "nat (int (k - s) mod 2 ^ 16) = k - s" using False by (simp add: nat_mod_distrib)
    ultimately show ?thesis
      unfolding b1 using setLengthType_ok [OF l] bd(1)
      by (simp add: builder_index_def rb ks bd(2) cat ext encode_ranges_append encode_entries_append extents_append extents_Cons
          extents_def [of "[]"] app [of _ "encode_entries _"] app [of _ "encode_entries _ @ _"] encode_entries_def [of "[_]"]
          blocks_in_shift [unfolded map_map])
  qed
qed

definition same_frame :: "('w, 'r) Builder \<Rightarrow> ('w, 'r) Builder \<Rightarrow> bool" where
  "same_frame b b' \<longleftrightarrow> b_w b' = b_w b \<and> b_blockSize b' = b_blockSize b \<and> entries b' = entries b \<and>
     totalBlocks b' = totalBlocks b \<and> totalDataBlocks b' = totalDataBlocks b \<and> prevEnd b' = prevEnd b"

lemma AddBlocks_loop_ok:
  assumes "builder_index b gs" "open_ranges gs (off + e)" "e \<le> len" "off + len \<le> max_off"
  shows "\<exists>b' gs'. AddBlocks_loop (int off) (int len) (int e) b = Some b' \<and> builder_index b' gs' \<and>
    open_ranges gs' (off + len) \<and> extents gs' = extents gs @ chunks (off + e) (len - e) \<and>
    (e < len \<or> (\<forall>(s, es)\<in>set gs. es \<noteq> []) \<longrightarrow> (\<forall>(s, es)\<in>set gs'. es \<noteq> [])) \<and>
    same_frame b b'"
  using assms
proof (induction "len - e" arbitrary: e b gs rule: less_induct)
  case less
  show ?case
  proof (cases "e < len")
    case False
    with less.prems show ?thesis by (subst AddBlocks_loop.simps) (auto simp: same_frame_def)
  next
    case True
    define l where "l = min (len - e) 127"
    have l: "0 < l" "l \<le> 127" "e + l \<le> len" using True by (auto simp: l_def)
    have k: "off + e \<le> max_off" using less.prems(4) True by linarith
    have bo: "s64 (int off + int e) = int (off + e)" using s64_nat [OF k] by simp
    have el: "eLen_of (int len) (int e) = int l" using True by (auto simp: eLen_of_def maxEntryLength_def l_def of_nat_diff)
    from add_step [OF less.prems(1,2) l(2) k] obtain b1 be where
      b1: "b1 = (if numEntries (last (ranges b)) \<ge> maxRangeEntries \<or> s64 (int (off + e) - startOffset (last (ranges b))) > 2 ^ 16 - 1
          then b\<lparr>ranges := ranges b @ [\<lparr>startOffset = int (off + e), re_dataOffset = b_dataOffset b,
                    numEntries = 0, firstEntryIndex = 0\<rparr>]\<rparr>
          else b)"
      and be: "setLengthType \<lparr>be_offset = nat (s64 (int (off + e) - startOffset (last (ranges b1))) mod 2 ^ 16), lengthType = 0\<rparr>
        (int l) EntryType_Data = Some be" by blast
    let ?b = "b1\<lparr>blockEntryBuf := blockEntry_marshalAppend be (blockEntryBuf b1),
             ranges := butlast (ranges b1) @ [(last (ranges b1))\<lparr>numEntries := numEntries (last (ranges b1)) + 1\<rparr>],
             b_dataOffset := b_dataOffset b1 + int l\<rparr>"
    have bi: "builder_index ?b (add_entry (off + e) l gs)"
      using add_step [OF less.prems(1,2) l(2) k, folded b1] be by auto
    have step: "AddBlocks_loop (int off) (int len) (int e) b = AddBlocks_loop (int off) (int len) (int (e + l)) ?b"
      using True be AddBlocks_loop.simps [of "int off" "int len" "int e" b, unfolded bo el Let_def, folded b1] by simp
    note op = open_add [OF less.prems(2) l(1,2)]
    have keep: "same_frame b b1" using b1 by (simp add: same_frame_def)
    have "len - (e + l) < len - e" using l True by linarith
    from less.hyps [OF this bi _ l(3) less.prems(4)] op obtain b' gs' where
      IH: "AddBlocks_loop (int off) (int len) (int (e + l)) ?b = Some b'" "builder_index b' gs'" "open_ranges gs' (off + len)"
        "extents gs' = extents (add_entry (off + e) l gs) @ chunks (off + (e + l)) (len - (e + l))"
        "\<forall>(s, es)\<in>set gs'. es \<noteq> []"
        "same_frame ?b b'"
      by (auto simp: add.assoc)
    have "chunks (off + e) (len - e) = (off + e, l) # chunks (off + (e + l)) (len - (e + l))"
      using True by (subst chunks.simps) (simp add: l_def add.assoc)
    moreover have "same_frame b b'" using IH(6) keep by (simp add: same_frame_def)
    ultimately show ?thesis
      using IH(1-5) step extents_add [OF less.prems(2), of l] by auto
  qed
qed

text \<open>A builder after the calls \<open>adds\<close>, each an offset, a length in blocks and a reader.\<close>

definition add_extents :: "(nat \<times> nat \<times> 'r) list \<Rightarrow> (nat \<times> nat) list" where
  "add_extents adds = map (\<lambda>(o', l, r). (o', l)) adds"

definition all_chunks :: "(nat \<times> nat) list \<Rightarrow> (nat \<times> nat) list" where
  "all_chunks es = concat (map (\<lambda>(o', l). chunks o' l) es)"

definition builder_ok :: "('w, 'r) Builder \<Rightarrow> (nat \<times> (nat \<times> nat) list) list \<Rightarrow> (nat \<times> nat \<times> 'r) list \<Rightarrow> bool" where
  "builder_ok b gs adds \<longleftrightarrow> builder_index b gs \<and> extents gs = all_chunks (add_extents adds) \<and>
     entries b = map (\<lambda>(o', l, r). \<lparr>ie_offset = int o', ie_length = int l, ie_r = r, ie_eType = EntryType_Data\<rparr>) adds \<and>
     totalBlocks b = int (blocks_in (add_extents adds)) \<and> totalDataBlocks b = int (blocks_in (add_extents adds)) \<and>
     0 \<le> prevEnd b \<and> (if adds = [] then gs = [] else open_ranges gs (nat (prevEnd b)) \<and> (\<forall>(s, es)\<in>set gs. es \<noteq> []))"

lemma builder_new: "builder_ok (NewBuilder w bs) [] []"
  by (simp add: builder_ok_def NewBuilder_def builder_index_def extents_def all_chunks_def add_extents_def encode_entries_def)

lemma blocks_in_chunks: "blocks_in (chunks k l) = l"
  by (induction k l rule: chunks.induct) (subst chunks.simps, simp)

lemma blocks_in_all_chunks: "blocks_in (all_chunks es) = blocks_in es"
  by (induction es) (auto simp: all_chunks_def blocks_in_chunks)

lemma open_later:
  assumes "open_ranges gs k" "\<forall>(s, es)\<in>set gs. es \<noteq> []" "k \<le> k'"
  shows "open_ranges gs k'"
  using assms unfolding open_ranges_def by (fastforce dest: in_set_butlastD)

lemma open_first: "open_ranges [(k, [])] k"
  by (simp add: open_ranges_def extents_def extents_ok_def)

lemma AddBlocks_ok:
  assumes b: "builder_ok b gs adds" and o': "prevEnd b \<le> int o'" "o' + l \<le> max_off"
    and l: "0 < l" "int (blocks_in (add_extents adds) + l) \<le> MaxBlocks"
  shows "\<exists>b' gs'. AddBlocks b (int o') (int l) r = Some b' \<and> builder_ok b' gs' (adds @ [(o', l, r)]) \<and>
    prevEnd b' = int (o' + l) \<and> b_w b' = b_w b \<and> b_blockSize b' = b_blockSize b"
proof -
  let ?e = "\<lparr>ie_offset = int o', ie_length = int l, ie_r = r, ie_eType = EntryType_Data\<rparr>"
  let ?b = "b\<lparr>entries := entries b @ [?e]\<rparr>"
  let ?b1 = "if ranges ?b = [] then ?b\<lparr>ranges := [\<lparr>startOffset = int o', re_dataOffset = 0,
                   numEntries = 0, firstEntryIndex = 0\<rparr>]\<rparr> else ?b"
  define gs1 where "gs1 = (if gs = [] then [(o', [])] else gs)"
  have bi: "builder_index b gs" using b by (simp add: builder_ok_def)
  have "length (ranges b) = length gs" using bi by (simp add: builder_index_def)
  then have rg: "ranges ?b = [] \<longleftrightarrow> gs = []" by auto
  have dat: "b_dataOffset b = int (blocks_in (add_extents adds))"
    using b by (simp add: builder_ok_def builder_index_def blocks_in_all_chunks)
  have bi1: "builder_index ?b1 gs1"
    using bi rg unfolding gs1_def by (auto simp: builder_index_def extents_def encode_entries_def)
  have op1: "open_ranges gs1 (o' + 0)" "extents gs1 = extents gs"
  proof -
    show "open_ranges gs1 (o' + 0)"
    proof (cases "gs = []")
      case True
      then show ?thesis by (simp add: gs1_def open_first)
    next
      case False
      then have "adds \<noteq> []" using b by (auto simp: builder_ok_def)
      then have "open_ranges gs (nat (prevEnd b))" "\<forall>(s, es)\<in>set gs. es \<noteq> []" "nat (prevEnd b) \<le> o'"
        using b o'(1) by (simp_all add: builder_ok_def)
      from open_later [OF this] False show ?thesis by (simp add: gs1_def)
    qed
    show "extents gs1 = extents gs" by (simp add: gs1_def extents_def)
  qed
  from AddBlocks_loop_ok [OF bi1 op1(1) _ o'(2)] l(1) obtain b' gs' where
    r: "AddBlocks_loop (int o') (int l) (int 0) ?b1 = Some b'" "builder_index b' gs'" "open_ranges gs' (o' + l)"
      "extents gs' = extents gs1 @ chunks (o' + 0) (l - 0)" "\<forall>(s, es)\<in>set gs'. es \<noteq> []" "same_frame ?b1 b'"
    by auto
  let ?r = "b'\<lparr>prevEnd := s64 (int o' + int l), totalBlocks := totalBlocks b' + int l, totalDataBlocks := totalDataBlocks b' + int l\<rparr>"
  have pe: "s64 (int o' + int l) = int (o' + l)" using s64_nat [OF o'(2)] by simp
  have "AddBlocks b (int o') (int l) r = Some ?r"
    using r(1) o' l dat by (auto simp: AddBlocks_def Let_def)
  moreover have "builder_ok ?r gs' (adds @ [(o', l, r)])"
    using b r(2-6) op1(2) pe unfolding builder_ok_def
    by (auto simp: same_frame_def builder_index_def add_extents_def all_chunks_def nat_int_add split: if_splits)
  moreover have "b_w ?r = b_w b" "b_blockSize ?r = b_blockSize b" using r(6) by (simp_all add: same_frame_def)
  moreover have "prevEnd ?r = int (o' + l)" using pe by simp
  ultimately show ?thesis by blast
qed

section \<open>Loading\<close>

text \<open>The ranges as \<open>Load\<close> leaves them, with the index of their first entry.\<close>

fun decode_ranges :: "(nat \<times> (nat \<times> nat) list) list \<Rightarrow> nat \<Rightarrow> nat \<Rightarrow> rangeEntry list" where
  "decode_ranges [] d c = []"
| "decode_ranges ((s, es) # gs) d c =
     \<lparr>startOffset = int s, re_dataOffset = int d, numEntries = int (length es), firstEntryIndex = int c\<rparr> #
     decode_ranges gs (d + blocks_in es) (c + length es)"

lemma length_decode_ranges [simp]: "length (decode_ranges gs d c) = length gs"
  by (induction gs d c rule: decode_ranges.induct) auto

lemma nth_decode_ranges:
  "i < length gs \<Longrightarrow> decode_ranges gs d c ! i = \<lparr>startOffset = int (fst (gs ! i)),
     re_dataOffset = int (d + blocks_in (entries_before gs i)), numEntries = int (length (snd (gs ! i))),
     firstEntryIndex = int (c + length (entries_before gs i))\<rparr>"
proof (induction gs d c arbitrary: i rule: decode_ranges.induct)
  case (2 s es gs d c)
  then show ?case by (cases i) (auto simp: entries_before_def)
qed simp

definition range_bytes :: "(nat \<times> (nat \<times> nat) list) list \<Rightarrow> nat \<Rightarrow> bytes" where
  "range_bytes gs d = concat (map (\<lambda>e. rangeEntry_marshalAppend e []) (encode_ranges gs d))"

lemma range_bytes_Cons: "range_bytes ((s, es) # gs) d =
    rangeEntry_marshalAppend \<lparr>startOffset = int s, re_dataOffset = int d, numEntries = int (length es), firstEntryIndex = 0\<rparr> [] @
    range_bytes gs (d + blocks_in es)"
  by (simp add: range_bytes_def)

lemma length_range_bytes: "length (range_bytes gs d) = 16 * length gs"
  by (induction gs arbitrary: d) (auto simp: range_bytes_Cons length_rangeEntry_marshal range_bytes_def [of "[]"])

lemma parse_ranges_ok:
  assumes "\<forall>(s, es)\<in>set gs. s < 2 ^ 48 \<and> length es < 256" "d + blocks_in (extents gs) \<le> 2 ^ 48" "\<forall>(s, es)\<in>set gs. 0 < blocks_in es"
    and "length pre = 16 * i"
  shows "parse_ranges (length gs) (pre @ range_bytes gs d) (int c) i 16 = Some (decode_ranges gs d c)"
  using assms
proof (induction gs arbitrary: d c i pre)
  case (Cons g gs)
  obtain s es where g: "g = (s, es)" by fastforce
  let ?re = "\<lparr>startOffset = int s, re_dataOffset = int d, numEntries = int (length es), firstEntryIndex = 0\<rparr>"
  let ?m = "rangeEntry_marshalAppend ?re []"
  have lm: "length ?m = 16" by (rule length_rangeEntry_marshal)
  have ext: "blocks_in (extents ((s, es) # gs)) = blocks_in es + blocks_in (extents gs)"
    by (simp add: extents_Cons blocks_in_shift [unfolded map_map])
  have dl: "d + blocks_in es + blocks_in (extents gs) \<le> 2 ^ 48" using Cons.prems(2) unfolding g ext by simp
  have "0 < blocks_in es" using Cons.prems(3) g by simp
  then have ds: "d < 2 ^ 48" using dl by linarith
  have un: "rangeEntry_unmarshal \<lparr>startOffset = 0, re_dataOffset = 0, numEntries = 0, firstEntryIndex = int c\<rparr> ?m =
      Some \<lparr>startOffset = int s, re_dataOffset = int d, numEntries = int (length es), firstEntryIndex = int c\<rparr>"
    using rangeEntry_roundtrip [of ?re] Cons.prems(1) g ds by simp
  have sl: "slice (pre @ range_bytes (g # gs) d) (int (i * 16)) (int (i * 16 + 16)) = Some ?m"
    using slice_nat [of "i * 16" "i * 16 + 16" "pre @ range_bytes (g # gs) d"] Cons.prems(4) lm
    by (simp add: g range_bytes_Cons)
  have "parse_ranges (length gs) ((pre @ ?m) @ range_bytes gs (d + blocks_in es)) (int (c + length es)) (Suc i) 16 =
      Some (decode_ranges gs (d + blocks_in es) (c + length es))"
    by (rule Cons.IH) (use Cons.prems dl lm in auto)
  then have "parse_ranges (length gs) (pre @ range_bytes (g # gs) d) (int c + int (length es)) (Suc i) 16 =
      Some (decode_ranges gs (d + blocks_in es) (c + length es))"
    by (simp add: g range_bytes_Cons)
  then show ?case using sl un by (simp add: g)
qed simp

lemma nth_encode_entries:
  "j < length es \<Longrightarrow> take 3 (drop (3 * j) (encode_entries es)) =
    blockEntry_marshalAppend \<lparr>be_offset = fst (es ! j), lengthType = 2 * snd (es ! j)\<rparr> []"
proof (induction es arbitrary: j)
  case (Cons e es)
  obtain a l where e: "e = (a, l)" by fastforce
  show ?case
  proof (cases j)
    case 0
    then show ?thesis by (simp add: e encode_entries_def blockEntry_marshalAppend_def)
  next
    case (Suc j')
    have "drop (3 * j) (encode_entries (e # es)) = drop (3 * j') (encode_entries es)"
      by (simp add: Suc e encode_entries_def blockEntry_marshalAppend_def)
    with Cons Suc show ?thesis by simp
  qed
qed simp

definition table_image :: "bytes \<Rightarrow> (nat \<times> (nat \<times> nat) list) list \<Rightarrow> bytes \<Rightarrow> bytes" where
  "table_image hdr gs D = sparse_Magic @ le_bytes 4 (length hdr) @ hdr @ range_bytes gs 0 @
     encode_entries (concat (map snd gs)) @ D"

definition table_header :: "nat \<Rightarrow> (nat \<times> (nat \<times> nat) list) list \<Rightarrow> nat \<Rightarrow> sparse_Header" where
  "table_header bs gs e = \<lparr>Version = 1, BlockSize = bs, NumRangeEntries = length gs, RangeEntrySize = 16,
     NumBlockEntries = length (extents gs), BlockEntrySize = 3, TotalBlocks = blocks_in (extents gs),
     TotalDataBlocks = blocks_in (extents gs), EndBlock = e\<rparr>"

definition data_start :: "bytes \<Rightarrow> (nat \<times> (nat \<times> nat) list) list \<Rightarrow> nat" where
  "data_start hdr gs = 20 + length hdr + (16 * length gs + 3 * length (extents gs))"

definition loaded :: "ReaderAt \<Rightarrow> sparse_Header \<Rightarrow> bytes \<Rightarrow> (nat \<times> (nat \<times> nat) list) list \<Rightarrow> sparse_Reader" where
  "loaded R h hdr gs = \<lparr>sr_r = R, sr_header = h, sr_dataOffset = int (data_start hdr gs),
     sr_ranges = decode_ranges gs 0 0, sr_entryBuf = encode_entries (concat (map snd gs))\<rparr>"

lemma length_sparse_Magic: "length sparse_Magic = 16"
  by (simp add: sparse_Magic_def)

text \<open>The limits of the format: 48-bit block numbers, and 32-bit sizes of the two parts of the index.\<close>

definition index_fits :: "(nat \<times> (nat \<times> nat) list) list \<Rightarrow> bool" where
  "index_fits gs \<longleftrightarrow> (\<forall>(s, es)\<in>set gs. s < 2 ^ 48) \<and> blocks_in (extents gs) \<le> 2 ^ 48 \<and>
     16 * length gs < 2 ^ 32 \<and> 3 * length (extents gs) < 2 ^ 32"

lemma range_small:
  assumes "open_ranges gs k" "\<forall>(s, es)\<in>set gs. es \<noteq> []"
  shows "ranges_ok gs" "\<forall>(s, es)\<in>set gs. length es < 256" "\<forall>(s, es)\<in>set gs. 0 < blocks_in es"
    "\<forall>(o', l)\<in>set (concat (map snd gs)). o' < 2 ^ 16 \<and> 2 * l < 256"
proof -
  show r: "ranges_ok gs" using assms by (auto simp: open_ranges_def ranges_ok_def)
  show "\<forall>(s, es)\<in>set gs. length es < 256" using assms(1) by (fastforce simp: open_ranges_def)
  show "\<forall>(o', l)\<in>set (concat (map snd gs)). o' < 2 ^ 16 \<and> 2 * l < 256"
    using assms(1) by (fastforce simp: open_ranges_def)
  show "\<forall>(s, es)\<in>set gs. 0 < blocks_in es"
  proof clarify
    fix s es assume g: "(s, es) \<in> set gs"
    then obtain i where i: "i < length gs" "gs ! i = (s, es)" by (metis in_set_conv_nth)
    obtain a l es' where es: "es = (a, l) # es'" using assms(2) g by (cases es) auto
    have "(s + a, l) \<in> set (extents gs)" using extents_member [of i gs a l] i es by simp
    with r have "0 < l" by (auto simp: ranges_ok_def extents_ok_def)
    then show "0 < blocks_in es" by (simp add: es)
  qed
qed

context reader_at
begin

lemma read_part:
  assumes "f = pre @ mid @ post" "post \<noteq> []" "length mid = n"
  shows "R (replicate n 0) (int (length pre)) = Some (mid, int n, None)"
  using read_before_end [of "length pre" "replicate n 0"] assms by simp

lemma Load_ok:
  assumes f: "f = table_image hdr gs D" and D: "D \<noteq> []" and hdr: "proto_Unmarshal P hdr = Inr (table_header bs gs e)" "length hdr < 2 ^ 31"
    and bs: "512 \<le> bs" "bs \<le> 1024 * 1024"
    and gs: "open_ranges gs k" "\<forall>(s, es)\<in>set gs. es \<noteq> []" "index_fits gs"
  shows "sparse_Load P R = Some (Some (loaded R (table_header bs gs e) hdr gs), None)"
proof -
  let ?m = "sparse_Magic @ le_bytes 4 (length hdr)" and ?rb = "range_bytes gs 0"
  let ?eb = "encode_entries (concat (map snd gs))"
  have ne: "gs \<noteq> []" "extents gs \<noteq> []"
  proof -
    show n: "gs \<noteq> []" using gs(1) by (simp add: open_ranges_def)
    then show "extents gs \<noteq> []" using gs(2) by (cases gs) (auto simp: extents_Cons)
  qed
  have le: "length ?eb = 3 * length (extents gs)" by (simp add: length_encode_entries extents_size)
  have lr: "length ?rb = 16 * length gs" by (rule length_range_bytes)
  have r1: "R (replicate 20 0) 0 = Some (?m, 20, None)"
    using read_part [of "[]" ?m "hdr @ ?rb @ ?eb @ D" 20] f D by (simp add: table_image_def length_sparse_Magic)
  have r2: "R (replicate (length hdr) 0) 20 = Some (hdr, int (length hdr), None)"
    using read_part [of ?m hdr "?rb @ ?eb @ D" "length hdr"] f D by (simp add: table_image_def length_sparse_Magic)
  have r3: "R (replicate (16 * length gs) 0) (int (20 + length hdr)) = Some (?rb, int (16 * length gs), None)"
    using read_part [of "?m @ hdr" ?rb "?eb @ D", OF _ _ lr] f D by (simp add: table_image_def length_sparse_Magic)
  have r4: "R (replicate (3 * length (extents gs)) 0) (int (20 + length hdr + 16 * length gs)) = Some (?eb, int (3 * length (extents gs)), None)"
    using read_part [of "?m @ hdr @ ?rb" ?eb D, OF _ D le] f lr by (simp add: table_image_def length_sparse_Magic add.assoc)
  have hs: "le_nat (le_bytes 4 (length hdr)) = length hdr" using hdr(2) by (simp add: le_nat_le_bytes)
  have pr: "parse_ranges (length gs) ?rb 0 0 16 = Some (decode_ranges gs 0 0)"
  proof -
    have "\<forall>(s, es)\<in>set gs. s < 2 ^ 48 \<and> length es < 256"
      using gs(3) range_small(2) [OF gs(1,2)] by (fastforce simp: index_fits_def)
    from parse_ranges_ok [OF this, of 0 "[]" 0 0] gs(3) range_small(3) [OF gs(1,2)] show ?thesis
      by (simp add: index_fits_def)
  qed
  have fits: "length gs * 16 mod 2 ^ 32 = 16 * length gs" "length (extents gs) * 3 mod 2 ^ 32 = 3 * length (extents gs)"
    using gs(3) by (auto simp: index_fits_def)
  show ?thesis
    using r1 r2 r3 r4 hs pr fits ne bs hdr(1)
    by (simp add: sparse_Load_def sparse_readIndex_def length_sparse_Magic table_header_def Let_def loaded_def data_start_def)
qed


lemma loaded_table:
  assumes f: "f = table_image hdr gs D" "length f \<le> max_off" and D: "length D = blocks_in (extents gs) * bs"
    and gs: "open_ranges gs k" "\<forall>(s, es)\<in>set gs. es \<noteq> []" "k * bs \<le> max_off" and bs: "0 < bs"
  shows "sparse_table R f (loaded R (table_header bs gs e) hdr gs) gs bs (data_start hdr gs)" "drop (data_start hdr gs) f = D"
proof -
  let ?r = "loaded R (table_header bs gs e) hdr gs"
  let ?es = "concat (map snd gs)"
  have le: "length (encode_entries ?es) = 3 * length (extents gs)" by (simp add: length_encode_entries extents_size)
  have len: "length f = data_start hdr gs + length D"
    using f(1) le by (simp add: table_image_def data_start_def length_sparse_Magic length_range_bytes)
  show "drop (data_start hdr gs) f = D"
    using f(1) le by (simp add: table_image_def data_start_def length_sparse_Magic length_range_bytes)
  have ends: "\<forall>e\<in>set (extents gs). fst e + snd e \<le> k" using gs(1) by (simp add: open_ranges_def extents_end_le)
  have "parseBlockEntry ?r (int j) = Some \<lparr>be_offset = fst (?es ! j), lengthType = 2 * snd (?es ! j)\<rparr>" if j: "j < length ?es" for j
  proof -
    have sm: "fst (?es ! j) < 2 ^ 16 \<and> 2 * snd (?es ! j) < 256"
      using bspec [OF range_small(4) [OF gs(1,2)] nth_mem [OF j]] by (simp add: case_prod_beta)
    have "slice (encode_entries ?es) (int (3 * j)) (int (3 * j + 3)) =
        Some (blockEntry_marshalAppend \<lparr>be_offset = fst (?es ! j), lengthType = 2 * snd (?es ! j)\<rparr> [])"
      using slice_nat [of "3 * j" "3 * j + 3" "encode_entries ?es"] j nth_encode_entries [OF j]
      by (simp add: length_encode_entries)
    with sm show ?thesis
      by (simp add: parseBlockEntry_def loaded_def table_header_def Let_def blockEntry_roundtrip mult.commute [of "int j" 3])
  qed
  then have "index_ok ?r gs" by (simp add: index_ok_def loaded_def nth_decode_ranges)
  then show "sparse_table R f ?r gs bs (data_start hdr gs)"
  proof (unfold_locales, goal_cases)
    case (9 o' l)
    with ends have "o' + l \<le> k" by force
    then have "(o' + l) * bs \<le> k * bs" by simp
    with gs(3) show ?case by linarith
  qed (use bs len D f(2) range_small(1) [OF gs(1,2)] in \<open>auto simp: loaded_def table_header_def\<close>)
qed

end

section \<open>The contents of a built table\<close>

text \<open>The number of the data block that holds block \<open>k\<close>.\<close>

fun data_block :: "nat \<Rightarrow> (nat \<times> nat) list \<Rightarrow> nat \<Rightarrow> nat option" where
  "data_block k [] d = None"
| "data_block k ((o', l) # es) d =
     (if k < o' + l then (if o' \<le> k then Some (d + (k - o')) else None) else data_block k es (d + l))"

lemma data_block_next: "data_block k es d =
    (case next_entry k es i d of None \<Rightarrow> None | Some (j, o', l, d') \<Rightarrow> if o' \<le> k then Some (d' + (k - o')) else None)"
  by (induction k es d arbitrary: i rule: data_block.induct) auto

lemma table_content_block:
  assumes "0 < bs"
  shows "table_content bs es D x = map_option (\<lambda>b. D ! (b * bs + x mod bs)) (data_block (x div bs) es 0)"
proof (cases "next_entry (x div bs) es 0 0")
  case (Some y)
  obtain j o' l d where y: "y = (j, o', l, d)" by (metis prod_cases4)
  have "d * bs + (x - o' * bs) = (d + (x div bs - o')) * bs + x mod bs" if o': "o' \<le> x div bs"
  proof -
    have "x div bs * bs + x mod bs = x" "o' * bs \<le> x div bs * bs" using o' by simp_all
    then have "x - o' * bs = (x div bs * bs - o' * bs) + x mod bs" by linarith
    then show ?thesis by (simp only: add_mult_distrib diff_mult_distrib add.assoc)
  qed
  with Some y show ?thesis by (simp add: table_content_def data_block_next [of _ es 0 0])
qed (simp add: table_content_def data_block_next [of _ es 0 0])

lemma data_block_chunks: "0 < l \<Longrightarrow> data_block k (chunks o' l @ es) d = data_block k ((o', l) # es) d"
proof (induction o' l arbitrary: d rule: chunks.induct)
  case (1 o' l)
  show ?case
  proof (cases "l \<le> 127")
    case True
    with 1 show ?thesis by (subst chunks.simps) (simp add: min_def)
  next
    case False
    then have c: "chunks o' l = (o', 127) # chunks (o' + 127) (l - 127)" by (subst chunks.simps) simp
    have IH: "data_block k (chunks (o' + 127) (l - 127) @ es) (d + 127) = data_block k ((o' + 127, l - 127) # es) (d + 127)"
      using "1.IH" [of "d + 127"] False by simp
    show ?thesis unfolding c append_Cons data_block.simps IH using False by auto
  qed
qed

lemma data_block_all_chunks: "\<forall>e\<in>set es. 0 < snd e \<Longrightarrow> data_block k (all_chunks es) d = data_block k es d"
proof (induction es arbitrary: d)
  case (Cons e es)
  obtain o' l where e: "e = (o', l)" by fastforce
  with Cons.prems have "data_block k (chunks o' l @ all_chunks es) d = data_block k ((o', l) # all_chunks es) d"
    by (intro data_block_chunks) simp
  also have "\<dots> = data_block k ((o', l) # es) d" using Cons by simp
  finally show ?case by (simp add: e all_chunks_def)
qed (simp add: all_chunks_def)

lemma table_content_chunks:
  "0 < bs \<Longrightarrow> \<forall>e\<in>set es. 0 < snd e \<Longrightarrow> table_content bs (all_chunks es) D = table_content bs es D"
  by (simp add: fun_eq_iff table_content_block data_block_all_chunks)

end
