(* ===== verification/Sparse_Build.thy ===== *)
theory Sparse_Build
  imports Sparse_File
begin

text \<open>
  Building a table: what \<open>Build\<close> writes through the buffered writer, and
  \<open>internal/sparseblock/build_from_reader.go\<close>, which copies a byte reader into a table.
\<close>

section \<open>\<open>BuildFromReader\<close>\<close>

text \<open>The loop that enters the data runs of \<open>src\<close>; the result is the builder, the number of runs and an error.\<close>

partial_function (option) collect_runs :: "HoleReaderAt \<Rightarrow> int \<Rightarrow> int \<Rightarrow> ('w, SectionReader) Builder \<Rightarrow> int \<Rightarrow> int \<Rightarrow> nat \<Rightarrow>
    (('w, SectionReader) Builder \<times> nat \<times> go_error option) option" where
  "collect_runs src blockSize maxDataSize b offset dataBytes count =
     (if \<not> dataBytes < maxDataSize then Some (b, count, None)
      else do {
        (startOffset, err) \<leftarrow> NextData src offset;
        if err = Some EOF then Some (b, count, None)
        else if err \<noteq> None then None
        else do {
          (endOffset, err) \<leftarrow> NextHole src startOffset;
          if err \<noteq> None then None
          else do {
            let len = s64 (endOffset - startOffset);
            let cut = s64 (dataBytes + len) > maxDataSize;
            let len = (if cut then s64 (maxDataSize - dataBytes) else len);
            let endOffset = (if cut then s64 (startOffset + len) else endOffset);
            if cut \<and> len < blockSize then Some (b, count, None)
            else if blockSize = 0 then None
            else if go_mod startOffset blockSize \<noteq> 0 \<or> go_mod len blockSize \<noteq> 0
            then Some (b, count, Some (Err ''not a multiple of blockSize''))
            else do {
              b \<leftarrow> AddBlocks b (go_div startOffset blockSize) (go_div len blockSize)
                     (NewSectionReader (ReadAt src) startOffset len);
              collect_runs src blockSize maxDataSize b endOffset (s64 (dataBytes + len)) (Suc count)
            }
          }
        }
      })"

text \<open>\<open>opts\<close> is the \<open>MaxDataSize\<close> of the options, if they are not nil. The deferred log message divides
  by the number of runs.\<close>

definition BuildFromReader :: "sparse_Header proto_ops \<Rightarrow>
    ('w bufio_Writer \<Rightarrow> bytes list \<Rightarrow> ('w bufio_Writer \<times> nat \<times> go_error option) option) \<Rightarrow>
    'w Write \<Rightarrow> ('w, SectionReader LimitedReader) ReadFrom option \<Rightarrow> 'w \<Rightarrow> HoleReaderAt \<Rightarrow> int \<Rightarrow> int option \<Rightarrow>
    ('w \<times> go_error option) option" where
  "BuildFromReader P WriteMany Write rf dst src blockSize opts = do {
     let maxDataSize = (case opts of Some m \<Rightarrow> if m > 0 then m else 2 ^ 63 - 1 | None \<Rightarrow> 2 ^ 63 - 1);
     (b, count, err) \<leftarrow> collect_runs src blockSize maxDataSize (NewBuilder dst blockSize) 0 0 0;
     if err \<noteq> None then Some (bw_wr (b_w b), err)
     else do {
       (w, err) \<leftarrow> Build P WriteMany Write rf SectionReader_Read b;
       if count = 0 then None else Some (bw_wr w, err)
     }
   }"

section \<open>What \<open>Build\<close> writes\<close>

definition header_wf :: "sparse_Header \<Rightarrow> bool" where
  "header_wf h \<longleftrightarrow> (\<forall>x\<in>{Version h, BlockSize h, NumRangeEntries h, RangeEntrySize h, NumBlockEntries h, BlockEntrySize h}. x < 2 ^ 32) \<and>
     (\<forall>x\<in>{TotalBlocks h, TotalDataBlocks h, EndBlock h}. x < 2 ^ 64)"

context io_writer
begin

lemma write_ranges_ok:
  assumes "bw_ok w" "bw_err w = None"
  shows "\<exists>w' e. write_ranges Write w rs = Some (w', e) \<and>
    bw_appends written w (concat (map (\<lambda>e. rangeEntry_marshalAppend e []) rs)) (never_fails Write) w' e"
  using assms
proof (induction rs arbitrary: w)
  case Nil
  then show ?case by (simp add: bw_appends_def)
next
  case (Cons h hs)
  let ?m = "rangeEntry_marshalAppend h []"
  from Write_bufio [OF Cons.prems(1), of ?m] obtain w1 n e1 where
    w1: "bw_Write Write w ?m = Some (w1, n, e1)" "bw_appends written w ?m (never_fails Write) w1 e1" by blast
  show ?case
  proof (cases "e1 = None")
    case True
    then have "bw_ok w1" "bw_err w1 = None" using w1(2) by (auto simp: bw_appends_def)
    from Cons.IH [OF this] obtain w2 e2 where "write_ranges Write w1 hs = Some (w2, e2)"
      "bw_appends written w1 (concat (map (\<lambda>e. rangeEntry_marshalAppend e []) hs)) (never_fails Write) w2 e2" by blast
    with w1 True bw_appends_trans show ?thesis by fastforce
  next
    case False
    with w1 bw_appends_err show ?thesis by fastforce
  qed
qed

lemma writeIndex_ok:
  assumes "bw_ok (b_w b)" "bw_err (b_w b) = None"
  shows "\<exists>w e. writeIndex Write b = Some (b\<lparr>b_w := w\<rparr>, e) \<and>
    bw_appends written (b_w b) (concat (map (\<lambda>e. rangeEntry_marshalAppend e []) (ranges b)) @ blockEntryBuf b) (never_fails Write) w e"
proof -
  let ?m = "concat (map (\<lambda>e. rangeEntry_marshalAppend e []) (ranges b))"
  from write_ranges_ok [OF assms, of "ranges b"] obtain w1 e1 where
    w1: "write_ranges Write (b_w b) (ranges b) = Some (w1, e1)" "bw_appends written (b_w b) ?m (never_fails Write) w1 e1" by blast
  show ?thesis
  proof (cases "e1 = None")
    case True
    then have "bw_ok w1" using w1(2) by (auto simp: bw_appends_def)
    from Write_bufio [OF this, of "blockEntryBuf b"] obtain w2 n e2 where
      "bw_Write Write w1 (blockEntryBuf b) = Some (w2, n, e2)" "bw_appends written w1 (blockEntryBuf b) (never_fails Write) w2 e2"
      by blast
    with w1 True bw_appends_trans show ?thesis by (fastforce simp: writeIndex_def)
  next
    case False
    with w1 bw_appends_err show ?thesis by (fastforce simp: writeIndex_def)
  qed
qed

end

text \<open>The data of the entries: the first bytes of their readers, as many as their blocks take.\<close>

definition add_data :: "('r \<Rightarrow> bytes) \<Rightarrow> nat \<Rightarrow> (nat \<times> nat \<times> 'r) list \<Rightarrow> bytes" where
  "add_data rest bs adds = concat (map (\<lambda>(o', l, r). take (l * bs) (rest r)) adds)"

definition enough_data :: "('r \<Rightarrow> bytes) \<Rightarrow> nat \<Rightarrow> (nat \<times> nat \<times> 'r) list \<Rightarrow> bool" where
  "enough_data rest bs adds \<longleftrightarrow> (\<forall>(o', l, r)\<in>set adds. l * bs \<le> length (rest r))"

text \<open>A destination and readers that never fail.\<close>

definition copies_live :: "'w Write \<Rightarrow> ('w, 'r LimitedReader) ReadFrom option \<Rightarrow> 'r Read \<Rightarrow> ('r \<Rightarrow> bool) \<Rightarrow> bool" where
  "copies_live Write rf Read valid \<longleftrightarrow> never_fails Write \<and>
     (\<forall>b l. bw_ok b \<longrightarrow> bw_err b = None \<longrightarrow> valid (lr_R l) \<longrightarrow>
        (\<exists>b' l' n. bw_ReadFrom Write rf (LimitedReader_Read Read) b l = Some (b', l', n, None)))"

lemma copies_live_ReadFrom:
  "copies_live Write rf Read valid \<Longrightarrow> bw_ok b \<Longrightarrow> bw_err b = None \<Longrightarrow> valid (lr_R l) \<Longrightarrow>
    bw_ReadFrom Write rf (LimitedReader_Read Read) b l = Some (b', l', n, e) \<Longrightarrow> e = None"
  by (fastforce simp: copies_live_def)

text \<open>The parameters of \<open>Build\<close>: the destination, the readers of the entries, the codec and \<open>WriteMany\<close>.\<close>

locale table_sink = ents: io_reader Read rest valid +
    io_copy Write written "LimitedReader_Read Read" "limited_rest rest" "\<lambda>l. valid (lr_R l)" rf +
    proto_message P header_wf + write_many "bw_Write Write" WriteMany
  for Read :: "'r Read" and rest :: "'r \<Rightarrow> bytes" and valid :: "'r \<Rightarrow> bool"
    and Write :: "'w Write" and written :: "'w \<Rightarrow> bytes"
    and rf :: "('w, 'r LimitedReader) ReadFrom option" and P :: "sparse_Header proto_ops"
    and WriteMany :: "'w bufio_Writer \<Rightarrow> bytes list \<Rightarrow> ('w bufio_Writer \<times> nat \<times> go_error option) option"
begin

lemma WriteMany_ok:
  assumes "bw_ok w" "bw_err w = None"
  shows "\<exists>w' n e. WriteMany w ps = Some (w', n, e) \<and> bw_appends written w (concat ps) (never_fails Write) w' e"
  using assms
proof (induction ps arbitrary: w)
  case Nil
  then show ?case by (simp add: many_Nil bw_appends_def)
next
  case (Cons p ps)
  from Write_bufio [OF Cons.prems(1), of p] obtain w1 n e1 where
    w1: "bw_Write Write w p = Some (w1, n, e1)" "bw_appends written w p (never_fails Write) w1 e1" by blast
  show ?case
  proof (cases "e1 = None")
    case True
    then have "bw_ok w1" "bw_err w1 = None" using w1(2) by (auto simp: bw_appends_def)
    from Cons.IH [OF this] obtain w2 m e2 where "WriteMany w1 ps = Some (w2, m, e2)"
      "bw_appends written w1 (concat ps) (never_fails Write) w2 e2" by blast
    with w1 True bw_appends_trans show ?thesis by (fastforce simp: many_Cons)
  next
    case False
    with w1 bw_appends_err show ?thesis by (fastforce simp: many_Cons)
  qed
qed

lemma write_data_ok:
  assumes "bw_ok w" "bw_err w = None" "\<forall>(o', l, r)\<in>set adds. valid r \<and> l * bs \<le> max_off"
  shows "\<exists>w' n e. write_data Write rf Read (int bs) w
      (map (\<lambda>(o', l, r). \<lparr>ie_offset = int o', ie_length = int l, ie_r = r, ie_eType = EntryType_Data\<rparr>) adds) c = Some (w', n, e) \<and>
    bw_ok w' \<and> (e = None \<longrightarrow> bw_err w' = None \<and> n = c + int (blocks_in (add_extents adds)) \<and>
      bw_stream written w' = bw_stream written w @ add_data rest bs adds \<and> enough_data rest bs adds) \<and>
    (copies_live Write rf Read valid \<longrightarrow> enough_data rest bs adds \<longrightarrow> e = None)"
  using assms
proof (induction adds arbitrary: w c)
  case Nil
  then show ?case by (simp add: add_data_def enough_data_def add_extents_def)
next
  case (Cons a adds)
  obtain o' l r where a: "a = (o', l, r)" by (metis prod_cases3)
  let ?lr = "\<lparr>lr_R = r, lr_N = int (l * bs)\<rparr>"
  have v: "valid (lr_R ?lr)" "s64 (int l * int bs) = int (l * bs)"
    using Cons.prems(3) a s64_nat [of "l * bs"] by simp_all
  have lrest: "limited_rest rest ?lr = take (l * bs) (rest r)" by (simp add: limited_rest_def nat_mult_distrib)
  from ReadFrom_ok [OF Cons.prems(1) v(1)] obtain w1 r1 n e1 where
    w1: "bw_ReadFrom Write rf (LimitedReader_Read Read) w ?lr = Some (w1, r1, n, e1)" "bw_ok w1"
      "e1 = None \<longrightarrow> bw_err w1 = None \<and> n = length (take (l * bs) (rest r)) \<and>
         bw_stream written w1 = bw_stream written w @ take (l * bs) (rest r)"
    unfolding lrest by blast
  let ?rest = "map (\<lambda>(o', l, r). \<lparr>ie_offset = int o', ie_length = int l, ie_r = r, ie_eType = EntryType_Data\<rparr>) adds"
  have ev: "write_data Write rf Read (int bs) w
      (map (\<lambda>(o', l, r). \<lparr>ie_offset = int o', ie_length = int l, ie_r = r, ie_eType = EntryType_Data\<rparr>) (a # adds)) c =
      (if e1 \<noteq> None then Some (w1, c, e1) else if n \<noteq> l * bs then Some (w1, c, Some ErrShortRead)
       else write_data Write rf Read (int bs) w1 ?rest (c + int l))"
    using w1(1) v(2) by (simp add: a Let_def del: of_nat_mult)
  show ?case
  proof (cases "e1 = None \<and> n = l * bs")
    case False
    have "e1 = None \<and> n = l * bs" if live: "copies_live Write rf Read valid" "enough_data rest bs (a # adds)"
    proof -
      have "e1 = None" by (rule copies_live_ReadFrom [OF live(1) Cons.prems(1,2) v(1) w1(1)])
      with w1(3) live(2) show ?thesis by (simp add: a enough_data_def)
    qed
    with False show ?thesis unfolding ev using w1(2) by auto
  next
    case True
    from Cons.IH [of w1 "c + int l"] w1 True Cons.prems(3) obtain w2 n2 e2 where
      IH: "write_data Write rf Read (int bs) w1 ?rest (c + int l) = Some (w2, n2, e2)"
        "bw_ok w2" "e2 = None \<longrightarrow> bw_err w2 = None \<and> n2 = c + int l + int (blocks_in (add_extents adds)) \<and>
          bw_stream written w2 = bw_stream written w1 @ add_data rest bs adds \<and> enough_data rest bs adds"
        "copies_live Write rf Read valid \<longrightarrow> enough_data rest bs adds \<longrightarrow> e2 = None" by auto
    have "l * bs = min (length (rest r)) (l * bs)" using w1(3) True by simp
    then have "l * bs \<le> length (rest r)" by linarith
    with IH w1 True show ?thesis
      unfolding ev by (auto simp: a add_data_def enough_data_def add_extents_def)
  qed
qed


lemma Builder_header_ok:
  assumes "builder_ok b gs adds" "b_blockSize b = int bs" "bs < 2 ^ 32" "index_fits gs" "prevEnd b < 2 ^ 64"
  shows "Builder_header b = table_header bs gs (nat (prevEnd b))" "header_wf (table_header bs gs (nat (prevEnd b)))"
proof -
  have bi: "ranges b = encode_ranges gs 0" "blockEntryBuf b = encode_entries (concat (map snd gs))"
    and tot: "totalBlocks b = int (blocks_in (extents gs))" "totalDataBlocks b = int (blocks_in (extents gs))" "0 \<le> prevEnd b"
    using assms(1) by (simp_all add: builder_ok_def builder_index_def blocks_in_all_chunks)
  have fits: "length gs < 2 ^ 32" "length (extents gs) < 2 ^ 32" "blocks_in (extents gs) < 2 ^ 64"
    using assms(4) by (auto simp: index_fits_def)
  show "header_wf (table_header bs gs (nat (prevEnd b)))"
    using fits assms(3,5) tot(3) by (auto simp: header_wf_def table_header_def nat_less_iff)
  show "Builder_header b = table_header bs gs (nat (prevEnd b))"
    using fits assms(2,3,5) bi tot
    by (simp add: Builder_header_def table_header_def uint32_def uint64_def rangeEntrySize_def blockEntrySize_def
        length_encode_entries extents_size nat_mod_distrib)
qed

lemma Build_ok:
  assumes b: "builder_ok b gs adds" "b_blockSize b = int bs" "bs < 2 ^ 32" "index_fits gs" "prevEnd b < 2 ^ 64"
    and w: "bw_ok (b_w b)" "bw_err (b_w b) = None" and adds: "\<forall>(o', l, r)\<in>set adds. valid r \<and> l * bs \<le> max_off"
  shows "\<exists>w' e hdr. Build P WriteMany Write rf Read b = Some (w', e) \<and> length hdr < 2 ^ 31 \<and>
    proto_Unmarshal P hdr = Inr (table_header bs gs (nat (prevEnd b))) \<and>
    (e = None \<longrightarrow> written (bw_wr w') = bw_stream written (b_w b) @ table_image hdr gs (add_data rest bs adds) \<and> enough_data rest bs adds) \<and>
    (copies_live Write rf Read valid \<longrightarrow> enough_data rest bs adds \<longrightarrow> e = None)"
proof -
  note hd = Builder_header_ok [OF b]
  from marshal_roundtrip [OF hd(2)] obtain hdr where
    hdr: "proto_Marshal P (table_header bs gs (nat (prevEnd b))) = Inr hdr" "length hdr < 2 ^ 31"
      "proto_Unmarshal P hdr = Inr (table_header bs gs (nat (prevEnd b)))" by blast
  have bi: "ranges b = encode_ranges gs 0" "blockEntryBuf b = encode_entries (concat (map snd gs))"
    and ent: "entries b = map (\<lambda>(o', l, r). \<lparr>ie_offset = int o', ie_length = int l, ie_r = r, ie_eType = EntryType_Data\<rparr>) adds"
    and tot: "totalDataBlocks b = int (blocks_in (add_extents adds))"
    using b(1) by (simp_all add: builder_ok_def builder_index_def)
  have u: "uint32 (int (length hdr)) = length hdr" using hdr(2) by (simp add: uint32_def nat_mod_distrib)
  let ?ps = "[sparse_Magic, le_bytes 4 (length hdr), hdr]"
  from WriteMany_ok [OF w, of ?ps] obtain w1 n1 e1 where
    w1: "WriteMany (b_w b) ?ps = Some (w1, n1, e1)" "bw_appends written (b_w b) (concat ?ps) (never_fails Write) w1 e1" by blast
  note B = Build_def [of P WriteMany Write rf Read b, unfolded hd(1) hdr(1) sum.case u w1(1) Option.bind_lunit prod.case]
  show ?thesis
  proof (cases "e1 = None")
    case False
    then have "\<not> copies_live Write rf Read valid" using w1(2) w(2) by (auto simp: bw_appends_def copies_live_def)
    with False show ?thesis using hdr(2,3) by (auto simp: B)
  next
    case e1: True
    then have ok1: "bw_ok w1" "bw_err w1 = None" "bw_stream written w1 = bw_stream written (b_w b) @ concat ?ps"
      using w1(2) by (auto simp: bw_appends_def)
    let ?b1 = "b\<lparr>b_w := w1\<rparr>"
    from writeIndex_ok [of ?b1] ok1 obtain w2 e2 where
      w2: "writeIndex Write ?b1 = Some (?b1\<lparr>b_w := w2\<rparr>, e2)"
        "bw_appends written w1 (range_bytes gs 0 @ encode_entries (concat (map snd gs))) (never_fails Write) w2 e2"
      using bi by (auto simp: range_bytes_def)
    show ?thesis
    proof (cases "e2 = None")
      case False
      then have "\<not> copies_live Write rf Read valid" using w2(2) ok1(2) by (auto simp: bw_appends_def copies_live_def)
      with False show ?thesis using hdr(2,3) e1 w2(1) by (auto simp: B)
    next
      case e2: True
      then have ok2: "bw_ok w2" "bw_err w2 = None"
        "bw_stream written w2 = bw_stream written w1 @ range_bytes gs 0 @ encode_entries (concat (map snd gs))"
        using w2(2) by (auto simp: bw_appends_def)
      from write_data_ok [OF ok2(1,2) adds, of 0] obtain w3 n3 e3 where
        w3: "write_data Write rf Read (int bs) w2 (entries b) 0 = Some (w3, n3, e3)" "bw_ok w3"
          "e3 = None \<longrightarrow> bw_err w3 = None \<and> n3 = int (blocks_in (add_extents adds)) \<and>
            bw_stream written w3 = bw_stream written w2 @ add_data rest bs adds \<and> enough_data rest bs adds"
          "copies_live Write rf Read valid \<longrightarrow> enough_data rest bs adds \<longrightarrow> e3 = None"
        unfolding ent by auto
      obtain w4 e4 where w4: "bw_Flush Write w3 = (w4, e4)" by fastforce
      from Flush_ok [OF w3(2) w4] w3(3) ok1(3) ok2(3) have fl: "e4 = None \<longrightarrow> e3 = None \<longrightarrow>
          written (bw_wr w4) = bw_stream written (b_w b) @ table_image hdr gs (add_data rest bs adds)"
        by (auto simp: table_image_def)
      have "copies_live Write rf Read valid \<longrightarrow> e3 = None \<longrightarrow> e4 = None"
        using Flush_live [OF _ w3(2)] w3(3) w4 by (auto simp: copies_live_def)
      then show ?thesis
        using hdr(2,3) e1 e2 w2(1) w3(1,3,4) w4 fl tot b(2) by (cases "e3 = None") (auto simp: B)
    qed
  qed
qed

end

end
