(* ===== verification/Sparse_Roundtrip.thy ===== *)
theory Sparse_Roundtrip
  imports Sparse_Build
begin

text \<open>
  Round trips of the table format: what is built is what is loaded, entry by entry and for a whole
  byte reader; and the limits of the format.
\<close>

section \<open>A sequence of \<open>AddBlocks\<close> calls\<close>

fun AddBlocks_all :: "('w, 'r) Builder \<Rightarrow> (nat \<times> nat \<times> 'r) list \<Rightarrow> ('w, 'r) Builder option" where
  "AddBlocks_all b [] = Some b"
| "AddBlocks_all b ((o', l, r) # adds) = Option.bind (AddBlocks b (int o') (int l) r) (\<lambda>b. AddBlocks_all b adds)"

lemma blocks_in_end:
  assumes "extents_ok es"
  shows "blocks_in es \<le> extents_end es"
  using assms
proof (induction es rule: rev_induct)
  case (snoc e es)
  obtain o' l where e: "e = (o', l)" by fastforce
  have "extents_ok es" "\<forall>x\<in>set es. fst x + snd x \<le> o'" using snoc.prems by (auto simp: e extents_ok_def sorted_wrt_append)
  with snoc.IH extents_end_le [of es o'] show ?case by (simp add: e extents_end_append)
qed simp

lemma add_extents_Cons: "add_extents ((o', l, r) # adds) = (o', l) # add_extents adds"
  and add_extents_append: "add_extents (as @ bs) = add_extents as @ add_extents bs"
  by (simp_all add: add_extents_def)

lemma AddBlocks_all_ok:
  assumes "builder_ok b gs adds" "extents_ok (add_extents (adds @ more_adds))" "prevEnd b \<le> int (extents_end (add_extents adds))"
    and "extents_end (add_extents (adds @ more_adds)) \<le> 2 ^ 48"
  shows "\<exists>b' gs'. AddBlocks_all b more_adds = Some b' \<and> builder_ok b' gs' (adds @ more_adds) \<and>
    prevEnd b' \<le> int (extents_end (add_extents (adds @ more_adds))) \<and> b_w b' = b_w b \<and> b_blockSize b' = b_blockSize b"
  using assms
proof (induction more_adds arbitrary: b gs adds)
  case (Cons a more_adds)
  obtain o' l r where a: "a = (o', l, r)" by (metis prod_cases3)
  have ok: "extents_ok (add_extents adds @ (o', l) # add_extents more_adds)"
    using Cons.prems(2) by (simp add: a add_extents_append add_extents_Cons)
  then have l: "0 < l" and before: "\<forall>x\<in>set (add_extents adds). fst x + snd x \<le> o'"
    by (auto simp: extents_ok_def sorted_wrt_append)
  have e: "extents_end (add_extents (adds @ a # more_adds)) = max (extents_end (add_extents adds)) (max (o' + l) (extents_end (add_extents more_adds)))"
    by (simp add: a add_extents_append add_extents_Cons extents_end_append)
  have pe: "extents_end (add_extents adds) \<le> o'" using before by (simp add: extents_end_le)
  have "extents_ok (add_extents (adds @ [a]))"
    using ok by (auto simp: a add_extents_append add_extents_Cons extents_ok_def sorted_wrt_append add_extents_def [of "[]"])
  from blocks_in_end [OF this] have tot: "blocks_in (add_extents adds) + l \<le> max (extents_end (add_extents adds)) (o' + l)"
    by (simp add: a add_extents_append add_extents_Cons extents_end_append add_extents_def [of "[]"])
  have ol: "o' + l \<le> 2 ^ 48" using Cons.prems(4) unfolding e by simp
  have "blocks_in (add_extents adds) + l \<le> 2 ^ 48" using tot pe ol by linarith
  then have mb: "int (blocks_in (add_extents adds) + l) \<le> MaxBlocks" by (simp add: MaxBlocks_def)
  have "prevEnd b \<le> int o'" "o' + l \<le> max_off" using Cons.prems(3) pe ol by auto
  from AddBlocks_ok [OF Cons.prems(1) this l mb, of r] obtain b1 gs1 where
    b1: "AddBlocks b (int o') (int l) r = Some b1" "builder_ok b1 gs1 (adds @ [(o', l, r)])" "prevEnd b1 = int (o' + l)"
      "b_w b1 = b_w b" "b_blockSize b1 = b_blockSize b" by blast
  have "extents_end (add_extents (adds @ [(o', l, r)])) = o' + l"
    using pe by (simp add: add_extents_append add_extents_Cons extents_end_append add_extents_def [of "[]"])
  with Cons.IH [OF b1(2)] Cons.prems(2,4) b1 show ?case by (auto simp: a)
qed auto

lemma gs_small:
  assumes "open_ranges gs k" "\<forall>(s, es)\<in>set gs. es \<noteq> []"
  shows "length gs \<le> length (extents gs)" "\<forall>(s, es)\<in>set gs. s < extents_end (extents gs)"
proof -
  show "length gs \<le> length (extents gs)"
    using assms(2)
  proof (induction gs)
    case (Cons g gs)
    obtain s es where "g = (s, es)" by fastforce
    with Cons show ?case by (cases es) (auto simp: extents_Cons)
  qed simp
  show "\<forall>(s, es)\<in>set gs. s < extents_end (extents gs)"
  proof clarify
    fix s es assume g: "(s, es) \<in> set gs"
    then obtain i where i: "i < length gs" "gs ! i = (s, es)" by (metis in_set_conv_nth)
    obtain a l es' where es: "es = (a, l) # es'" using assms(2) g by (cases es) auto
    have m: "(s + a, l) \<in> set (extents gs)" using extents_member [of i gs a l] i es by simp
    then have "0 < l" using range_small(1) [OF assms] by (auto simp: ranges_ok_def extents_ok_def)
    moreover have "s + a + l \<le> extents_end (extents gs)"
      using extents_end_le [of "extents gs" "extents_end (extents gs)"] m by force
    ultimately show "s < extents_end (extents gs)" by linarith
  qed
qed

lemma extents_end_chunks: "extents_end (chunks o' l @ es) = (if l = 0 then extents_end es else max (o' + l) (extents_end es))"
proof (induction o' l rule: chunks.induct)
  case (1 o' l)
  show ?case
  proof (cases "l = 0")
    case False
    then have c: "chunks o' l = (o', min l 127) # chunks (o' + min l 127) (l - min l 127)" by (subst chunks.simps) simp
    show ?thesis unfolding c append_Cons extents_end.simps "1" [OF False] using False by (simp add: min_def)
  qed simp
qed

lemma extents_end_all_chunks: "extents_ok es \<Longrightarrow> extents_end (all_chunks es) = extents_end es"
proof (induction es)
  case (Cons e es)
  obtain o' l where e: "e = (o', l)" by fastforce
  with Cons.prems have "0 < l" "extents_ok es" by (auto simp: extents_ok_def)
  with Cons.IH show ?case by (simp add: e all_chunks_def extents_end_chunks)
qed (simp add: all_chunks_def)

section \<open>Build, then load\<close>

text \<open>The calls the format has room for.\<close>

definition adds_fit :: "nat \<Rightarrow> (nat \<times> nat) list \<Rightarrow> bool" where
  "adds_fit bs es \<longleftrightarrow> es \<noteq> [] \<and> extents_ok es \<and> extents_end es \<le> 2 ^ 48 \<and> extents_end es * bs \<le> max_off \<and>
     length (all_chunks es) < 2 ^ 28 \<and> 512 \<le> bs \<and> bs \<le> 1024 * 1024"

lemma built_index:
  assumes "adds_fit bs (add_extents adds)" "builder_ok b gs adds" "prevEnd b \<le> int (extents_end (add_extents adds))"
  shows "index_fits gs" "open_ranges gs (nat (prevEnd b))" "\<forall>(s, es)\<in>set gs. es \<noteq> []" "nat (prevEnd b) * bs \<le> max_off"
    "prevEnd b < 2 ^ 64"
proof -
  let ?E = "extents_end (add_extents adds)"
  have fit: "adds \<noteq> []" "extents_ok (add_extents adds)" "?E \<le> 2 ^ 48" "?E * bs \<le> max_off" "length (all_chunks (add_extents adds)) < 2 ^ 28"
    using assms(1) by (auto simp: adds_fit_def add_extents_def)
  show gs: "open_ranges gs (nat (prevEnd b))" "\<forall>(s, es)\<in>set gs. es \<noteq> []" using assms(2) fit(1) by (auto simp: builder_ok_def)
  have ext: "extents gs = all_chunks (add_extents adds)" using assms(2) by (simp add: builder_ok_def)
  have bl: "blocks_in (extents gs) \<le> ?E" using blocks_in_end [OF fit(2)] by (simp add: ext blocks_in_all_chunks)
  have ee: "extents_end (extents gs) = ?E" by (simp add: ext extents_end_all_chunks [OF fit(2)])
  have "length (extents gs) < 2 ^ 28" using ext fit(5) by simp
  then have "16 * length gs < 2 ^ 32" "3 * length (extents gs) < 2 ^ 32"
    using gs_small(1) [OF gs] by simp_all
  moreover have "\<forall>(s, es)\<in>set gs. s < 2 ^ 48" using gs_small(2) [OF gs] ee fit(3) by fastforce
  ultimately show "index_fits gs" using bl fit(3) by (simp add: index_fits_def)
  have "nat (prevEnd b) \<le> ?E" using assms(3) by simp
  then show "nat (prevEnd b) * bs \<le> max_off" using fit(4) by (meson mult_le_mono1 order_trans)
  show "prevEnd b < 2 ^ 64" using assms(3) fit(3) by simp
qed

lemma AddBlocks_all_new:
  assumes "adds_fit bs (add_extents adds)"
  obtains b gs where "AddBlocks_all (NewBuilder w0 (int bs)) adds = Some b" "builder_ok b gs adds"
    "prevEnd b \<le> int (extents_end (add_extents adds))" "b_w b = bufio_NewWriterSize w0 writeBufferSize" "b_blockSize b = int bs"
  using AddBlocks_all_ok [OF builder_new, of adds w0 "int bs"] assms
  by (auto simp: adds_fit_def NewBuilder_def add_extents_def)

text \<open>A loaded table with extents \<open>es\<close> and data \<open>D\<close>: it satisfies the contract of byte readers, and \<open>ReadAt\<close>
  fills holes with zeros and stops at the end of the last extent.\<close>

definition table_serves :: "sparse_Reader \<Rightarrow> nat \<Rightarrow> (nat \<times> nat) list \<Rightarrow> bytes \<Rightarrow> bool" where
  "table_serves r bs es D \<longleftrightarrow> hole_reader_at (sparse_reader_at r) (table_content bs es D) \<and>
     (\<forall>k p. k \<le> max_off \<longrightarrow> sparse_ReadAt r p (int k) =
        (let m = min (length p) (extents_end es * bs - k)
         in Some (zero_filled (table_content bs es D) k m @ drop m p, int m, if m < length p then Some EOF else None))) \<and>
     sparse_Size r = int (extents_end es * bs) \<and> sparse_LiveSize r = int (blocks_in es * bs)"

lemma loaded_sizes:
  assumes "e * bs \<le> max_off" "blocks_in (extents gs) \<le> e" "0 < bs"
  shows "sparse_Size (loaded R (table_header bs gs e) hdr gs) = int (e * bs)"
    "sparse_LiveSize (loaded R (table_header bs gs e) hdr gs) = int (blocks_in (extents gs) * bs)"
proof -
  have l: "n \<le> max_off" if "n \<le> e" for n
  proof -
    have "n * 1 \<le> e * bs" using that assms(3) by (intro mult_le_mono) auto
    with assms(1) show ?thesis by linarith
  qed
  have "blocks_in (extents gs) * bs \<le> e * bs" using assms(2) by (rule mult_le_mono1)
  with assms(1) have b: "blocks_in (extents gs) * bs \<le> max_off" by (rule order_trans [rotated])
  show "sparse_Size (loaded R (table_header bs gs e) hdr gs) = int (e * bs)"
    "sparse_LiveSize (loaded R (table_header bs gs e) hdr gs) = int (blocks_in (extents gs) * bs)"
    using s64_nat [OF assms(1)] s64_nat [OF b] s64_nat [OF l [OF order_refl]] s64_nat [OF l [OF assms(2)]]
    by (simp_all add: sparse_Size_def sparse_LiveSize_def loaded_def table_header_def int64_def)
qed

context table_sink
begin

lemma length_add_data: "enough_data rest bs adds \<Longrightarrow> length (add_data rest bs adds) = blocks_in (add_extents adds) * bs"
  by (induction adds) (auto simp: enough_data_def add_data_def add_extents_def add_mult_distrib)

lemma add_bound:
  assumes "adds_fit bs (add_extents adds)" "(o', l, r) \<in> set adds"
  shows "l * bs \<le> max_off"
proof -
  have "(o', l) \<in> set (add_extents adds)" using assms(2) by (force simp: add_extents_def)
  then have "o' + l \<le> extents_end (add_extents adds)"
    using extents_end_le [of "add_extents adds" "extents_end (add_extents adds)"] by force
  then have "l * bs \<le> extents_end (add_extents adds) * bs" by (intro mult_le_mono1) simp
  moreover have "extents_end (add_extents adds) * bs \<le> max_off" using assms(1) by (simp add: adds_fit_def)
  ultimately show ?thesis by (rule order_trans)
qed

lemma build_load:
  assumes fit: "adds_fit bs (add_extents adds)" and v: "\<forall>(o', l, r)\<in>set adds. valid r" and w0: "written w0 = []"
    and ok: "builder_ok b gs adds" and pe: "prevEnd b \<le> int (extents_end (add_extents adds))"
    and bw: "b_w b = bufio_NewWriterSize w0 writeBufferSize" "b_blockSize b = int bs"
  obtains w' e where "Build P WriteMany Write rf Read b = Some (w', e)"
    "e = None \<longrightarrow> enough_data rest bs adds \<and> (\<forall>R. reader_at R (written (bw_wr w')) \<longrightarrow> length (written (bw_wr w')) \<le> max_off \<longrightarrow>
       (\<exists>r. sparse_Load P R = Some (Some r, None) \<and> table_serves r bs (add_extents adds) (add_data rest bs adds)))"
    "copies_live Write rf Read valid \<longrightarrow> enough_data rest bs adds \<longrightarrow> e = None"
proof -
  note b = built_index [OF fit ok pe]
  have bs: "512 \<le> bs" "bs \<le> 1024 * 1024" "bs < 2 ^ 32" "extents_ok (add_extents adds)" "add_extents adds \<noteq> []"
    using fit by (auto simp: adds_fit_def)
  have vl: "\<forall>(o', l, r)\<in>set adds. valid r \<and> l * bs \<le> max_off"
    using v add_bound [OF fit] by blast
  have w: "bw_ok (b_w b)" "bw_err (b_w b) = None" "bw_stream written (b_w b) = []"
    unfolding bw(1) by (simp_all add: bw_new writeBufferSize_def w0)
  from Build_ok [OF ok bw(2) bs(3) b(1,5) w(1,2) vl] obtain w' e hdr where
    B: "Build P WriteMany Write rf Read b = Some (w', e)" "length hdr < 2 ^ 31"
      "proto_Unmarshal P hdr = Inr (table_header bs gs (nat (prevEnd b)))"
      "e = None \<longrightarrow> written (bw_wr w') = table_image hdr gs (add_data rest bs adds) \<and> enough_data rest bs adds"
      "copies_live Write rf Read valid \<longrightarrow> enough_data rest bs adds \<longrightarrow> e = None"
    unfolding w(3) by auto
  have load: "\<exists>r. sparse_Load P R = Some (Some r, None) \<and> table_serves r bs (add_extents adds) (add_data rest bs adds)"
    if e: "e = None" and R: "reader_at R (written (bw_wr w'))" and len: "length (written (bw_wr w')) \<le> max_off" for R
  proof -
    let ?f = "written (bw_wr w')" and ?D = "add_data rest bs adds" and ?h = "table_header bs gs (nat (prevEnd b))"
    have f: "?f = table_image hdr gs ?D" "enough_data rest bs adds" using B(4) e by auto
    have ext: "extents gs = all_chunks (add_extents adds)" using ok by (simp add: builder_ok_def)
    have lD: "length ?D = blocks_in (extents gs) * bs"
      using length_add_data [OF f(2)] by (simp add: ext blocks_in_all_chunks)
    have pos: "\<forall>e\<in>set (add_extents adds). 0 < snd e" using bs(4) by (simp add: extents_ok_def)
    have "0 < blocks_in (add_extents adds)" using bs(5) pos by (cases "add_extents adds") auto
    moreover have "0 < bs" using bs(1) by simp
    ultimately have "0 < length ?D" unfolding lD ext blocks_in_all_chunks by (rule mult_pos_pos)
    then have "?D \<noteq> []" by simp
    from reader_at.Load_ok [OF R f(1) this B(3,2) bs(1,2) b(2,3,1)]
    have L: "sparse_Load P R = Some (Some (loaded R ?h hdr gs), None)" .
    note tab = reader_at.loaded_table [OF R f(1) len lD b(2,3,4) \<open>0 < bs\<close>]
    have ee: "extents_end (extents gs) = extents_end (add_extents adds)" unfolding ext by (rule extents_end_all_chunks [OF bs(4)])
    have "extents_end (extents gs) \<le> nat (prevEnd b)" using b(2) by (simp add: open_ranges_def)
    then have pe': "nat (prevEnd b) = extents_end (add_extents adds)" using ee pe by linarith
    have tc: "table_content bs (extents gs) ?D = table_content bs (add_extents adds) ?D"
      unfolding ext by (rule table_content_chunks [OF \<open>0 < bs\<close> pos])
    have "hole_reader_at (sparse_reader_at (loaded R ?h hdr gs)) (table_content bs (add_extents adds) ?D)"
      using sparse_table.as_hole_reader [OF tab(1)] unfolding tab(2) tc .
    moreover note rd = sparse_table.ReadAt_loop_ok [OF tab(1), unfolded tab(2) tc ee, where c = 0, folded sparse_ReadAt_def]
    moreover have "blocks_in (extents gs) \<le> nat (prevEnd b)"
      unfolding pe' ext blocks_in_all_chunks by (rule blocks_in_end [OF bs(4)])
    note sz = loaded_sizes [OF b(4) this \<open>0 < bs\<close>, of R hdr, unfolded ext blocks_in_all_chunks pe']
    ultimately have "table_serves (loaded R ?h hdr gs) bs (add_extents adds) ?D"
      unfolding table_serves_def using pe' by (intro conjI allI impI) (assumption | simp only: add_0)+
    then show ?thesis using L by blast
  qed
  show thesis using that [OF B(1)] B(4,5) load by blast
qed

end

section \<open>Copying a reader\<close>

text \<open>The calls made for the blocks of \<open>c\<close> below \<open>k\<close>.\<close>

definition copied :: "ReaderAt \<Rightarrow> (nat \<rightharpoonup> byte) \<Rightarrow> nat \<Rightarrow> nat \<Rightarrow> (nat \<times> nat \<times> SectionReader) list \<Rightarrow> bool" where
  "copied R c bs k adds \<longleftrightarrow> extents_ok (add_extents adds) \<and> extents_end (add_extents adds) \<le> k \<and>
     (\<forall>(o', l, r)\<in>set adds. r = NewSectionReader R (int (o' * bs)) (int (l * bs)) \<and> all_data c (o' * bs) (l * bs)) \<and>
     (\<forall>i<k. to_blocks bs c i \<noteq> None \<longrightarrow> (\<exists>e\<in>set (add_extents adds). fst e \<le> i \<and> i < fst e + snd e))"

lemma copied_add:
  assumes "copied R c bs k adds" "block_aligned bs c" "0 < bs"
    and "next_data (to_blocks bs c) k = Some j" "j < h" "all_data (to_blocks bs c) j (h - j)"
  shows "copied R c bs h (adds @ [(j, h - j, NewSectionReader R (int (j * bs)) (int ((h - j) * bs)))])"
proof -
  from assms(4) have j: "k \<le> j" "\<forall>i. k \<le> i \<longrightarrow> i < j \<longrightarrow> to_blocks bs c i = None" unfolding next_data_Some by blast+
  let ?es = "add_extents adds @ [(j, h - j)]"
  have "extents_ok ?es" using assms(1,5) j(1) by (intro extents_ok_snoc) (auto simp: copied_def)
  moreover have "extents_end ?es \<le> h" using assms(1,5) j(1) by (simp add: copied_def extents_end_append)
  moreover have "all_data c (j * bs) ((h - j) * bs)" using assms(6) all_data_blocks [OF assms(2,3)] by blast
  moreover have "\<exists>e\<in>set ?es. fst e \<le> i \<and> i < fst e + snd e" if "i < h" "to_blocks bs c i \<noteq> None" for i
  proof (cases "i < k")
    case True
    with assms(1) that(2) show ?thesis by (auto simp: copied_def)
  next
    case False
    with j(2) that have "j \<le> i" by (meson not_le)
    with that(1) show ?thesis by simp
  qed
  ultimately show ?thesis
    using assms(1) by (auto simp: copied_def add_extents_append add_extents_Cons add_extents_def [of "[]"])
qed

lemma copied_end:
  assumes "copied R c bs k adds" "next_data (to_blocks bs c) k = None" "k \<le> k'"
  shows "copied R c bs k' adds"
proof -
  have "\<exists>e\<in>set (add_extents adds). fst e \<le> i \<and> i < fst e + snd e" if i: "to_blocks bs c i \<noteq> None" for i
  proof -
    have "i < k" using assms(2) i unfolding next_data_None by (meson not_le)
    with assms(1) i show ?thesis by (simp add: copied_def)
  qed
  with assms(1,3) show ?thesis unfolding copied_def by simp
qed

context hole_reader_at
begin

lemma collect_runs_ok:
  assumes al: "block_aligned bs c" and bs: "0 < bs" and dev: "\<forall>i. to_blocks bs c i \<noteq> None \<longrightarrow> i < 2 ^ 48"
    and "builder_ok b gs adds" "prevEnd b \<le> int (extents_end (add_extents adds))" "k * bs \<le> max_off" "copied (ReadAt R) c bs k adds"
  shows "\<exists>b' gs' adds'. collect_runs R (int bs) (2 ^ 63 - 1) b (int (k * bs)) (int (blocks_in (add_extents adds) * bs)) (length adds) =
      Some (b', length adds', None) \<and> builder_ok b' gs' adds' \<and> (\<exists>K. \<forall>k'\<ge>K. copied (ReadAt R) c bs k' adds') \<and>
      prevEnd b' \<le> int (extents_end (add_extents adds')) \<and> b_w b' = b_w b \<and> b_blockSize b' = b_blockSize b"
  using assms(4-7)
proof (induction "max_off - k" arbitrary: k b gs adds rule: less_induct)
  case less
  let ?B = "to_blocks bs c"
  have cp: "extents_ok (add_extents adds)" "extents_end (add_extents adds) \<le> k" using less.prems(4) by (auto simp: copied_def)
  have db: "blocks_in (add_extents adds) * bs \<le> k * bs" using blocks_in_end [OF cp(1)] cp(2) by simp
  note fin = copied_end [OF less.prems(4)]
  show ?case
  proof (cases "next_data ?B k")
    case None
    with next_data_blocks [OF al bs, of k] have "next_data c (k * bs) = None" by simp
    from NextData_end [OF less.prems(3) this] obtain e where e: "NextData R (int (k * bs)) = Some (e, Some EOF)" by blast
    have "collect_runs R (int bs) (2 ^ 63 - 1) b (int (k * bs)) (int (blocks_in (add_extents adds) * bs)) (length adds) =
        Some (b, length adds, None)"
      by (subst collect_runs.simps) (simp add: e del: of_nat_mult)
    with fin [OF None] less.prems(1,2) show ?thesis by blast
  next
    case (Some j)
    define h where "h = next_hole ?B j"
    have nd: "next_data c (k * bs) = Some (j * bs)" using next_data_blocks [OF al bs, of k] Some by simp
    then have "c (j * bs) \<noteq> None" "k * bs \<le> j * bs" unfolding next_data_Some by blast+
    then have jm: "j * bs < max_off" "k \<le> j" using byte_bounded bs by auto
    have bd: "\<forall>x. c x \<noteq> None \<longrightarrow> x < max_off" using byte_bounded by blast
    have nh: "next_hole c (j * bs) = h * bs" using next_hole_blocks [OF al bs bd] by (simp add: h_def)
    have "\<forall>x. ?B x \<noteq> None \<longrightarrow> x < 2 ^ 48" using dev by blast
    from next_hole_eq [OF this, of j h] have h: "j \<le> h" "?B h = None" "\<forall>i. j \<le> i \<longrightarrow> i < h \<longrightarrow> ?B i \<noteq> None" by (auto simp: h_def)
    have "?B j \<noteq> None" using Some unfolding next_data_Some by blast
    then have jh: "j < h" using h(1,2) by (metis le_neq_implies_less)
    have alld: "all_data ?B j (h - j)" unfolding all_data_def using h(3) by auto
    have h48: "h \<le> 2 ^ 48"
    proof -
      have "?B (h - 1) \<noteq> None" using h(3) jh by auto
      with dev have "h - 1 < 2 ^ 48" by blast
      then show ?thesis by simp
    qed
    have jhb: "j * bs < h * bs" using jh bs by simp
    have hm: "h * bs \<le> max_off"
    proof -
      have "j * bs \<le> h * bs - 1" "h * bs - 1 < h * bs" using jhb by linarith+
      with nh have "c (h * bs - 1) \<noteq> None" unfolding next_hole_eq [OF bd] by blast
      with byte_bounded have "h * bs - 1 < max_off" by blast
      then show ?thesis by linarith
    qed
    let ?l = "(h - j) * bs" and ?D = "blocks_in (add_extents adds) * bs"
    have lj: "?l = h * bs - j * bs" by (simp add: diff_mult_distrib)
    have kj: "k * bs \<le> j * bs" using jm(2) by simp
    then have Dl: "?D + ?l \<le> h * bs" using db jhb unfolding lj by linarith
    let ?s = "NewSectionReader (ReadAt R) (int (j * bs)) (int ?l)"
    have bl: "blocks_in (add_extents adds) + (h - j) \<le> h" using blocks_in_end [OF cp(1)] cp(2) jm(2) jh by linarith
    have "blocks_in (add_extents adds) + (h - j) \<le> 2 ^ 48" using bl h48 by linarith
    then have mb: "int (blocks_in (add_extents adds) + (h - j)) \<le> MaxBlocks"
      unfolding MaxBlocks_def by (metis of_nat_le_iff of_nat_numeral of_nat_power)
    have "prevEnd b \<le> int j" "j + (h - j) \<le> max_off" "0 < h - j" using less.prems(2) cp(2) jm(2) jh h48 by auto
    from AddBlocks_ok [OF less.prems(1) this mb, of ?s] obtain b1 gs1 where
      b1: "AddBlocks b (int j) (int (h - j)) ?s = Some b1" "builder_ok b1 gs1 (adds @ [(j, h - j, ?s)])" "prevEnd b1 = int h"
        "b_w b1 = b_w b" "b_blockSize b1 = b_blockSize b" using jh by auto
    note cp1 = copied_add [OF less.prems(4) al bs Some jh alld]
    have fin1: "max_off - h < max_off - k" using jm(2) jh h48 by simp
    have pe1: "prevEnd b1 \<le> int (extents_end (add_extents (adds @ [(j, h - j, ?s)])))"
      using b1(3) jh by (simp add: add_extents_append add_extents_Cons extents_end_append)
    from less.hyps [OF fin1 b1(2) pe1 hm cp1] obtain b2 gs2 adds2 where
      IH: "collect_runs R (int bs) (2 ^ 63 - 1) b1 (int (h * bs)) (int (?D + ?l)) (Suc (length adds)) = Some (b2, length adds2, None)"
        "builder_ok b2 gs2 adds2" "\<exists>K. \<forall>k'\<ge>K. copied (ReadAt R) c bs k' adds2"
        "prevEnd b2 \<le> int (extents_end (add_extents adds2))" "b_w b2 = b_w b1" "b_blockSize b2 = b_blockSize b1"
      by (auto simp: add_extents_append add_extents_Cons add_extents_def [of "[]"] add_mult_distrib)
    have jm': "j * bs \<le> max_off" using jm(1) by simp
    have i1: "s64 (int (h * bs) - int (j * bs)) = int ?l"
      using s64_nat [of ?l] jhb hm lj by (metis (no_types, lifting) diff_le_self less_imp_le_nat of_nat_diff order_trans)
    have i2: "s64 (int ?D + int ?l) = int (?D + ?l)" using s64_nat [of "?D + ?l"] Dl hm by simp
    have "?D + ?l \<le> max_off" "?D < max_off" using Dl hm jhb lj by linarith+
    then have "int (?D + ?l) \<le> int max_off" "int ?D < int max_off" by (simp_all only: of_nat_le_iff of_nat_less_iff)
    moreover have "int max_off = 2 ^ 63 - 1" by simp
    ultimately have small: "int (?D + ?l) \<le> 2 ^ 63 - 1" "int ?D < 2 ^ 63 - 1" by (simp_all only:)
    have "collect_runs R (int bs) (2 ^ 63 - 1) b (int (k * bs)) (int ?D) (length adds) = Some (b2, length adds2, None)"
      using NextData_ok [OF less.prems(3) nd] NextHole_ok [OF jm'] b1(1) IH(1) bs small i1 i2
      by (subst collect_runs.simps) (simp add: nh go_mod_mult go_div_mult Let_def del: of_nat_mult of_nat_add)
    then show ?thesis using IH(2-6) b1(4,5) by auto
  qed
qed

end

end
