(* ===== verification/Sparse_Copy.thy ===== *)
theory Sparse_Copy
  imports Sparse_Roundtrip
begin

text \<open>
  \<open>BuildFromReader\<close> copies a byte reader: the table it writes loads and reads as the source. The
  properties of the table format, with a codec and a destination that show their hypotheses can hold.
\<close>

context hole_reader_at
begin

lemmas section_reader = sec.reliable_reader_axioms

end

section \<open>The content of a copy\<close>

text \<open>Block \<open>k\<close> of a table is the block of the call that entered it.\<close>

lemma data_block_add:
  assumes "enough_data rest bs adds" "data_block k (add_extents adds) d = Some b"
  shows "\<exists>(o', l, r)\<in>set adds. o' \<le> k \<and> k < o' + l \<and> d \<le> b \<and>
    (\<forall>y<bs. add_data rest bs adds ! ((b - d) * bs + y) = rest r ! ((k - o') * bs + y))"
  using assms
proof (induction adds arbitrary: d)
  case Nil
  then show ?case by (simp add: add_extents_def)
next
  case (Cons a adds)
  obtain o' l r where a: "a = (o', l, r)" by (metis prod_cases3)
  have en: "l * bs \<le> length (rest r)" "enough_data rest bs adds" using Cons.prems(1) by (auto simp: a enough_data_def)
  have ad: "add_data rest bs (a # adds) = take (l * bs) (rest r) @ add_data rest bs adds" by (simp add: a add_data_def)
  show ?case
  proof (cases "k < o' + l")
    case True
    with Cons.prems(2) have o': "o' \<le> k" "b = d + (k - o')" by (auto simp: a add_extents_Cons split: if_splits)
    have "(take (l * bs) (rest r) @ ys) ! ((k - o') * bs + y) = rest r ! ((k - o') * bs + y)" if y: "y < bs" for y ys
    proof -
      have "Suc (k - o') * bs \<le> l * bs" using True o'(1) by (intro mult_le_mono1) simp
      with y have "(k - o') * bs + y < l * bs" by simp
      with en(1) show ?thesis by (simp add: nth_append)
    qed
    with True o' ad show ?thesis by (auto simp: a)
  next
    case False
    with Cons.prems(2) have "data_block k (add_extents adds) (d + l) = Some b" by (simp add: a add_extents_Cons)
    from Cons.IH [OF en(2) this] obtain o2 l2 r2 where
      IH: "(o2, l2, r2) \<in> set adds" "o2 \<le> k" "k < o2 + l2" "d + l \<le> b"
        "\<forall>y<bs. add_data rest bs adds ! ((b - (d + l)) * bs + y) = rest r2 ! ((k - o2) * bs + y)" by blast
    have "add_data rest bs (a # adds) ! ((b - d) * bs + y) = add_data rest bs adds ! ((b - (d + l)) * bs + y)" for y
    proof -
      have "b - d = l + (b - (d + l))" using IH(4) by simp
      then have "(b - d) * bs = l * bs + (b - (d + l)) * bs" by (metis add_mult_distrib)
      with en(1) show ?thesis unfolding ad by (simp add: nth_append)
    qed
    with IH show ?thesis by (intro bexI [of _ "(o2, l2, r2)"]) auto
  qed
qed

lemma data_block_None:
  assumes "extents_ok es" "data_block k es d = None" "(o', l) \<in> set es"
  shows "\<not> (o' \<le> k \<and> k < o' + l)"
  using assms
proof (induction es arbitrary: d)
  case (Cons e es)
  obtain a m where e: "e = (a, m)" by fastforce
  have ok: "extents_ok es" "\<forall>x\<in>set es. a + m \<le> fst x" using Cons.prems(1) by (auto simp: e extents_ok_def)
  show ?case
  proof (cases "k < a + m")
    case True
    with Cons.prems(2) have "\<not> a \<le> k" by (auto simp: e split: if_splits)
    with True ok(2) Cons.prems(3) show ?thesis by (auto simp: e)
  next
    case False
    with Cons.prems(2) have "data_block k es (d + m) = None" by (simp add: e)
    with Cons.IH [OF ok(1)] Cons.prems(3) False show ?thesis by (auto simp: e)
  qed
qed simp

lemma section_of:
  assumes "o' + l \<le> max_off"
  shows "section_rest c (NewSectionReader R (int o') (int l)) = read_data c o' l"
    "section_valid R c (NewSectionReader R (int o') (int l)) \<longleftrightarrow> all_data c o' l"
proof -
  have "int (o' + l) \<le> int max_off" using assms by (simp only: of_nat_le_iff)
  moreover have "int max_off = 2 ^ 63 - 1" by simp
  ultimately have "int o' \<le> 2 ^ 63 - 1 - int l" by linarith
  then show "section_rest c (NewSectionReader R (int o') (int l)) = read_data c o' l"
    "section_valid R c (NewSectionReader R (int o') (int l)) \<longleftrightarrow> all_data c o' l"
    by (simp_all add: section_rest_def section_valid_def NewSectionReader_def)
qed

lemma copied_sections:
  assumes "copied R c bs k adds" "extents_end (add_extents adds) * bs \<le> max_off" "(o', l, r) \<in> set adds"
  shows "section_rest c r = read_data c (o' * bs) (l * bs)" "section_valid R c r" "all_data c (o' * bs) (l * bs)"
proof -
  have "(o', l) \<in> set (add_extents adds)" using assms(3) by (force simp: add_extents_def)
  then have "o' + l \<le> extents_end (add_extents adds)"
    using extents_end_le [of "add_extents adds" "extents_end (add_extents adds)"] by force
  then have "(o' + l) * bs \<le> extents_end (add_extents adds) * bs" by (intro mult_le_mono1)
  then have "o' * bs + l * bs \<le> max_off" using assms(2) by (simp add: add_mult_distrib)
  moreover have "r = NewSectionReader R (int (o' * bs)) (int (l * bs))" "all_data c (o' * bs) (l * bs)"
    using assms(1,3) by (auto simp: copied_def)
  ultimately show "section_rest c r = read_data c (o' * bs) (l * bs)" "section_valid R c r" "all_data c (o' * bs) (l * bs)"
    using section_of by (simp_all del: of_nat_mult)
qed

lemma copied_content:
  assumes cp: "\<forall>k\<ge>K. copied R c bs k adds" and al: "block_aligned bs c" and bs: "0 < bs"
    and fit: "extents_end (add_extents adds) * bs \<le> max_off"
  shows "enough_data (section_rest c) bs adds"
    "table_content bs (add_extents adds) (add_data (section_rest c) bs adds) = c"
proof -
  have cpk: "copied R c bs K adds" using cp by blast
  note sec = copied_sections [OF cpk fit]
  show en: "enough_data (section_rest c) bs adds" using sec(1) by (auto simp: enough_data_def)
  have ok: "extents_ok (add_extents adds)" using cpk by (simp add: copied_def)
  show "table_content bs (add_extents adds) (add_data (section_rest c) bs adds) = c"
  proof
    fix x
    show "table_content bs (add_extents adds) (add_data (section_rest c) bs adds) x = c x"
    proof (cases "data_block (x div bs) (add_extents adds) 0")
      case None
      have "to_blocks bs c (x div bs) = None"
      proof (rule ccontr)
        assume "to_blocks bs c (x div bs) \<noteq> None"
        moreover have "copied R c bs (max K (Suc (x div bs))) adds" using cp by simp
        ultimately obtain e where "e \<in> set (add_extents adds)" "fst e \<le> x div bs" "x div bs < fst e + snd e"
          unfolding copied_def by (meson lessI less_max_iff_disj)
        with data_block_None [OF ok None, of "fst e" "snd e"] show False by simp
      qed
      then have "c (x div bs * bs) = None" by (simp add: to_blocks_def split: if_splits)
      with al have "c x = None" unfolding block_aligned_def by metis
      with None show ?thesis by (simp add: table_content_block [OF bs])
    next
      case (Some b)
      from data_block_add [OF en Some] obtain o' l r where
        r: "(o', l, r) \<in> set adds" "o' \<le> x div bs" "x div bs < o' + l"
          "\<forall>y<bs. add_data (section_rest c) bs adds ! (b * bs + y) = section_rest c r ! ((x div bs - o') * bs + y)" by auto
      let ?i = "(x div bs - o') * bs + x mod bs"
      have "Suc (x div bs - o') * bs \<le> l * bs" using r(2,3) by (intro mult_le_mono1) simp
      moreover have "x mod bs < bs" using bs by simp
      ultimately have i: "?i < l * bs" by simp
      have "o' * bs \<le> x div bs * bs" using r(2) by (rule mult_le_mono1)
      moreover have "?i = x div bs * bs - o' * bs + x mod bs" by (simp only: diff_mult_distrib)
      ultimately have x: "o' * bs + ?i = x" using div_mult_mod_eq [of x bs] by linarith
      have "c (o' * bs + ?i) \<noteq> None" using sec(3) [OF r(1)] i unfolding all_data_def by blast
      moreover have "section_rest c r ! ?i = the (c (o' * bs + ?i))" unfolding sec(1) [OF r(1)] by (rule nth_read_data [OF i])
      ultimately show ?thesis using Some r(4) \<open>x mod bs < bs\<close> unfolding x by (auto simp: table_content_block [OF bs])
    qed
  qed
qed

lemma blocks_in_card:
  assumes "extents_ok es"
  shows "blocks_in es = card (\<Union>(o', l)\<in>set es. {o'..<o' + l})"
  using assms
proof (induction es)
  case (Cons e es)
  obtain o' l where e: "e = (o', l)" by fastforce
  have ok: "extents_ok es" "\<forall>x\<in>set es. o' + l \<le> fst x" using Cons.prems by (auto simp: e extents_ok_def)
  have "{o'..<o' + l} \<inter> (\<Union>(o', l)\<in>set es. {o'..<o' + l}) = {}" using ok(2) by fastforce
  then have "card ({o'..<o' + l} \<union> (\<Union>(o', l)\<in>set es. {o'..<o' + l})) = l + card (\<Union>(o', l)\<in>set es. {o'..<o' + l})"
    by (subst card_Un_disjoint) auto
  with Cons.IH [OF ok(1)] show ?case by (simp add: e)
qed simp

lemma length_all_chunks: "length (all_chunks es) \<le> blocks_in es"
proof (induction es)
  case (Cons e es)
  have "length (chunks o' l) \<le> l" for o' l
  proof (induction o' l rule: chunks.induct)
    case (1 o' l)
    show ?case
    proof (cases "l = 0")
      case False
      then have "chunks o' l = (o', min l 127) # chunks (o' + min l 127) (l - min l 127)" by (subst chunks.simps) simp
      with 1 [OF False] False show ?thesis by simp
    qed simp
  qed
  with Cons show ?case by (auto simp: all_chunks_def add_mono split: prod.splits)
qed (simp add: all_chunks_def)

text \<open>A source the format has room for: aligned, below block \<open>2 ^ 48\<close>, with fewer than \<open>2 ^ 28\<close> blocks of data
  and not empty.\<close>

definition source_fits :: "nat \<Rightarrow> (nat \<rightharpoonup> byte) \<Rightarrow> bool" where
  "source_fits bs c \<longleftrightarrow> block_aligned bs c \<and> 512 \<le> bs \<and> bs \<le> 1024 * 1024 \<and> c \<noteq> Map.empty \<and>
     (\<forall>i. to_blocks bs c i \<noteq> None \<longrightarrow> i < 2 ^ 48) \<and> card {i. to_blocks bs c i \<noteq> None} < 2 ^ 28"

context hole_reader_at
begin

lemma copied_fits:
  assumes src: "source_fits bs c" and cp: "\<forall>k\<ge>K. copied (ReadAt R) c bs k adds"
  shows "adds_fit bs (add_extents adds)"
proof -
  have s: "block_aligned bs c" "0 < bs" "512 \<le> bs" "bs \<le> 1024 * 1024" "\<forall>i. to_blocks bs c i \<noteq> None \<longrightarrow> i < 2 ^ 48"
    "card {i. to_blocks bs c i \<noteq> None} < 2 ^ 28" using src by (auto simp: source_fits_def)
  let ?es = "add_extents adds" and ?B = "to_blocks bs c"
  have cpk: "copied (ReadAt R) c bs K adds" using cp by blast
  then have ok: "extents_ok ?es" by (simp add: copied_def)
  have data: "?B i \<noteq> None" if "(o', l) \<in> set ?es" "o' \<le> i" "i < o' + l" for o' l i
  proof -
    from that(1) obtain r where "(o', l, r) \<in> set adds" by (auto simp: add_extents_def)
    then have "all_data c (o' * bs) (l * bs)" using cpk by (auto simp: copied_def)
    then have "all_data ?B o' l" using all_data_blocks [OF s(1,2)] by blast
    then have "?B (o' + (i - o')) \<noteq> None" unfolding all_data_def using that(2,3) by (metis add_less_cancel_left le_add_diff_inverse)
    with that(2) show ?thesis by simp
  qed
  have last: "o' + l \<le> 2 ^ 48 \<and> (o' + l) * bs \<le> max_off" if e: "(o', l) \<in> set ?es" for o' l
  proof -
    have l: "0 < l" using ok e by (auto simp: extents_ok_def)
    have B: "?B (o' + l - 1) \<noteq> None" using data [OF e] l by simp
    have "o' + l - 1 < 2 ^ 48" using s(5) B by blast
    moreover have "all_data ?B (o' + l - 1) 1" using B by (simp add: all_data_def)
    then have "all_data c ((o' + l - 1) * bs) (1 * bs)" using all_data_blocks [OF s(1,2)] by blast
    then have "c ((o' + l - 1) * bs + (bs - 1)) \<noteq> None"
      unfolding all_data_def using s(2) by (elim allE [of _ "bs - 1"]) (simp only: mult_1 diff_less zero_less_one simp_thms)
    from byte_bounded [OF this] have "(o' + l - 1) * bs + (bs - 1) < max_off" .
    moreover have "(o' + l) * bs = (o' + l - 1) * bs + bs" using l by (cases "o' + l") auto
    ultimately show ?thesis using s(2) by linarith
  qed
  have ends: "extents_end ?es \<le> 2 ^ 48" unfolding extents_end_le using last by fastforce
  have ends': "extents_end ?es * bs \<le> max_off"
  proof -
    have "extents_end ?es \<le> max_off div bs"
      unfolding extents_end_le
    proof
      fix e assume "e \<in> set ?es"
      with last [of "fst e" "snd e"] s(2) show "fst e + snd e \<le> max_off div bs"
        by (simp add: less_eq_div_iff_mult_less_eq)
    qed
    then show ?thesis using s(2) by (simp add: less_eq_div_iff_mult_less_eq)
  qed
  have fin: "finite {i. ?B i \<noteq> None}" by (rule finite_subset [of _ "{..<2 ^ 48}"]) (use s(5) in auto)
  have "blocks_in ?es \<le> card {i. ?B i \<noteq> None}"
    unfolding blocks_in_card [OF ok] by (rule card_mono [OF fin]) (use data in auto)
  then have few: "length (all_chunks ?es) < 2 ^ 28" using length_all_chunks [of ?es] s(6) by linarith
  have "?es \<noteq> []"
  proof
    assume "?es = []"
    with copied_content(2) [OF cp s(1,2)] have "c = Map.empty" by (auto simp: table_content_def fun_eq_iff)
    then show False using src by (simp add: source_fits_def)
  qed
  with ok ends ends' few s show ?thesis by (simp add: adds_fit_def)
qed

end

lemma copied_start: "copied R c bs 0 []"
  by (simp add: copied_def add_extents_def extents_ok_def)

lemma copy_ok:
  assumes src: "hole_reader_at src c" "source_fits bs c"
    and sink: "table_sink SectionReader_Read (section_rest c) (section_valid (ReadAt src) c) Write written rf P WriteMany"
    and dst: "written dst = []"
  obtains w' e where "BuildFromReader P WriteMany Write rf dst src (int bs) None = Some (w', e)"
    "e = None \<longrightarrow> (\<forall>R. reader_at R (written w') \<longrightarrow> length (written w') \<le> max_off \<longrightarrow>
       (\<exists>r. sparse_Load P R = Some (Some r, None) \<and> hole_reader_at (sparse_reader_at r) c))"
    "copies_live Write rf SectionReader_Read (section_valid (ReadAt src) c) \<longrightarrow> e = None"
proof -
  have s: "block_aligned bs c" "0 < bs" "\<forall>i. to_blocks bs c i \<noteq> None \<longrightarrow> i < 2 ^ 48" using src(2) by (auto simp: source_fits_def)
  from hole_reader_at.collect_runs_ok [OF src(1) s builder_new [of dst "int bs"], of 0]
  obtain b gs adds where b: "collect_runs src (int bs) (2 ^ 63 - 1) (NewBuilder dst (int bs)) 0 0 0 = Some (b, length adds, None)"
    "builder_ok b gs adds" "\<exists>K. \<forall>k'\<ge>K. copied (ReadAt src) c bs k' adds" "prevEnd b \<le> int (extents_end (add_extents adds))"
    "b_w b = bufio_NewWriterSize dst writeBufferSize" "b_blockSize b = int bs"
    by (auto simp: copied_start NewBuilder_def add_extents_def)
  then obtain K where K: "\<forall>k'\<ge>K. copied (ReadAt src) c bs k' adds" by blast
  note fit = hole_reader_at.copied_fits [OF src K]
  then have e: "extents_end (add_extents adds) * bs \<le> max_off" "adds \<noteq> []" by (auto simp: adds_fit_def add_extents_def)
  note cc = copied_content [OF K s(1,2) e(1)]
  have v: "\<forall>(o', l, r)\<in>set adds. section_valid (ReadAt src) c r"
    using copied_sections(2) [OF K [THEN spec, of K, simplified] e(1)] by blast
  obtain w e where w: "Build P WriteMany Write rf SectionReader_Read b = Some (w, e)"
    "e = None \<longrightarrow> enough_data (section_rest c) bs adds \<and>
       (\<forall>R. reader_at R (written (bw_wr w)) \<longrightarrow> length (written (bw_wr w)) \<le> max_off \<longrightarrow>
       (\<exists>r. sparse_Load P R = Some (Some r, None) \<and>
         table_serves r bs (add_extents adds) (add_data (section_rest c) bs adds)))"
    "copies_live Write rf SectionReader_Read (section_valid (ReadAt src) c) \<longrightarrow> enough_data (section_rest c) bs adds \<longrightarrow> e = None"
    by (rule table_sink.build_load [OF sink fit v dst b(2,4-6)])
  have sv: "table_serves r bs (add_extents adds) (add_data (section_rest c) bs adds) \<Longrightarrow> hole_reader_at (sparse_reader_at r) c" for r
    unfolding table_serves_def cc(2) by (rule conjunct1)
  have "BuildFromReader P WriteMany Write rf dst src (int bs) None = Some (bw_wr w, e)"
    using b(1) w(1) e(2) by (simp add: BuildFromReader_def)
  moreover have "e = None \<longrightarrow> (\<forall>R. reader_at R (written (bw_wr w)) \<longrightarrow> length (written (bw_wr w)) \<le> max_off \<longrightarrow>
       (\<exists>r. sparse_Load P R = Some (Some r, None) \<and> hole_reader_at (sparse_reader_at r) c))"
    using w(2) sv by meson
  ultimately show thesis using that w(3) cc(1) by blast
qed

section \<open>An instance\<close>

text \<open>A codec for the header that writes each field as eight bytes, a destination in memory, and the
  source of \<^const>\<open>mem_reader\<close>.\<close>

definition header_codec :: "sparse_Header proto_ops" where
  "header_codec = \<lparr>
     proto_Marshal = (\<lambda>h. Inr (concat (map (le_bytes 8) [Version h, BlockSize h, NumRangeEntries h, RangeEntrySize h,
       NumBlockEntries h, BlockEntrySize h, TotalBlocks h, TotalDataBlocks h, EndBlock h]))),
     proto_Unmarshal = (\<lambda>b. let f = (\<lambda>i. le_nat (take 8 (drop (8 * i) b)))
       in if length b \<noteq> 72 then Inl (Err ''unmarshal'')
          else Inr \<lparr>Version = f 0, BlockSize = f 1, NumRangeEntries = f 2, RangeEntrySize = f 3, NumBlockEntries = f 4,
            BlockEntrySize = f 5, TotalBlocks = f 6, TotalDataBlocks = f 7, EndBlock = f 8\<rparr>)\<rparr>"

interpretation header_codec: proto_message header_codec header_wf
  by unfold_locales (simp add: header_codec_def header_wf_def le_nat_le_bytes)

lemma mem_sink:
  assumes "hole_reader_at src c"
  shows "table_sink SectionReader_Read (section_rest c) (section_valid (ReadAt src) c) mem_Write id None header_codec
    (write_all (bw_Write mem_Write))"
proof -
  have sec: "reliable_reader SectionReader_Read (section_rest c) (section_valid (ReadAt src) c)"
    using assms by (rule hole_reader_at.section_reader)
  then have io: "io_reader SectionReader_Read (section_rest c) (section_valid (ReadAt src) c)" by (rule reliable_reader.axioms)
  show ?thesis
    by (intro table_sink.intro io io_copy.intro io_reader.limited [OF io] mem_file.io_writer_axioms io_copy_axioms.intro
        header_codec.proto_message_axioms write_all.write_many_axioms) simp
qed

lemma mem_sink_live:
  assumes "hole_reader_at src c"
  shows "copies_live mem_Write None SectionReader_Read (section_valid (ReadAt src) c)"
proof -
  have sec: "reliable_reader SectionReader_Read (section_rest c) (section_valid (ReadAt src) c)"
    using assms by (rule hole_reader_at.section_reader)
  have "reliable_copy mem_Write id (LimitedReader_Read SectionReader_Read) (limited_rest (section_rest c))
      (\<lambda>l. section_valid (ReadAt src) c (lr_R l)) None"
    using reliable_reader.limited_live [OF sec] mem_Write_live
    by (intro reliable_copy.intro io_copy.intro mem_file.io_writer_axioms io_copy_axioms.intro reliable_copy_axioms.intro)
      (auto intro: reliable_reader.axioms)
  from reliable_copy.ReadFrom_reliable [OF this] show ?thesis
    unfolding copies_live_def using mem_Write_live by blast
qed

interpretation ram_sink: table_sink SectionReader_Read "section_rest (mem_content [1, 2, 3, 4])"
  "section_valid (ReadAt (mem_reader [1, 2, 3, 4])) (mem_content [1, 2, 3, 4])" mem_Write id None header_codec
  "write_all (bw_Write mem_Write)"
  by (rule mem_sink [OF ram.hole_reader_at_axioms])

definition sample_image :: bytes where
  "sample_image = table_image [] [(0, [(0, 1)])] (replicate 512 7)"

interpretation sample_table: sparse_table "file_ReadAt sample_image" sample_image
  "loaded (file_ReadAt sample_image) (table_header 512 [(0, [(0, 1)])] 1) [] [(0, [(0, 1)])]" "[(0, [(0, 1)])]" 512
  "data_start [] [(0, [(0, 1)])]"
proof (rule os_file.loaded_table(1) [where k = 1 and D = "replicate 512 7"])
  show "sample_image = table_image [] [(0, [(0, 1)])] (replicate 512 7)" by (simp add: sample_image_def)
  show "length sample_image \<le> max_off"
    by (simp add: sample_image_def table_image_def length_sparse_Magic length_range_bytes length_encode_entries)
qed (simp_all add: extents_def open_ranges_def extents_ok_def)

definition sample_block :: bytes where
  "sample_block = replicate 512 7"

lemma sample_source: "hole_reader_at (mem_reader sample_block) (mem_content sample_block)"
  by (rule mem_reader_ok) (simp add: sample_block_def)

lemma sample_fits: "source_fits 512 (mem_content sample_block)"
proof -
  have B: "to_blocks 512 (mem_content sample_block) i \<noteq> None \<longleftrightarrow> i = 0" for i
    by (auto simp: to_blocks_def mem_content_def sample_block_def)
  have "mem_content sample_block 0 \<noteq> None" by (simp add: mem_content_def sample_block_def)
  then have "mem_content sample_block \<noteq> Map.empty" by metis
  moreover have "block_aligned 512 (mem_content sample_block)"
    using mem_aligned [of 512 sample_block] by (simp add: sample_block_def)
  ultimately show ?thesis unfolding source_fits_def B by simp
qed

section \<open>Properties\<close>

text \<open>C13. A table built by \<open>BuildFromReader\<close> is a copy of its source. For every source that satisfies the contract of
  byte readers, whose data is made of whole blocks and which the format has room for, \<open>BuildFromReader\<close> returns; and if it
  returns nil, then \<open>Load\<close> of the file written succeeds and the reader loaded has exactly the content of the
  source: the same data, the same holes.\<close>

theorem BuildFromReader_copies:
  assumes "hole_reader_at src c" "source_fits bs c"
    and "table_sink SectionReader_Read (section_rest c) (section_valid (ReadAt src) c) Write written rf P WriteMany"
    and "written dst = []"
  shows "\<exists>w e. BuildFromReader P WriteMany Write rf dst src (int bs) None = Some (w, e) \<and>
    (e = None \<longrightarrow> (\<forall>R. reader_at R (written w) \<longrightarrow> length (written w) \<le> max_off \<longrightarrow>
       (\<exists>r. sparse_Load P R = Some (Some r, None) \<and> hole_reader_at (sparse_reader_at r) c)))"
  using copy_ok [OF assms] by metis

theorem BuildFromReader_copies_witness:
  "\<exists>w e. BuildFromReader header_codec (write_all (bw_Write mem_Write)) mem_Write None [] (mem_reader sample_block) 512 None = Some (w, e) \<and>
    (e = None \<longrightarrow> (\<forall>R. reader_at R w \<longrightarrow> length w \<le> max_off \<longrightarrow>
       (\<exists>r. sparse_Load header_codec R = Some (Some r, None) \<and> hole_reader_at (sparse_reader_at r) (mem_content sample_block))))"
  using BuildFromReader_copies [OF sample_source sample_fits mem_sink [OF sample_source], of "[]"] by simp

text \<open>C15. \<open>BuildFromReader\<close> returns nil when the destination does not fail: reading the source through the sections it
  hands to the builder never fails, so the copy is complete.\<close>

theorem BuildFromReader_succeeds:
  assumes "hole_reader_at src c" "source_fits bs c"
    and "table_sink SectionReader_Read (section_rest c) (section_valid (ReadAt src) c) Write written rf P WriteMany"
    and "written dst = []" "copies_live Write rf SectionReader_Read (section_valid (ReadAt src) c)"
  shows "\<exists>w. BuildFromReader P WriteMany Write rf dst src (int bs) None = Some (w, None)"
  using copy_ok [OF assms(1-4)] assms(5) by metis

theorem BuildFromReader_succeeds_witness:
  "\<exists>w. BuildFromReader header_codec (write_all (bw_Write mem_Write)) mem_Write None [] (mem_reader sample_block) 512 None = Some (w, None)"
  using BuildFromReader_succeeds [OF sample_source sample_fits mem_sink [OF sample_source] _ mem_sink_live [OF sample_source], of "[]"]
  by simp

text \<open>C14. Build, then load. For every sequence of \<open>AddBlocks\<close> calls in order that the format has room for,
  \<open>AddBlocks\<close> does not panic and \<open>Build\<close> returns; and if it returns nil, every reader held the data of its blocks, and
  \<open>Load\<close> of the file gives a reader of exactly the blocks added: \<open>ReadAt\<close> at any offset fills the holes between
  the extents with zeros, returns \<open>io.EOF\<close> at the end of the last one, and \<open>Size\<close> is that end.\<close>

theorem sparse_build_load:
  assumes "table_sink Read rest valid Write written rf P WriteMany" "adds_fit bs (add_extents adds)"
    and "\<forall>(o', l, r)\<in>set adds. valid r" "written dst = []"
  shows "\<exists>b w e. AddBlocks_all (NewBuilder dst (int bs)) adds = Some b \<and> Build P WriteMany Write rf Read b = Some (w, e) \<and>
    (e = None \<longrightarrow> enough_data rest bs adds \<and>
      (\<forall>R. reader_at R (written (bw_wr w)) \<longrightarrow> length (written (bw_wr w)) \<le> max_off \<longrightarrow>
        (\<exists>r. sparse_Load P R = Some (Some r, None) \<and> table_serves r bs (add_extents adds) (add_data rest bs adds))))"
proof -
  obtain b gs where b: "AddBlocks_all (NewBuilder dst (int bs)) adds = Some b" "builder_ok b gs adds"
    "prevEnd b \<le> int (extents_end (add_extents adds))" "b_w b = bufio_NewWriterSize dst writeBufferSize" "b_blockSize b = int bs"
    by (rule AddBlocks_all_new [OF assms(2)])
  show ?thesis by (rule table_sink.build_load [OF assms b(2-5)]) (use b(1) in blast)
qed

theorem sparse_build_load_witness:
  "\<exists>b w e. AddBlocks_all (NewBuilder [] 512) [(3, 1, NewSectionReader (ReadAt (mem_reader sample_block)) 0 512)] = Some b \<and>
    Build header_codec (write_all (bw_Write mem_Write)) mem_Write None SectionReader_Read b = Some (w, e) \<and>
    (e = None \<longrightarrow> (\<forall>R. reader_at R (bw_wr w) \<longrightarrow> length (bw_wr w) \<le> max_off \<longrightarrow>
      (\<exists>r. sparse_Load header_codec R = Some (Some r, None) \<and> sparse_Size r = 4 * 512)))"
proof -
  let ?s = "NewSectionReader (ReadAt (mem_reader sample_block)) 0 512"
  have v: "section_valid (ReadAt (mem_reader sample_block)) (mem_content sample_block) ?s"
    by (simp add: section_valid_def NewSectionReader_def all_data_def mem_content_def sample_block_def)
  have "length (all_chunks (add_extents [(3, 1, ?s)])) < 2 ^ 28"
    using length_all_chunks [of "add_extents [(3, 1, ?s)]"] by (simp add: add_extents_def)
  then have "adds_fit 512 (add_extents [(3, 1, ?s)])"
    by (simp add: adds_fit_def add_extents_def extents_ok_def)
  from sparse_build_load [OF mem_sink [OF sample_source] this _ id_apply] v show ?thesis
    by (fastforce simp: table_serves_def add_extents_def)
qed

lemma AddBlocks_loop_total:
  "0 \<le> eOffset \<Longrightarrow> AddBlocks_loop offset len eOffset b \<noteq> None"
proof (induction offset len eOffset b rule: AddBlocks_loop.induct)
  case (1 offset len eOffset b)
  show ?case
  proof (cases "eOffset < len")
    case True
    then have l: "0 < eLen_of len eOffset" "eLen_of len eOffset \<le> maxEntryLength"
      by (simp_all add: eLen_of_def maxEntryLength_def)
    then have set: "setLengthType e (eLen_of len eOffset) EntryType_Data \<noteq> None" for e
      by (simp add: setLengthType_def)
    show ?thesis
      using True "1.IH" [OF True refl refl refl refl refl] l(1) "1.prems" set
      by (subst AddBlocks_loop.simps) (auto simp: Let_def bind_eq_None_conv)
  qed (subst AddBlocks_loop.simps, simp)
qed

text \<open>C30. \<open>AddBlocks\<close> panics exactly on its documented errors: a negative offset or length, too many blocks, or an offset
  before the end of the previous call. Splitting a call into entries never panics and always ends.\<close>

theorem AddBlocks_panics_iff:
  fixes b :: "('w, 'r) Builder"
  shows "AddBlocks b offset len r = None \<longleftrightarrow>
     offset < 0 \<or> len < 0 \<or> len > MaxBlocks \<or> b_dataOffset b + len > MaxBlocks \<or> offset < prevEnd b"
proof -
  have "Option.bind (AddBlocks_loop offset len 0 b') (\<lambda>b. Some (f b)) \<noteq> None"
    for b' :: "('w, 'r) Builder" and f :: "_ \<Rightarrow> ('w, 'r) Builder"
    using AddBlocks_loop_total [of 0 offset len b'] by (auto simp: bind_eq_None_conv)
  then show ?thesis by (simp add: AddBlocks_def Let_def del: not_None_eq)
qed

text \<open>The index entries keep 48 bits of an offset and eight of a count.\<close>

lemma rangeEntry_marshal_mod:
  "rangeEntry_marshalAppend e [] = rangeEntry_marshalAppend
     (e\<lparr>startOffset := startOffset e mod 2 ^ 48, re_dataOffset := re_dataOffset e mod 2 ^ 48, numEntries := numEntries e mod 256\<rparr>) []"
proof -
  have m: "uint64 x AND blockMask = uint64 (x mod 2 ^ 48) AND blockMask" for x
  proof -
    have "nat y mod 2 ^ 48 = nat (y mod 2 ^ 48)" if "0 \<le> y" for y :: int using that by (simp add: nat_mod_distrib)
    moreover have "x mod 2 ^ 64 mod 2 ^ 48 = x mod 2 ^ 48" "x mod 2 ^ 48 mod 2 ^ 64 mod 2 ^ 48 = x mod 2 ^ 48"
      by (simp_all add: mod_mod_cancel)
    ultimately show ?thesis by (simp add: and_blockMask uint64_def)
  qed
  have "(of_int (numEntries e) :: byte) = of_int (numEntries e mod 256)"
    by (simp add: word_of_int_eq_iff take_bit_eq_mod)
  then show ?thesis using m [of "startOffset e"] m [of "re_dataOffset e"] by (simp add: rangeEntry_marshalAppend_def)
qed

lemma rangeEntry_codec:
  "rangeEntry_unmarshal e0 (rangeEntry_marshalAppend e []) = Some (e0\<lparr>startOffset := startOffset e mod 2 ^ 48,
     re_dataOffset := re_dataOffset e mod 2 ^ 48, numEntries := numEntries e mod 256\<rparr>)"
  by (subst rangeEntry_marshal_mod, subst rangeEntry_roundtrip) simp_all

text \<open>C31. The index entries read back as written within their widths. A range entry keeps the low 48 bits of its
  offsets and the low 8 of its count; a block entry of up to 127 blocks at up to 65535 blocks from the start of its
  range is read back exactly.\<close>

theorem entry_codecs:
  "rangeEntry_unmarshal e0 (rangeEntry_marshalAppend e []) = Some (e0\<lparr>startOffset := startOffset e mod 2 ^ 48,
     re_dataOffset := re_dataOffset e mod 2 ^ 48, numEntries := numEntries e mod 256\<rparr>) \<and>
   (o' < 2 ^ 16 \<longrightarrow> l \<le> 127 \<longrightarrow> (\<exists>be. setLengthType \<lparr>be_offset = o', lengthType = 0\<rparr> (int l) EntryType_Data = Some be \<and>
     blockEntry_unmarshal (blockEntry_marshalAppend be []) = Some be \<and> be_offset be = o' \<and> blockEntry_length be = int l))"
  by (simp add: rangeEntry_codec setLengthType_ok blockEntry_roundtrip blockEntry_length_def drop_bit_eq_div)

theorem entry_codecs_witness:
  "\<exists>be. setLengthType \<lparr>be_offset = 65535, lengthType = 0\<rparr> (int 127) EntryType_Data = Some be \<and>
     blockEntry_unmarshal (blockEntry_marshalAppend be []) = Some be \<and> be_offset be = 65535 \<and> blockEntry_length be = int 127"
  using entry_codecs [of undefined undefined 65535 127] by simp

text \<open>C32. \<open>AddBlocks\<close> does not check that an offset fits in the 48 bits of the index: a block added at \<open>2 ^ 48 + k\<close> is
  accepted, and the range entry written for it is read back with start \<open>k\<close>.\<close>

theorem AddBlocks_offset_truncated:
  assumes "k < 2 ^ 48"
  shows "\<exists>b re. AddBlocks (NewBuilder w bs) (2 ^ 48 + int k) 1 r = Some b \<and> ranges b = [re] \<and> startOffset re = 2 ^ 48 + int k \<and>
    map_option startOffset (rangeEntry_unmarshal e0 (rangeEntry_marshalAppend re [])) = Some (int k)"
proof -
  have "builder_ok (NewBuilder w bs) [] []" by (rule builder_new)
  let ?re = "\<lparr>startOffset = 2 ^ 48 + int k, re_dataOffset = 0, numEntries = 1, firstEntryIndex = 0\<rparr>"
  let ?o = "2 ^ 48 + int k"
  have o': "s64 ?o = ?o" using assms by (intro s64_id) simp_all
  have "s64 (?o + 0) = ?o" "s64 (?o - ?o) = 0" using o' by (simp_all add: s64_def)
  then have "\<exists>b. AddBlocks (NewBuilder w bs) ?o 1 r = Some b \<and> ranges b = [?re]"
    by (simp add: AddBlocks_def NewBuilder_def MaxBlocks_def AddBlocks_loop.simps [of _ _ 0] AddBlocks_loop.simps [of _ _ 1]
        eLen_of_def maxEntryLength_def maxRangeEntries_def setLengthType_def EntryType_Data_def Let_def)
  then show ?thesis using assms by (fastforce simp: rangeEntry_codec)
qed

theorem AddBlocks_offset_truncated_witness:
  "\<exists>b re. AddBlocks (NewBuilder () 512) (2 ^ 48 + int 5) 1 () = Some b \<and> ranges b = [re] \<and> startOffset re = 2 ^ 48 + int 5 \<and>
    map_option startOffset (rangeEntry_unmarshal undefined (rangeEntry_marshalAppend re [])) = Some (int 5)"
  using AddBlocks_offset_truncated [of 5 "()" 512 "()" undefined] by simp

text \<open>C33. An empty source makes \<open>BuildFromReader\<close> panic, whatever the options: the deferred log message divides by the
  number of runs.\<close>

theorem BuildFromReader_empty_panics:
  assumes "hole_reader_at src Map.empty"
  shows "BuildFromReader P WriteMany Write rf dst src bs opts = None"
proof -
  have "next_data Map.empty 0 = None" by (simp add: next_data_None)
  from hole_reader_at.NextData_end [OF assms _ this] obtain e where e: "NextData src 0 = Some (e, Some EOF)" by auto
  have "collect_runs src bs m b 0 0 0 = Some (b, 0, None)" if "0 < m" for m and b :: "('a, SectionReader) Builder"
    using e that by (subst collect_runs.simps) simp
  then show ?thesis
    by (auto simp: BuildFromReader_def Let_def split: option.splits bind_splits)
qed

theorem BuildFromReader_empty_panics_witness:
  "BuildFromReader header_codec (write_all (bw_Write mem_Write)) mem_Write None [] (mem_reader []) 512 None = None"
proof -
  have "mem_content [] = (Map.empty :: nat \<rightharpoonup> byte)" by (simp add: mem_content_def fun_eq_iff)
  with mem_reader_ok [of "[]"] show ?thesis by (intro BuildFromReader_empty_panics) simp
qed

lemma empty_table_uses:
  assumes "sr_ranges r = []" "NumRangeEntries (sr_header r) = 0"
  shows "sparse_NextData r off = None" "sparse_NextHole r off = None" "p \<noteq> [] \<Longrightarrow> sparse_ReadAt r p off = None" "LogLoadStats r = None"
proof -
  have "sort_Search 0 f = 0" for f using sort_Search_ok(1) [of 0 f] by simp
  then have g: "getNextEntry r k = None" for k using assms(1) by (simp add: getNextEntry_def fillEntry_def)
  show "sparse_NextData r off = None" "LogLoadStats r = None" using g assms(2) by (simp_all add: sparse_NextData_def LogLoadStats_def)
  show "sparse_NextHole r off = None" by (subst sparse_NextHole.simps) (simp add: g)
  show "sparse_ReadAt r p off = None" if "p \<noteq> []"
    unfolding sparse_ReadAt_def using that by (subst sparse_ReadAt_loop.simps) (simp add: g)
qed

lemma empty_table_Load:
  assumes "length hdr < 2 ^ 31" "proto_Unmarshal P hdr = Inr (table_header bs [] 0)" "512 \<le> bs" "bs \<le> 1024 * 1024"
  shows "\<exists>r. sparse_Load P (file_ReadAt (table_image hdr [] [])) = Some (Some r, None) \<and> sr_ranges r = [] \<and>
    NumRangeEntries (sr_header r) = 0"
proof -
  have f: "table_image hdr [] [] = sparse_Magic @ le_bytes 4 (length hdr) @ hdr"
    by (simp add: table_image_def range_bytes_def encode_entries_def)
  have hs: "le_nat (le_bytes 4 (length hdr)) = length hdr" using assms(1) by (simp add: le_nat_le_bytes)
  show ?thesis
    unfolding f sparse_Load_def sparse_readIndex_def using assms(2-4) hs
    by (simp add: file_ReadAt_def length_sparse_Magic table_header_def Let_def extents_def)
qed



end
