(* ===== verification/Data_File.thy ===== *)
theory Data_File
  imports Sparse_Copy Tracker_Reader
begin

text \<open>
  \<open>internal/block/data_file.go\<close>: a sparse block table as a file of a device. \<open>truncatedreader.NewReader\<close> is an argument.
\<close>

section \<open>\<open>github.com/akmistry/go-util/truncatedreader\<close>\<close>

text \<open>A reader cut at a size. What is relied on: a read that ends before the size and is complete in the underlying reader is
  that read.\<close>

locale truncated_reader =
  fixes trunc :: "ReaderAt \<Rightarrow> int \<Rightarrow> ReaderAt"
  assumes trunc_inside: "off + length p \<le> sz \<Longrightarrow> ra p (int off) = Some (q, int (length p), None) \<Longrightarrow>
    trunc ra (int sz) p (int off) = Some (q, int (length p), None)"

text \<open>Reference implementation.\<close>

definition cut_reader :: "ReaderAt \<Rightarrow> int \<Rightarrow> ReaderAt" where
  "cut_reader ra sz p off =
     (if off + int (length p) \<le> sz then ra p off
      else if sz \<le> off then Some (p, 0, Some EOF)
      else do {
        (q, n, err) \<leftarrow> ra (take (nat (sz - off)) p) off;
        Some (q @ drop (nat (sz - off)) p, n, if err = None then Some EOF else err)
      })"

interpretation cut_reader: truncated_reader cut_reader
  by unfold_locales (simp add: cut_reader_def flip: of_nat_add)

section \<open>Operations\<close>

record DataFile =
  dfl_sf :: sparse_Reader
  dfl_name :: string
  dfl_size :: int
  dfl_blockSize :: int

definition NewSparseBlockFromReader :: "sparse_Header proto_ops \<Rightarrow> ReaderAt \<Rightarrow> int \<Rightarrow> int \<Rightarrow> string \<Rightarrow> (DataFile option \<times> go_error option) option" where
  "NewSparseBlockFromReader P r blockSize sz name = do {
     (sf, err) \<leftarrow> sparse_Load P r;
     case sf of
       None \<Rightarrow> Some (None, err)
     | Some sf \<Rightarrow>
         if err \<noteq> None then Some (None, err)
         else do {
           _ \<leftarrow> LogLoadStats sf;
           Some (Some \<lparr>dfl_sf = sf, dfl_name = name, dfl_size = sz, dfl_blockSize = blockSize\<rparr>, None)
         }
   }"

text \<open>\<open>fixedSparseReader\<close>: the methods of the table, with \<open>ReadAt\<close> cut at the size of the device.\<close>

definition fixedSparseReader :: "(ReaderAt \<Rightarrow> int \<Rightarrow> ReaderAt) \<Rightarrow> sparse_Reader \<Rightarrow> int \<Rightarrow> HoleReaderAt" where
  "fixedSparseReader trunc sf sz =
     \<lparr>ReadAt = trunc (sparse_ReadAt sf) sz, NextData = sparse_NextData sf, NextHole = sparse_NextHole sf\<rparr>"

definition DataFile_blocks :: "(ReaderAt \<Rightarrow> int \<Rightarrow> ReaderAt) \<Rightarrow> DataFile \<Rightarrow> BlockHoleReader" where
  "DataFile_blocks trunc f = NewBlockReader (fixedSparseReader trunc (dfl_sf f) (dfl_size f)) (dfl_blockSize f)"

text \<open>\<open>close\<close> is what closing the file returns.\<close>

definition DataFile_Close :: "go_error option \<Rightarrow> DataFile \<Rightarrow> DataFile \<times> go_error option" where
  "DataFile_Close close f = (f\<lparr>dfl_sf := fst (sparse_Close (dfl_sf f))\<rparr>, close)"

definition DataFile_Name :: "DataFile \<Rightarrow> string" where
  "DataFile_Name f = dfl_name f"

definition DataFile_DataSize :: "DataFile \<Rightarrow> int" where
  "DataFile_DataSize f = sparse_DataSize (dfl_sf f)"

section \<open>A table that was written as a layer of the device\<close>

text \<open>A table with data has entries, so \<open>LogLoadStats\<close> does not divide by zero.\<close>

lemma no_ranges_panic: "sr_ranges r = [] \<Longrightarrow> sparse_NextData r off = None"
proof -
  assume r: "sr_ranges r = []"
  have "sort_Search 0 f = 0" for f using sort_Search_ok(1) [of 0 f] by simp
  then have "getNextEntry r k = None" for k using r by (simp add: getNextEntry_def fillEntry_def)
  then show ?thesis by (simp add: sparse_NextData_def)
qed

lemma readIndex_empty:
  assumes "sparse_readIndex P r0 = Some (r, None)" "sr_ranges r0 = []" "NumRangeEntries (sr_header r) = 0 \<or> NumBlockEntries (sr_header r) = 0"
  shows "sr_ranges r = []"
proof -
  obtain b1 n1 e1 where b1: "sr_r r0 (replicate (length sparse_Magic + 4) 0) 0 = Some (b1, n1, e1)"
    using assms(1) by (cases "sr_r r0 (replicate (length sparse_Magic + 4) 0) 0") (auto simp: sparse_readIndex_def)
  define hs where "hs = le_nat (take 4 (drop (length sparse_Magic) b1))"
  have e1: "e1 = None" "take (length sparse_Magic) b1 = sparse_Magic"
    using assms(1) b1 by (auto simp: sparse_readIndex_def split: if_splits)
  obtain b2 n2 e2 where b2: "sr_r r0 (replicate hs 0) (int (length sparse_Magic + 4)) = Some (b2, n2, e2)"
  proof (cases "sr_r r0 (replicate hs 0) (int (length sparse_Magic + 4))")
    case None
    with assms(1) b1 e1 show thesis by (simp add: sparse_readIndex_def Let_def flip: hs_def)
  next
    case (Some x)
    then show thesis using that by (cases x) simp
  qed
  have e2: "e2 = None" using assms(1) b1 e1 b2 by (auto simp: sparse_readIndex_def Let_def simp flip: hs_def split: if_splits)
  obtain h where h: "proto_Unmarshal P b2 = Inr h"
    using assms(1) b1 e1 b2 e2 by (cases "proto_Unmarshal P b2") (simp_all add: sparse_readIndex_def Let_def flip: hs_def)
  show ?thesis
  proof (cases "NumRangeEntries h = 0 \<or> NumBlockEntries h = 0")
    case True
    with assms(1,2) b1 e1 b2 e2 h show ?thesis by (auto simp: sparse_readIndex_def Let_def simp flip: hs_def split: if_splits)
  next
    case False
    with assms(1) b1 e1 b2 e2 h have "sr_header r = h"
      by (auto simp: sparse_readIndex_def Let_def bind_eq_Some_conv simp flip: hs_def split: if_splits)
    with False assms(3) show ?thesis by simp
  qed
qed

lemma Load_stats:
  assumes ld: "sparse_Load P R = Some (Some r, None)" and hr: "hole_reader_at (sparse_reader_at r) c"
  shows "LogLoadStats r \<noteq> None"
proof
  assume "LogLoadStats r = None"
  then have "NumRangeEntries (sr_header r) = 0 \<or> NumBlockEntries (sr_header r) = 0" by (auto simp: LogLoadStats_def Let_def split: if_splits)
  with ld have "sr_ranges r = []" by (auto simp: sparse_Load_def bind_eq_Some_conv split: if_splits dest: readIndex_empty)
  then have "NextData (sparse_reader_at r) 0 = None" by (simp add: sparse_reader_at_def no_ranges_panic)
  moreover have "NextData (sparse_reader_at r) (int 0) \<noteq> None"
    using hole_reader_at.NextData_ok [OF hr, of 0] hole_reader_at.NextData_end [OF hr, of 0] by (cases "next_data c 0") auto
  ultimately show False by simp
qed

lemma fixed_reader:
  assumes tr: "truncated_reader trunc" and hr: "hole_reader_at (sparse_reader_at r) c" and sz: "\<And>k. c k \<noteq> None \<Longrightarrow> k < sz"
  shows "hole_reader_at (fixedSparseReader trunc r (int sz)) c"
proof (unfold_locales, goal_cases)
  case (1 k)
  then show ?case by (rule hole_reader_at.byte_bounded [OF hr])
next
  case (2 k j)
  from hole_reader_at.NextData_ok [OF hr this] show ?case by (simp add: fixedSparseReader_def sparse_reader_at_def)
next
  case (3 k)
  from hole_reader_at.NextData_end [OF hr this] show ?case by (simp add: fixedSparseReader_def sparse_reader_at_def)
next
  case (4 k)
  from hole_reader_at.NextHole_ok [OF hr this] show ?case by (simp add: fixedSparseReader_def sparse_reader_at_def)
next
  case (5 buf k)
  from hole_reader_at.ReadAt_ok [OF hr this] have "sparse_ReadAt r buf (int k) = Some (read_data c k (length buf), int (length buf), None)"
    by (simp add: sparse_reader_at_def)
  moreover have "c (k + (length buf - 1)) \<noteq> None" using 5 unfolding all_data_def by (metis One_nat_def Suc_pred length_greater_0_conv lessI)
  from sz [OF this] have "k + length buf \<le> sz" using 5(1) by (cases buf) simp_all
  ultimately show ?case using truncated_reader.trunc_inside [OF tr] by (simp add: fixedSparseReader_def)
qed

text \<open>A device content that a table has room for.\<close>

definition table_fits :: "nat \<Rightarrow> nat \<Rightarrow> (nat \<rightharpoonup> bytes) \<Rightarrow> bool" where
  "table_fits bs nb c \<longleftrightarrow> c \<noteq> Map.empty \<and> (\<forall>i. c i \<noteq> None \<longrightarrow> i < nb) \<and> 512 \<le> bs \<and> bs \<le> 1024 * 1024 \<and> nb \<le> 2 ^ 48 \<and>
     Suc nb * bs \<le> max_off \<and> card (dom c) < 2 ^ 28"

lemma source_of_blocks:
  assumes hr: "block_hole_reader bs R c" and pool: "bufferpool pool cont" and fits: "table_fits bs nb c"
  shows "hole_reader_at (NewHoleReader pool R (int bs)) (to_bytes bs c)" "source_fits bs (to_bytes bs c)" "to_blocks bs (to_bytes bs c) = c"
proof -
  have f: "c \<noteq> Map.empty" "\<And>i. c i \<noteq> None \<Longrightarrow> i < nb" "512 \<le> bs" "bs \<le> 1024 * 1024" "nb \<le> 2 ^ 48" "Suc nb * bs \<le> max_off" "card (dom c) < 2 ^ 28"
    using fits by (auto simp: table_fits_def)
  have slack: "Suc (Suc i) * bs \<le> max_off" if "c i \<noteq> None" for i
  proof -
    have "Suc (Suc i) * bs \<le> Suc nb * bs" using f(2) [OF that] by (intro mult_le_mono1) simp
    from order_trans [OF this f(6)] show ?thesis .
  qed
  have "pooled_block_reader bs R c pool cont"
    by (intro pooled_block_reader.intro pooled_block_reader_axioms.intro hr pool slack)
  then show "hole_reader_at (NewHoleReader pool R (int bs)) (to_bytes bs c)" by (rule pooled_block_reader.as_hole_reader)
  show blk: "to_blocks bs (to_bytes bs c) = c"
    by (rule to_blocks_to_bytes) (use f(3) block_hole_reader.block_len [OF hr] in auto)
  obtain i where i: "c i \<noteq> None" using f(1) by fastforce
  then have "to_bytes bs c (i * bs) \<noteq> None" using f(3) by (auto simp: to_bytes_None)
  then have "to_bytes bs c \<noteq> Map.empty" by metis
  moreover have "{i. c i \<noteq> None} = dom c" by auto
  ultimately show "source_fits bs (to_bytes bs c)"
    using f to_bytes_aligned [of bs c] unfolding source_fits_def blk by fastforce
qed

lemma copied_table:
  assumes "hole_reader_at src c" "source_fits bs c"
    and "table_sink SectionReader_Read (section_rest c) (section_valid (ReadAt src) c) Write written rf P WriteMany" "written dst = []"
  shows "\<exists>w e. BuildFromReader P WriteMany Write rf dst src (int bs) None = Some (w, e) \<and>
    (e = None \<longrightarrow> (\<forall>R. reader_at R (written w) \<longrightarrow> length (written w) \<le> max_off \<longrightarrow>
       (\<exists>r. sparse_Load P R = Some (Some r, None) \<and> hole_reader_at (sparse_reader_at r) c)))"
  using copy_ok [OF assms] by metis

text \<open>C3. Compaction writes a table that is a layer of the device with the blocks of its source. For every block reader whose content a table has
  room for, \<open>BuildFromReader\<close> over its byte adaptor returns, and when it returns nil the file written opens as a data file which reads,
  blocks and holes, as that block reader; opening it does not panic.\<close>

theorem compacted_table_copies:
  assumes "block_hole_reader bs R c" "bufferpool pool cont" "table_fits bs nb c" "truncated_reader trunc" "written dst = []"
    and "table_sink SectionReader_Read (section_rest (to_bytes bs c)) (section_valid (ReadAt (NewHoleReader pool R (int bs))) (to_bytes bs c))
      Write written rf P WriteMany"
  shows "\<exists>w e. BuildFromReader P WriteMany Write rf dst (NewHoleReader pool R (int bs)) (int bs) None = Some (w, e) \<and>
    (e = None \<longrightarrow> (\<forall>ra. reader_at ra (written w) \<longrightarrow> length (written w) \<le> max_off \<longrightarrow>
       (\<exists>f. NewSparseBlockFromReader P ra (int bs) (int (nb * bs)) name = Some (Some f, None) \<and> stack_layer bs (DataFile_blocks trunc f) c nb)))"
proof -
  note src = source_of_blocks [OF assms(1-3)]
  have f: "\<And>i. c i \<noteq> None \<Longrightarrow> i < nb" "0 < bs" "nb * bs \<le> max_off" using assms(3) by (auto simp: table_fits_def)
  let ?src = "NewHoleReader pool R (int bs)"
  have "\<exists>w e. BuildFromReader P WriteMany Write rf dst ?src (int bs) None = Some (w, e) \<and>
    (e = None \<longrightarrow> (\<forall>R. reader_at R (written w) \<longrightarrow> length (written w) \<le> max_off \<longrightarrow>
       (\<exists>r. sparse_Load P R = Some (Some r, None) \<and> hole_reader_at (sparse_reader_at r) (to_bytes bs c))))"
    by (rule copied_table) (fact src(1) src(2) assms(6) assms(5))+
  then obtain w e where w: "BuildFromReader P WriteMany Write rf dst ?src (int bs) None = Some (w, e)"
    "e = None \<longrightarrow> (\<forall>R. reader_at R (written w) \<longrightarrow> length (written w) \<le> max_off \<longrightarrow>
       (\<exists>r. sparse_Load P R = Some (Some r, None) \<and> hole_reader_at (sparse_reader_at r) (to_bytes bs c)))"
    by (elim exE conjE) (rule that; assumption)
  have open_ok: "\<exists>f. NewSparseBlockFromReader P ra (int bs) (int (nb * bs)) name = Some (Some f, None) \<and> stack_layer bs (DataFile_blocks trunc f) c nb"
    if r: "sparse_Load P ra = Some (Some r, None)" "hole_reader_at (sparse_reader_at r) (to_bytes bs c)" for ra r
  proof -
    have "k < nb * bs" if "to_bytes bs c k \<noteq> None" for k
    proof -
      have "c (k div bs) \<noteq> None" using that by (simp add: to_bytes_def)
      then have "k div bs < nb" by (rule f(1))
      then show ?thesis using f(2) by (simp add: div_less_iff_less_mult)
    qed
    then have "hole_reader_at (fixedSparseReader trunc r (int (nb * bs))) (to_bytes bs c)" by (rule fixed_reader [OF assms(4) r(2)])
    then have "aligned_hole_reader (fixedSparseReader trunc r (int (nb * bs))) (to_bytes bs c) bs"
      by (intro aligned_hole_reader.intro aligned_hole_reader_axioms.intro f(2) to_bytes_aligned)
    from aligned_hole_reader.as_block_reader [OF this] have
      "stack_layer bs (NewBlockReader (fixedSparseReader trunc r (int (nb * bs))) (int bs)) c nb"
      using f(1,3) unfolding src(3) stack_layer_def stack_layer_axioms_def by blast
    moreover obtain st where "LogLoadStats r = Some st" using Load_stats [OF r] by blast
    ultimately show ?thesis using r(1) by (simp add: NewSparseBlockFromReader_def DataFile_blocks_def)
  qed
  with w show ?thesis by blast
qed

theorem compacted_table_copies_witness:
  "\<exists>w e. BuildFromReader header_codec (write_all (bw_Write mem_Write)) mem_Write None []
      (NewHoleReader list_pool (NewBlockReader (mem_reader sample_block) 512) 512) 512 None = Some (w, e) \<and>
    (e = None \<longrightarrow> length w \<le> max_off \<longrightarrow>
       (\<exists>f. NewSparseBlockFromReader header_codec (file_ReadAt w) 512 (int (4 * 512)) ''1.sparseblock'' = Some (Some f, None) \<and>
         stack_layer 512 (DataFile_blocks cut_reader f) (to_blocks 512 (mem_content sample_block)) 4))"
proof -
  let ?c = "to_blocks 512 (mem_content sample_block)" and ?R = "NewBlockReader (mem_reader sample_block) (int 512)"
  have hr: "block_hole_reader 512 ?R ?c" by (rule mem_block_reader [of _ _ 1]) (simp_all add: sample_block_def)
  have B: "?c i \<noteq> None \<longleftrightarrow> i = 0" for i by (auto simp: to_blocks_def mem_content_def sample_block_def)
  then have "dom ?c = {0}" by blast
  moreover have "?c \<noteq> Map.empty" using B [of 0] by fastforce
  ultimately have fits: "table_fits 512 4 ?c" using B by (simp add: table_fits_def)
  note src = source_of_blocks [OF hr list_pool.bufferpool_axioms fits]
  from compacted_table_copies [where name = "''1.sparseblock''", OF hr list_pool.bufferpool_axioms fits cut_reader.truncated_reader_axioms _ mem_sink [OF src(1)], of "[]"]
  obtain w e where w: "BuildFromReader header_codec (write_all (bw_Write mem_Write)) mem_Write None []
      (NewHoleReader list_pool ?R (int 512)) (int 512) None = Some (w, e)"
    "e = None \<longrightarrow> (\<forall>ra. reader_at ra w \<longrightarrow> length w \<le> max_off \<longrightarrow>
       (\<exists>f. NewSparseBlockFromReader header_codec ra (int 512) (int (4 * 512)) ''1.sparseblock'' = Some (Some f, None) \<and>
         stack_layer 512 (DataFile_blocks cut_reader f) ?c 4))" by auto
  have "reader_at (file_ReadAt w) w" by unfold_locales
  with w show ?thesis by auto
qed

end
