(* ===== verification/Util_Sync.thy ===== *)
theory Util_Sync
  imports Go_Prelude
begin

text \<open>
  \<open>internal/util\<close>: \<open>one_runner.go\<close> and \<open>wait_barrier.go\<close> as step relations, and the helpers of \<open>default.go\<close> and \<open>slices.go\<close>.

  A section under a lock is one step. The goroutines that run a method are counted, since nothing tells them apart, and steps of
  different goroutines interleave in every order. The histories in the states record what the properties speak of.
\<close>

section \<open>Helpers\<close>

definition SetDefaultIfZero :: "'v \<Rightarrow> 'v \<Rightarrow> 'v \<Rightarrow> 'v" where
  "SetDefaultIfZero zeroVal v defaultVal = (if v = zeroVal then defaultVal else v)"

definition SliceLast :: "'e list \<Rightarrow> 'e option" where
  "SliceLast s = (if s = [] then None else Some (s ! (length s - 1)))"

text \<open>\<open>SlicePopLast\<close> also clears the element it drops, which the slice it returns does not reach.\<close>

definition SlicePopLast :: "'e list \<Rightarrow> 'e list option" where
  "SlicePopLast s = (if s = [] then None else Some (take (length s - 1) s))"

lemma slice_last_pop: "SliceLast s = Some e \<Longrightarrow> SlicePopLast s = Some t \<Longrightarrow> s = t @ [e]"
  by (cases s rule: rev_cases) (auto simp: SliceLast_def SlicePopLast_def)

section \<open>\<open>OneRunner\<close>\<close>

record OneRunner =
  or_running :: bool
  or_run :: bool

definition NewOneRunner :: OneRunner where
  "NewOneRunner = \<lparr>or_running = False, or_run = False\<rparr>"

text \<open>The locked section of \<open>Go\<close> and \<open>Run\<close>; the second result says whether to start \<open>do\<close>.\<close>

definition or_request :: "OneRunner \<Rightarrow> OneRunner \<times> bool" where
  "or_request r =
     (let r = r\<lparr>or_run := True\<rparr>
      in if \<not> or_running r then (r\<lparr>or_running := True\<rparr>, True) else (r, False))"

text \<open>The locked section of the loop of \<open>do\<close>; the second result says whether to call \<open>f\<close> or to return.\<close>

definition or_do :: "OneRunner \<Rightarrow> OneRunner \<times> bool" where
  "or_do r =
     (let run = or_run r;
          r = (if \<not> run then r\<lparr>or_running := False\<rparr> else r)
      in (r\<lparr>or_run := False\<rparr>, run))"

definition or_Running :: "OneRunner \<Rightarrow> bool" where
  "or_Running r = or_running r"

text \<open>\<open>Wait\<close> returns in a state where it does not find the runner running.\<close>

definition or_Wait :: "OneRunner \<Rightarrow> bool" where
  "or_Wait r \<longleftrightarrow> \<not> or_running r"

datatype runner_event = Requested | Started | Finished

record runner_state =
  rs_runner :: OneRunner
  rs_looping :: nat
  rs_calling :: nat
  rs_history :: "runner_event list"

definition runner_init :: runner_state where
  "runner_init = \<lparr>rs_runner = NewOneRunner, rs_looping = 0, rs_calling = 0, rs_history = []\<rparr>"

text \<open>\<open>Go\<close> or \<open>Run\<close> is called; a goroutine in \<open>do\<close> takes the lock and goes on to call \<open>f\<close> or to return; a call of \<open>f\<close> ends.\<close>

inductive runner_step :: "runner_state \<Rightarrow> runner_state \<Rightarrow> bool" where
  request: "or_request (rs_runner s) = (r, start) \<Longrightarrow>
    runner_step s (s\<lparr>rs_runner := r, rs_looping := rs_looping s + (if start then 1 else 0), rs_history := rs_history s @ [Requested]\<rparr>)"
| call: "0 < rs_looping s \<Longrightarrow> or_do (rs_runner s) = (r, True) \<Longrightarrow>
    runner_step s (s\<lparr>rs_runner := r, rs_looping := rs_looping s - 1, rs_calling := rs_calling s + 1, rs_history := rs_history s @ [Started]\<rparr>)"
| stop: "0 < rs_looping s \<Longrightarrow> or_do (rs_runner s) = (r, False) \<Longrightarrow>
    runner_step s (s\<lparr>rs_runner := r, rs_looping := rs_looping s - 1\<rparr>)"
| finish: "0 < rs_calling s \<Longrightarrow>
    runner_step s (s\<lparr>rs_calling := rs_calling s - 1, rs_looping := rs_looping s + 1, rs_history := rs_history s @ [Finished]\<rparr>)"

inductive_cases runner_stepE: "runner_step s t"

definition runner_reachable :: "runner_state \<Rightarrow> bool" where
  "runner_reachable s \<longleftrightarrow> runner_step\<^sup>*\<^sup>* runner_init s"

text \<open>Every request of a history is followed by a call of \<open>f\<close> that started after it and has ended.\<close>

definition all_served :: "runner_event list \<Rightarrow> bool" where
  "all_served h \<longleftrightarrow> (\<forall>i<length h. h ! i = Requested \<longrightarrow> (\<exists>j k. i < j \<and> j < k \<and> k < length h \<and> h ! j = Started \<and> h ! k = Finished))"

text \<open>Every request is followed by the start of a call, unless the run flag is set; every start by an end, unless a call is running.\<close>

definition followed_by :: "runner_event \<Rightarrow> runner_event \<Rightarrow> runner_event list \<Rightarrow> bool" where
  "followed_by a b h \<longleftrightarrow> (\<forall>i<length h. h ! i = a \<longrightarrow> (\<exists>j. i < j \<and> j < length h \<and> h ! j = b))"

definition runner_inv :: "runner_state \<Rightarrow> bool" where
  "runner_inv s \<longleftrightarrow> rs_looping s + rs_calling s = (if or_running (rs_runner s) then 1 else 0) \<and>
     (or_run (rs_runner s) \<longrightarrow> or_running (rs_runner s)) \<and>
     (or_run (rs_runner s) \<or> followed_by Requested Started (rs_history s)) \<and>
     (0 < rs_calling s \<or> followed_by Started Finished (rs_history s))"

lemma followed_by_other: "followed_by a b h \<Longrightarrow> c \<noteq> a \<Longrightarrow> followed_by a b (h @ [c])"
  by (fastforce simp: followed_by_def nth_append less_Suc_eq)

lemma followed_by_end: "a \<noteq> b \<Longrightarrow> followed_by a b (h @ [b])"
  unfolding followed_by_def by (metis length_append_singleton less_Suc_eq nth_append_length)

lemma followed_by_served: "followed_by Requested Started h \<Longrightarrow> followed_by Started Finished h \<Longrightarrow> all_served h"
  unfolding followed_by_def all_served_def by (meson less_trans)

lemma runner_inv_init: "runner_inv runner_init"
  by (simp add: runner_inv_def runner_init_def NewOneRunner_def followed_by_def)

lemma runner_inv_step: "runner_step s t \<Longrightarrow> runner_inv s \<Longrightarrow> runner_inv t"
  by (erule runner_stepE)
    (auto simp: runner_inv_def or_request_def or_do_def Let_def followed_by_other followed_by_end split: if_splits)

lemma runner_reachable_inv: "runner_reachable s \<Longrightarrow> runner_inv s"
  unfolding runner_reachable_def
  by (induction rule: rtranclp_induct) (auto intro: runner_inv_init runner_inv_step)

text \<open>Steps other than a request, and what bounds them.\<close>

definition runner_work :: "runner_state \<Rightarrow> runner_state \<Rightarrow> bool" where
  "runner_work s t \<longleftrightarrow> runner_step s t \<and> rs_history t \<noteq> rs_history s @ [Requested]"

definition runner_measure :: "runner_state \<Rightarrow> nat" where
  "runner_measure s = (if or_run (rs_runner s) then 3 else 0) + 2 * rs_calling s + rs_looping s"

lemma runner_work_measure: "runner_work s t \<Longrightarrow> runner_measure t < runner_measure s"
  unfolding runner_work_def
  by (elim conjE runner_stepE) (auto simp: runner_measure_def or_do_def Let_def split: if_splits)

lemma runner_work_bound: "(runner_work ^^ n) s t \<Longrightarrow> n + runner_measure t \<le> runner_measure s"
proof (induction n arbitrary: t)
  case (Suc n)
  then obtain u where "(runner_work ^^ n) s u" "runner_work u t" by auto
  with Suc.IH [of u] runner_work_measure [of u t] show ?case by simp
qed simp

lemma runner_work_enabled: "runner_inv s \<Longrightarrow> or_running (rs_runner s) \<Longrightarrow> \<exists>t. runner_work s t"
proof -
  assume inv: "runner_inv s" "or_running (rs_runner s)"
  have "rs_looping s + rs_calling s = 1" using inv by (simp add: runner_inv_def)
  then consider "0 < rs_calling s" | "0 < rs_looping s" by linarith
  then show ?thesis
  proof cases
    case 1
    then show ?thesis using runner_step.finish [of s] unfolding runner_work_def by fastforce
  next
    case 2
    then show ?thesis using runner_step.call [OF 2] runner_step.stop [OF 2] unfolding runner_work_def
      by (cases "or_do (rs_runner s)"; cases "snd (or_do (rs_runner s))") fastforce+
  qed
qed

lemma runner_work_stops: "runner_inv s \<Longrightarrow> \<exists>n t. (runner_work ^^ n) s t \<and> \<not> or_running (rs_runner t)"
proof (induction "runner_measure s" arbitrary: s rule: less_induct)
  case less
  show ?case
  proof (cases "or_running (rs_runner s)")
    case True
    from runner_work_enabled [OF less.prems True] obtain u where u: "runner_work s u" by blast
    then have "runner_inv u" using less.prems runner_inv_step unfolding runner_work_def by blast
    from less.hyps [OF runner_work_measure [OF u] this] obtain n t where "(runner_work ^^ n) u t" "\<not> or_running (rs_runner t)" by blast
    with relpowp_Suc_I2 [of runner_work s u n t] u show ?thesis by blast
  qed (auto intro: exI [of _ 0])
qed

section \<open>\<open>WaitBarrier\<close>\<close>

text \<open>The wait groups that were allocated are a list of counters; a pointer is an index of it.\<close>

type_synonym wait_groups = "nat list"

record WaitBarrier =
  wb_wg :: "nat option"

definition wb_Start :: "wait_groups \<Rightarrow> WaitBarrier \<Rightarrow> wait_groups \<times> WaitBarrier \<times> nat" where
  "wb_Start h b =
     (let (h, g) = (case wb_wg b of None \<Rightarrow> (h @ [0], length h) | Some g \<Rightarrow> (h, g))
      in (h [g := h ! g + 1], b\<lparr>wb_wg := Some g\<rparr>, g))"

text \<open>\<open>Done\<close> of a context; a counter that goes below zero is a panic.\<close>

definition wb_Done :: "wait_groups \<Rightarrow> nat \<Rightarrow> wait_groups option" where
  "wb_Done h g = (if h ! g = 0 then None else Some (h [g := h ! g - 1]))"

text \<open>The locked section of \<open>BarrierWithUnlock\<close>: the group to wait for and the new group, or that there is nothing to wait for.\<close>

definition wb_Barrier :: "wait_groups \<Rightarrow> WaitBarrier \<Rightarrow> wait_groups \<times> WaitBarrier \<times> (nat \<times> nat) option" where
  "wb_Barrier h b =
     (case wb_wg b of
        None \<Rightarrow> (h, b, None)
      | Some wg \<Rightarrow> (h @ [1], b\<lparr>wb_wg := Some (length h)\<rparr>, Some (wg, length h)))"

text \<open>A state has the operations started, each with its group and whether it is done, and the barriers entered, each with the group it waits for, its
  own group, the number of operations started before it, and whether it has called \<open>Unlock\<close> of its argument and has returned.\<close>

record barrier_op =
  op_group :: nat
  op_done :: bool

record barrier_call =
  bc_wait :: nat
  bc_group :: nat
  bc_before :: nat
  bc_unlocked :: bool
  bc_returned :: bool

record barrier_state =
  bs_groups :: wait_groups
  bs_barrier :: WaitBarrier
  bs_ops :: "barrier_op list"
  bs_calls :: "barrier_call list"

definition barrier_init :: barrier_state where
  "barrier_init = \<lparr>bs_groups = [], bs_barrier = \<lparr>wb_wg = None\<rparr>, bs_ops = [], bs_calls = []\<rparr>"

inductive barrier_step :: "barrier_state \<Rightarrow> barrier_state \<Rightarrow> bool" where
  start: "wb_Start (bs_groups s) (bs_barrier s) = (h, b, g) \<Longrightarrow>
    barrier_step s (s\<lparr>bs_groups := h, bs_barrier := b, bs_ops := bs_ops s @ [\<lparr>op_group = g, op_done = False\<rparr>]\<rparr>)"
| op_done: "i < length (bs_ops s) \<Longrightarrow> \<not> op_done (bs_ops s ! i) \<Longrightarrow> wb_Done (bs_groups s) (op_group (bs_ops s ! i)) = Some h \<Longrightarrow>
    barrier_step s (s\<lparr>bs_groups := h, bs_ops := (bs_ops s) [i := (bs_ops s ! i)\<lparr>op_done := True\<rparr>]\<rparr>)"
| nothing: "wb_Barrier (bs_groups s) (bs_barrier s) = (h, b, None) \<Longrightarrow> barrier_step s (s\<lparr>bs_groups := h, bs_barrier := b\<rparr>)"
| enter: "wb_Barrier (bs_groups s) (bs_barrier s) = (h, b, Some (wg, barrierWg)) \<Longrightarrow>
    barrier_step s (s\<lparr>bs_groups := h, bs_barrier := b, bs_calls := bs_calls s @
      [\<lparr>bc_wait = wg, bc_group = barrierWg, bc_before = length (bs_ops s), bc_unlocked = False, bc_returned = False\<rparr>]\<rparr>)"
| unlock: "i < length (bs_calls s) \<Longrightarrow> \<not> bc_unlocked (bs_calls s ! i) \<Longrightarrow>
    barrier_step s (s\<lparr>bs_calls := (bs_calls s) [i := (bs_calls s ! i)\<lparr>bc_unlocked := True\<rparr>]\<rparr>)"
| leave: "i < length (bs_calls s) \<Longrightarrow> bc_unlocked (bs_calls s ! i) \<Longrightarrow> \<not> bc_returned (bs_calls s ! i) \<Longrightarrow>
    bs_groups s ! bc_wait (bs_calls s ! i) = 0 \<Longrightarrow> wb_Done (bs_groups s) (bc_group (bs_calls s ! i)) = Some h \<Longrightarrow>
    barrier_step s (s\<lparr>bs_groups := h, bs_calls := (bs_calls s) [i := (bs_calls s ! i)\<lparr>bc_returned := True\<rparr>]\<rparr>)"

inductive_cases barrier_stepE: "barrier_step s t"

definition barrier_reachable :: "barrier_state \<Rightarrow> bool" where
  "barrier_reachable s \<longleftrightarrow> barrier_step\<^sup>*\<^sup>* barrier_init s"

definition open_ops :: "barrier_op list \<Rightarrow> nat \<Rightarrow> nat" where
  "open_ops ops g = length (filter (\<lambda>p. op_group p = g \<and> \<not> op_done p) ops)"

definition barrier_inv :: "barrier_state \<Rightarrow> bool" where
  "barrier_inv s \<longleftrightarrow>
     wb_wg (bs_barrier s) = (if bs_groups s = [] then None else Some (length (bs_groups s) - 1)) \<and>
     length (bs_calls s) = length (bs_groups s) - 1 \<and>
     (\<forall>i<length (bs_calls s). bc_wait (bs_calls s ! i) = i \<and> bc_group (bs_calls s ! i) = Suc i \<and>
       (bc_returned (bs_calls s ! i) \<longrightarrow> bc_unlocked (bs_calls s ! i) \<and> (\<forall>p\<in>set (bs_ops s). op_group p \<le> i \<longrightarrow> op_done p)) \<and>
       bc_before (bs_calls s ! i) \<le> length (bs_ops s) \<and> (\<forall>j<bc_before (bs_calls s ! i). op_group (bs_ops s ! j) \<le> i)) \<and>
     (\<forall>p\<in>set (bs_ops s). op_group p < length (bs_groups s)) \<and>
     (\<forall>g<length (bs_groups s). bs_groups s ! g = open_ops (bs_ops s) g +
       (if 0 < g \<and> \<not> bc_returned (bs_calls s ! (g - 1)) then 1 else 0))"

lemma open_ops_snoc: "open_ops (ops @ [p]) g = open_ops ops g + (if op_group p = g \<and> \<not> op_done p then 1 else 0)"
  by (simp add: open_ops_def)

lemma open_ops_done:
  assumes "i < length ops" "\<not> op_done (ops ! i)"
  shows "open_ops ops g = open_ops (ops [i := (ops ! i)\<lparr>op_done := True\<rparr>]) g + (if op_group (ops ! i) = g then 1 else 0)"
proof -
  have "ops = take i ops @ ops ! i # drop (Suc i) ops" using assms(1) by (rule id_take_nth_drop)
  then have "open_ops ops g = open_ops (take i ops @ ops ! i # drop (Suc i) ops) g" by simp
  also have "\<dots> = open_ops (take i ops @ (ops ! i)\<lparr>op_done := True\<rparr> # drop (Suc i) ops) g + (if op_group (ops ! i) = g then 1 else 0)"
    using assms(2) by (simp add: open_ops_def)
  finally show ?thesis by (simp add: upd_conv_take_nth_drop [OF assms(1)])
qed

lemma open_ops_zero: "open_ops ops g = 0 \<longleftrightarrow> (\<forall>p\<in>set ops. op_group p = g \<longrightarrow> op_done p)"
  by (auto simp: open_ops_def filter_empty_conv)

lemma open_op_counted: "i < length ops \<Longrightarrow> \<not> op_done (ops ! i) \<Longrightarrow> 0 < open_ops ops (op_group (ops ! i))"
  using open_ops_done [of i ops "op_group (ops ! i)"] by simp

lemma barrier_inv_init: "barrier_inv barrier_init"
  by (simp add: barrier_inv_def barrier_init_def)

text \<open>A barrier whose group is down to zero has nothing open before it.\<close>

lemma barrier_leave_ok:
  assumes inv: "barrier_inv s" and i: "i < length (bs_calls s)" and z: "bs_groups s ! i = 0"
  shows "\<forall>p\<in>set (bs_ops s). op_group p \<le> i \<longrightarrow> op_done p"
proof -
  have "i < length (bs_groups s)" using inv i by (simp add: barrier_inv_def)
  with inv have c: "bs_groups s ! i = open_ops (bs_ops s) i + (if 0 < i \<and> \<not> bc_returned (bs_calls s ! (i - 1)) then 1 else 0)"
    unfolding barrier_inv_def by blast
  with z have o: "open_ops (bs_ops s) i = 0" and r: "0 < i \<longrightarrow> bc_returned (bs_calls s ! (i - 1))" by (auto split: if_splits)
  have "op_done p" if p: "p \<in> set (bs_ops s)" "op_group p \<le> i" for p
  proof (cases "op_group p = i")
    case True
    with o p show ?thesis by (simp add: open_ops_zero)
  next
    case False
    with p r have "op_group p \<le> i - 1" "bc_returned (bs_calls s ! (i - 1))" "i - 1 < length (bs_calls s)" using i by auto
    with inv p(1) show ?thesis unfolding barrier_inv_def by blast
  qed
  then show ?thesis by blast
qed

lemma barrier_start_inv:
  assumes inv: "barrier_inv s" and st: "wb_Start (bs_groups s) (bs_barrier s) = (h, b, g)"
  shows "barrier_inv (s\<lparr>bs_groups := h, bs_barrier := b, bs_ops := bs_ops s @ [\<lparr>op_group = g, op_done = False\<rparr>]\<rparr>)"
proof (cases "bs_groups s = []")
  case True
  then have "h = [1]" "b = (bs_barrier s)\<lparr>wb_wg := Some 0\<rparr>" "g = 0" "bs_calls s = []" "bs_ops s = []"
    using inv st by (auto simp: barrier_inv_def wb_Start_def)
  then show ?thesis by (simp add: barrier_inv_def open_ops_def)
next
  case False
  let ?n = "length (bs_groups s)"
  have n: "0 < ?n" using False by simp
  have wg: "wb_wg (bs_barrier s) = Some (?n - 1)" and lc: "length (bs_calls s) = ?n - 1" using inv False by (simp_all add: barrier_inv_def)
  have e: "h = (bs_groups s) [?n - 1 := bs_groups s ! (?n - 1) + 1]" "b = (bs_barrier s)\<lparr>wb_wg := Some (?n - 1)\<rparr>" "g = ?n - 1"
    using st unfolding wb_Start_def wg by auto
  have c: "\<forall>k<length (bs_calls s). bc_wait (bs_calls s ! k) = k \<and> bc_group (bs_calls s ! k) = Suc k \<and>
       (bc_returned (bs_calls s ! k) \<longrightarrow> bc_unlocked (bs_calls s ! k) \<and> (\<forall>p\<in>set (bs_ops s @ [\<lparr>op_group = g, op_done = False\<rparr>]). op_group p \<le> k \<longrightarrow> op_done p)) \<and>
       bc_before (bs_calls s ! k) \<le> length (bs_ops s @ [\<lparr>op_group = g, op_done = False\<rparr>]) \<and>
       (\<forall>j<bc_before (bs_calls s ! k). op_group ((bs_ops s @ [\<lparr>op_group = g, op_done = False\<rparr>]) ! j) \<le> k)"
    using inv lc e(3) by (fastforce simp: barrier_inv_def nth_append)
  have d: "\<forall>k<?n. h ! k = open_ops (bs_ops s @ [\<lparr>op_group = g, op_done = False\<rparr>]) k + (if 0 < k \<and> \<not> bc_returned (bs_calls s ! (k - 1)) then 1 else 0)"
    using inv e n by (auto simp: barrier_inv_def open_ops_snoc nth_list_update)
  show ?thesis unfolding barrier_inv_def using inv c d e lc n by (auto simp: barrier_inv_def)
qed

lemma barrier_done_inv:
  assumes inv: "barrier_inv s" and i: "i < length (bs_ops s)" "\<not> op_done (bs_ops s ! i)"
    and d: "wb_Done (bs_groups s) (op_group (bs_ops s ! i)) = Some h"
  shows "barrier_inv (s\<lparr>bs_groups := h, bs_ops := (bs_ops s) [i := (bs_ops s ! i)\<lparr>op_done := True\<rparr>]\<rparr>)"
proof -
  let ?g = "op_group (bs_ops s ! i)" and ?ops = "(bs_ops s) [i := (bs_ops s ! i)\<lparr>op_done := True\<rparr>]"
  have h: "h = (bs_groups s) [?g := bs_groups s ! ?g - 1]" using d by (auto simp: wb_Done_def split: if_splits)
  have gr: "op_group (?ops ! j) = op_group (bs_ops s ! j)" for j using i(1) by (cases "j = i") auto
  have mem: "\<forall>p\<in>set ?ops. \<exists>q\<in>set (bs_ops s). op_group p = op_group q \<and> (op_done q \<longrightarrow> op_done p)"
  proof
    fix p assume "p \<in> set ?ops"
    then have "p \<in> insert ((bs_ops s ! i)\<lparr>op_done := True\<rparr>) (set (bs_ops s))" using set_update_subset_insert by fastforce
    then show "\<exists>q\<in>set (bs_ops s). op_group p = op_group q \<and> (op_done q \<longrightarrow> op_done p)" using nth_mem [OF i(1)] by auto
  qed
  have "\<forall>k<length (bs_groups s). h ! k = open_ops ?ops k + (if 0 < k \<and> \<not> bc_returned (bs_calls s ! (k - 1)) then 1 else 0)"
  proof (intro allI impI)
    fix k assume k: "k < length (bs_groups s)"
    with inv have "bs_groups s ! k = open_ops (bs_ops s) k + (if 0 < k \<and> \<not> bc_returned (bs_calls s ! (k - 1)) then 1 else 0)"
      by (simp add: barrier_inv_def)
    then show "h ! k = open_ops ?ops k + (if 0 < k \<and> \<not> bc_returned (bs_calls s ! (k - 1)) then 1 else 0)"
      using open_ops_done [OF i, of k] k unfolding h by (cases "?g = k") auto
  qed
  moreover have "\<forall>p\<in>set ?ops. op_group p < length (bs_groups s)" using mem inv unfolding barrier_inv_def by metis
  moreover have "\<forall>k<length (bs_calls s). bc_returned (bs_calls s ! k) \<longrightarrow> (\<forall>p\<in>set ?ops. op_group p \<le> k \<longrightarrow> op_done p)"
    using mem inv unfolding barrier_inv_def by metis
  ultimately show ?thesis using inv h gr by (auto simp: barrier_inv_def)
qed

lemma barrier_enter_inv:
  assumes inv: "barrier_inv s" and st: "wb_Barrier (bs_groups s) (bs_barrier s) = (h, b, Some (wg, barrierWg))"
  shows "barrier_inv (s\<lparr>bs_groups := h, bs_barrier := b, bs_calls := bs_calls s @
      [\<lparr>bc_wait = wg, bc_group = barrierWg, bc_before = length (bs_ops s), bc_unlocked = False, bc_returned = False\<rparr>]\<rparr>)"
proof -
  let ?n = "length (bs_groups s)"
  have e: "bs_groups s \<noteq> []" "h = bs_groups s @ [1]" "b = (bs_barrier s)\<lparr>wb_wg := Some ?n\<rparr>" "wg = ?n - 1" "barrierWg = ?n"
    and lc: "length (bs_calls s) = ?n - 1" and ops: "\<forall>p\<in>set (bs_ops s). op_group p < ?n"
    using inv st by (auto simp: barrier_inv_def wb_Barrier_def split: if_splits)
  obtain m where m: "?n = Suc m" using e(1) by (cases ?n) auto
  have o: "open_ops (bs_ops s) (Suc m) = 0" using ops m by (auto simp: open_ops_zero)
  have g: "op_group (bs_ops s ! j) \<le> m" if "j < length (bs_ops s)" for j using ops nth_mem [OF that] m by fastforce
  have e': "h = bs_groups s @ [1]" "b = (bs_barrier s)\<lparr>wb_wg := Some (Suc m)\<rparr>" "wg = m" "barrierWg = Suc m" "length (bs_calls s) = m"
    using e lc m by simp_all
  show ?thesis unfolding barrier_inv_def using inv e' m o g
    by (auto simp: barrier_inv_def nth_append less_Suc_eq)
qed

lemma barrier_leave_inv:
  assumes inv: "barrier_inv s" and i: "i < length (bs_calls s)" "bc_unlocked (bs_calls s ! i)" "\<not> bc_returned (bs_calls s ! i)"
    and z: "bs_groups s ! bc_wait (bs_calls s ! i) = 0" and d: "wb_Done (bs_groups s) (bc_group (bs_calls s ! i)) = Some h"
  shows "barrier_inv (s\<lparr>bs_groups := h, bs_calls := (bs_calls s) [i := (bs_calls s ! i)\<lparr>bc_returned := True\<rparr>]\<rparr>)"
proof -
  have w: "bc_wait (bs_calls s ! i) = i" "bc_group (bs_calls s ! i) = Suc i" using inv i(1) by (auto simp: barrier_inv_def)
  have all: "\<forall>p\<in>set (bs_ops s). op_group p \<le> i \<longrightarrow> op_done p" using barrier_leave_ok [OF inv i(1)] z w(1) by simp
  have h: "h = (bs_groups s) [Suc i := bs_groups s ! Suc i - 1]" using d w(2) by (auto simp: wb_Done_def split: if_splits)
  let ?calls = "(bs_calls s) [i := (bs_calls s ! i)\<lparr>bc_returned := True\<rparr>]"
  have "\<forall>k<length (bs_groups s). h ! k = open_ops (bs_ops s) k + (if 0 < k \<and> \<not> bc_returned (?calls ! (k - 1)) then 1 else 0)"
  proof (intro allI impI)
    fix k assume k: "k < length (bs_groups s)"
    with inv have "bs_groups s ! k = open_ops (bs_ops s) k + (if 0 < k \<and> \<not> bc_returned (bs_calls s ! (k - 1)) then 1 else 0)"
      by (simp add: barrier_inv_def)
    then show "h ! k = open_ops (bs_ops s) k + (if 0 < k \<and> \<not> bc_returned (?calls ! (k - 1)) then 1 else 0)"
      using i k unfolding h by (cases k) (auto simp: nth_list_update)
  qed
  then show ?thesis using inv h all i by (auto simp: barrier_inv_def nth_list_update)
qed

lemma barrier_inv_step: "barrier_step s t \<Longrightarrow> barrier_inv s \<Longrightarrow> barrier_inv t"
proof (induction rule: barrier_step.induct)
  case (nothing s h b)
  then show ?case by (auto simp: wb_Barrier_def barrier_inv_def split: option.splits if_splits)
next
  case (unlock i s)
  then show ?case by (auto simp: barrier_inv_def nth_list_update)
qed (blast intro: barrier_start_inv barrier_done_inv barrier_enter_inv barrier_leave_inv)+

lemma barrier_reachable_inv: "barrier_reachable s \<Longrightarrow> barrier_inv s"
  unfolding barrier_reachable_def
  by (induction rule: rtranclp_induct) (auto intro: barrier_inv_init barrier_inv_step)

section \<open>Properties\<close>

text \<open>C36. \<open>OneRunner\<close> runs one call at a time and loses no request, in every interleaving: when \<open>Wait\<close> returns no call is running, and
  after every request a call of \<open>f\<close> has started and ended.\<close>

theorem one_runner_serves:
  assumes "runner_reachable s"
  shows "rs_calling s \<le> 1 \<and> (or_Wait (rs_runner s) \<longrightarrow> rs_calling s = 0 \<and> all_served (rs_history s))"
  using runner_reachable_inv [OF assms] followed_by_served by (auto simp: runner_inv_def or_Wait_def split: if_splits)

lemma runner_sample: "runner_reachable \<lparr>rs_runner = \<lparr>or_running = False, or_run = False\<rparr>, rs_looping = 0, rs_calling = 0,
    rs_history = [Requested, Started, Requested, Finished, Started, Finished]\<rparr>"
proof -
  let ?s = "\<lambda>a b l c h. \<lparr>rs_runner = \<lparr>or_running = a, or_run = b\<rparr>, rs_looping = l, rs_calling = c, rs_history = h\<rparr>"
  have "runner_step runner_init (?s True True 1 0 [Requested])"
    using runner_step.request [of runner_init] by (simp add: or_request_def runner_init_def NewOneRunner_def)
  moreover have "runner_step (?s True True 1 0 [Requested]) (?s True False 0 1 [Requested, Started])"
    using runner_step.call [of "?s True True 1 0 [Requested]"] by (simp add: or_do_def)
  moreover have "runner_step (?s True False 0 1 [Requested, Started]) (?s True True 0 1 [Requested, Started, Requested])"
    using runner_step.request [of "?s True False 0 1 [Requested, Started]" _ False] by (simp add: or_request_def)
  moreover have "runner_step (?s True True 0 1 [Requested, Started, Requested]) (?s True True 1 0 [Requested, Started, Requested, Finished])"
    using runner_step.finish [of "?s True True 0 1 [Requested, Started, Requested]"] by simp
  moreover have "runner_step (?s True True 1 0 [Requested, Started, Requested, Finished]) (?s True False 0 1 [Requested, Started, Requested, Finished, Started])"
    using runner_step.call [of "?s True True 1 0 [Requested, Started, Requested, Finished]"] by (simp add: or_do_def)
  moreover have "runner_step (?s True False 0 1 [Requested, Started, Requested, Finished, Started])
      (?s True False 1 0 [Requested, Started, Requested, Finished, Started, Finished])"
    using runner_step.finish [of "?s True False 0 1 [Requested, Started, Requested, Finished, Started]"] by simp
  moreover have "runner_step (?s True False 1 0 [Requested, Started, Requested, Finished, Started, Finished])
      (?s False False 0 0 [Requested, Started, Requested, Finished, Started, Finished])"
    using runner_step.stop [of "?s True False 1 0 [Requested, Started, Requested, Finished, Started, Finished]"] by (simp add: or_do_def)
  ultimately show ?thesis unfolding runner_reachable_def by (meson converse_rtranclp_into_rtranclp rtranclp.rtrancl_refl)
qed

theorem one_runner_serves_witness: "all_served [Requested, Started, Requested, Finished, Started, Finished]"
  using one_runner_serves [OF runner_sample] by (simp add: or_Wait_def)

text \<open>C37. Work always ends: in every reachable state, without further requests the runner takes at most five more steps, whatever their
  order, and it does come to the state where \<open>Wait\<close> returns.\<close>

theorem one_runner_stops:
  assumes "runner_reachable s"
  shows "((runner_work ^^ n) s t \<longrightarrow> n \<le> 5) \<and> (\<exists>n t. (runner_work ^^ n) s t \<and> or_Wait (rs_runner t))"
proof -
  have inv: "runner_inv s" by (rule runner_reachable_inv [OF assms])
  then have "rs_looping s + rs_calling s \<le> 1" by (auto simp: runner_inv_def)
  then have "runner_measure s \<le> 5" by (auto simp: runner_measure_def)
  with runner_work_bound [of n s t] runner_work_stops [OF inv] show ?thesis by (auto simp: or_Wait_def)
qed

theorem one_runner_stops_witness: "\<exists>n t. (runner_work ^^ n) runner_init t \<and> or_Wait (rs_runner t)"
proof -
  have "runner_reachable runner_init" by (simp add: runner_reachable_def)
  from one_runner_stops [OF this] show ?thesis by blast
qed

text \<open>C35. When a barrier returns, every operation that was started before the barrier is done, and \<open>Unlock\<close> of its argument was called; \<open>Done\<close> of an
  operation under way never makes a counter negative. This holds in every interleaving of operations and barriers.\<close>

theorem barrier_waits:
  assumes "barrier_reachable s"
  shows "(\<forall>i<length (bs_calls s). bc_returned (bs_calls s ! i) \<longrightarrow>
      bc_unlocked (bs_calls s ! i) \<and> (\<forall>j<bc_before (bs_calls s ! i). op_done (bs_ops s ! j))) \<and>
    (\<forall>j<length (bs_ops s). op_done (bs_ops s ! j) \<or> wb_Done (bs_groups s) (op_group (bs_ops s ! j)) \<noteq> None)"
proof -
  have inv: "barrier_inv s" by (rule barrier_reachable_inv [OF assms])
  have "op_done (bs_ops s ! j)"
    if i: "i < length (bs_calls s)" "bc_returned (bs_calls s ! i)" and j: "j < bc_before (bs_calls s ! i)" for i j
  proof -
    have g: "op_group (bs_ops s ! j) \<le> i" "j < length (bs_ops s)" using inv i(1) j by (auto simp: barrier_inv_def)
    then have "bs_ops s ! j \<in> set (bs_ops s)" by simp
    then show ?thesis using inv i g by (auto simp: barrier_inv_def)
  qed
  moreover have "wb_Done (bs_groups s) (op_group (bs_ops s ! j)) \<noteq> None" if j: "j < length (bs_ops s)" "\<not> op_done (bs_ops s ! j)" for j
    using open_op_counted [OF j] inv nth_mem [OF j(1)] by (auto simp: barrier_inv_def wb_Done_def)
  moreover have "bc_unlocked (bs_calls s ! i)" if "i < length (bs_calls s)" "bc_returned (bs_calls s ! i)" for i
    using inv that by (auto simp: barrier_inv_def)
  ultimately show ?thesis by blast
qed

lemma barrier_sample: "barrier_reachable \<lparr>bs_groups = [0, 0], bs_barrier = \<lparr>wb_wg = Some 1\<rparr>, bs_ops = [\<lparr>op_group = 0, op_done = True\<rparr>],
    bs_calls = [\<lparr>bc_wait = 0, bc_group = 1, bc_before = 1, bc_unlocked = True, bc_returned = True\<rparr>]\<rparr>"
proof -
  let ?s = "\<lambda>h g d cs. \<lparr>bs_groups = h, bs_barrier = \<lparr>wb_wg = Some g\<rparr>, bs_ops = [\<lparr>op_group = 0, op_done = d\<rparr>], bs_calls = cs\<rparr>"
  let ?c = "\<lambda>u r. [\<lparr>bc_wait = 0, bc_group = 1, bc_before = 1, bc_unlocked = u, bc_returned = r\<rparr>]"
  have "barrier_step barrier_init (?s [1] 0 False [])"
    using barrier_step.start [of barrier_init "[1]" "\<lparr>wb_wg = Some 0\<rparr>" 0] by (simp add: wb_Start_def barrier_init_def)
  moreover have "barrier_step (?s [1] 0 False []) (?s [1, 1] 1 False (?c False False))"
    using barrier_step.enter [of "?s [1] 0 False []" "[1, 1]" "\<lparr>wb_wg = Some 1\<rparr>" 0 1] by (simp add: wb_Barrier_def)
  moreover have "barrier_step (?s [1, 1] 1 False (?c False False)) (?s [0, 1] 1 True (?c False False))"
    using barrier_step.op_done [of 0 "?s [1, 1] 1 False (?c False False)" "[0, 1]"] by (simp add: wb_Done_def)
  moreover have "barrier_step (?s [0, 1] 1 True (?c False False)) (?s [0, 1] 1 True (?c True False))"
    using barrier_step.unlock [of 0 "?s [0, 1] 1 True (?c False False)"] by simp
  moreover have "barrier_step (?s [0, 1] 1 True (?c True False)) (?s [0, 0] 1 True (?c True True))"
    using barrier_step.leave [of 0 "?s [0, 1] 1 True (?c True False)" "[0, 0]"] by (simp add: wb_Done_def)
  ultimately show ?thesis unfolding barrier_reachable_def by (meson converse_rtranclp_into_rtranclp rtranclp.rtrancl_refl)
qed

theorem barrier_waits_witness:
  "\<exists>s. barrier_reachable s \<and> bc_returned (bs_calls s ! 0) \<and> bc_before (bs_calls s ! 0) = 1 \<and> op_done (bs_ops s ! 0)"
  using barrier_waits [OF barrier_sample] barrier_sample by force

end
