(* ===== verification/App_Parse.thy ===== *)
theory App_Parse
  imports Go_Prelude
begin

text \<open>
  \<open>internal/app/logblock\<close>: the parsers of the command line, sizes such as \<open>64G\<close> (\<open>parse_size.go\<close>) and device paths
  such as \<open>/dev/nbd3\<close> (\<open>parse_nbd.go\<close>), with the parts of \<open>strconv\<close>, \<open>strings\<close> and \<open>regexp\<close> they use.
\<close>

section \<open>Strings\<close>

definition is_digit :: "char \<Rightarrow> bool" where
  "is_digit c \<longleftrightarrow> 48 \<le> (of_char c :: nat) \<and> (of_char c :: nat) \<le> 57"

definition digit_val :: "char \<Rightarrow> nat" where
  "digit_val c = of_char c - 48"

text \<open>\<open>strconv.ParseUint\<close> in base 10, with \<open>maxVal\<close> the largest value of the bit size: it reads from the left and reports the first
  bad character or the first overflow.\<close>

fun ParseUint_loop :: "nat \<Rightarrow> nat \<Rightarrow> string \<Rightarrow> nat \<times> go_error option" where
  "ParseUint_loop maxVal n [] = (n, None)"
| "ParseUint_loop maxVal n (c # cs) =
     (if \<not> is_digit c then (0, Some (Err ''invalid syntax''))
      else if n * 10 + digit_val c > maxVal then (maxVal, Some (Err ''value out of range''))
      else ParseUint_loop maxVal (n * 10 + digit_val c) cs)"

definition ParseUint :: "string \<Rightarrow> nat \<Rightarrow> nat \<times> go_error option" where
  "ParseUint s bitSize = (if s = [] then (0, Some (Err ''invalid syntax'')) else ParseUint_loop (2 ^ bitSize - 1) 0 s)"

definition HasPrefix :: "string \<Rightarrow> string \<Rightarrow> bool" where
  "HasPrefix s p \<longleftrightarrow> take (length p) s = p"

section \<open>\<open>parse_size.go\<close>\<close>

text \<open>The submatches of \<open>^([1-9][0-9]*)([MGTP])?$\<close>: the digits and the suffix, which is empty when the group did not take part.\<close>

definition sizePattern :: "string \<Rightarrow> (string \<times> string) option" where
  "sizePattern str =
     (let digits = takeWhile is_digit str; rest = dropWhile is_digit str
      in if digits = [] \<or> hd digits = CHR ''0'' then None
         else if rest \<in> set [[], ''M'', ''G'', ''T'', ''P''] then Some (digits, rest) else None)"

definition ParseSizeString :: "string \<Rightarrow> nat \<times> go_error option" where
  "ParseSizeString str =
     (if str = ''0'' then (0, None)
      else case sizePattern str of
        None \<Rightarrow> (0, Some ErrInvalidSizeString)
      | Some (digits, suffix) \<Rightarrow>
          (case ParseUint digits 64 of
             (_, Some _) \<Rightarrow> (0, Some ErrInvalidSizeString)
           | (sz, None) \<Rightarrow>
               (if suffix = ''M'' then u64 (sz * 2 ^ 20)
                else if suffix = ''G'' then u64 (sz * 2 ^ 30)
                else if suffix = ''T'' then u64 (sz * 2 ^ 40)
                else if suffix = ''P'' then u64 (sz * 2 ^ 50)
                else sz, None)))"

section \<open>\<open>parse_nbd.go\<close>\<close>

definition nbdPrefix :: string where "nbdPrefix = ''/dev/nbd''"

definition ParseNbdIndex :: "string \<Rightarrow> int \<times> go_error option" where
  "ParseNbdIndex dev =
     (if \<not> HasPrefix dev nbdPrefix then (0, Some ErrInvalidNbdPath)
      else case ParseUint (drop (length nbdPrefix) dev) 32 of
        (_, Some err) \<Rightarrow> (0, Some (Err ''error parsing nbd device''))
      | (i, None) \<Rightarrow> (int i, None))"

section \<open>Decimal numbers\<close>

definition digit_char :: "nat \<Rightarrow> char" where
  "digit_char d = char_of (48 + d)"

fun decimal :: "nat \<Rightarrow> string" where
  "decimal n = (if n < 10 then [digit_char n] else decimal (n div 10) @ [digit_char (n mod 10)])"

declare decimal.simps [simp del]

definition digits_val :: "string \<Rightarrow> nat" where
  "digits_val s = foldl (\<lambda>n c. n * 10 + digit_val c) 0 s"

lemma of_digit_char: "d < 10 \<Longrightarrow> of_char (digit_char d) = 48 + d"
  by (simp add: digit_char_def)

lemma digit_char: "d < 10 \<Longrightarrow> is_digit (digit_char d)" "d < 10 \<Longrightarrow> digit_val (digit_char d) = d"
  "d < 10 \<Longrightarrow> digit_char d = CHR ''0'' \<longleftrightarrow> d = 0"
proof -
  assume d: "d < 10"
  show "is_digit (digit_char d)" "digit_val (digit_char d) = d"
    using of_digit_char [OF d] d by (simp_all add: is_digit_def digit_val_def)
  have "of_char (CHR ''0'') = (48 :: nat)" by simp
  then show "digit_char d = CHR ''0'' \<longleftrightarrow> d = 0"
    using of_digit_char [OF d] by (metis add_cancel_left_right of_char_eq_iff)
qed

lemma char_digit: "is_digit c \<Longrightarrow> digit_val c < 10 \<and> digit_char (digit_val c) = c"
  by (auto simp: is_digit_def digit_val_def digit_char_def)

lemma digits_val_snoc: "digits_val (s @ [c]) = digits_val s * 10 + digit_val c"
  by (simp add: digits_val_def)

lemma decimal_val: "list_all is_digit (decimal n) \<and> digits_val (decimal n) = n \<and> decimal n \<noteq> [] \<and> (hd (decimal n) = CHR ''0'' \<longleftrightarrow> n = 0)"
proof (induction n rule: decimal.induct)
  case (1 n)
  show ?case
  proof (cases "n < 10")
    case True
    then show ?thesis using digit_char [OF True] by (subst (1 2 3 4) decimal.simps) (simp add: digits_val_def)
  next
    case False
    have m: "n mod 10 < 10" by simp
    have "n div 10 \<noteq> 0" using False by simp
    with 1 [OF False] False digit_char [OF m] show ?thesis
      by (subst (1 2 3 4) decimal.simps) (simp add: digits_val_snoc)
  qed
qed

text \<open>A string of digits without a leading zero is the decimal of its value.\<close>

lemma decimal_digits:
  assumes "list_all is_digit s" "s \<noteq> []" "hd s \<noteq> CHR ''0'' \<or> length s = 1"
  shows "s = decimal (digits_val s)"
  using assms
proof (induction s rule: rev_induct)
  case (snoc c s)
  have c: "is_digit c" using snoc.prems(1) by simp
  note cd = char_digit [OF c]
  show ?case
  proof (cases "s = []")
    case True
    then show ?thesis using cd by (subst decimal.simps) (simp add: digits_val_def)
  next
    case False
    then have h: "hd s \<noteq> CHR ''0''" using snoc.prems(3) by simp
    have s: "s = decimal (digits_val s)" using snoc.IH snoc.prems(1) False h by simp
    have "digits_val s \<noteq> 0" using s h decimal_val [of "digits_val s"] by metis
    then have "\<not> digits_val s * 10 + digit_val c < 10" "(digits_val s * 10 + digit_val c) div 10 = digits_val s"
      "(digits_val s * 10 + digit_val c) mod 10 = digit_val c" using cd by simp_all
    then show ?thesis using s cd by (subst decimal.simps) (simp add: digits_val_snoc)
  qed
qed simp

lemma ParseUint_loop_digits:
  assumes "list_all is_digit s" "n \<le> maxVal"
  shows "ParseUint_loop maxVal n s = (let v = foldl (\<lambda>n c. n * 10 + digit_val c) n s in if v \<le> maxVal then (v, None) else (maxVal, Some (Err ''value out of range'')))"
  using assms
proof (induction s arbitrary: n)
  case (Cons c s)
  have mono: "n \<le> foldl (\<lambda>n c. n * 10 + digit_val c) n s" for n
  proof (induction s arbitrary: n)
    case (Cons d s)
    have "n \<le> n * 10 + digit_val d" by simp
    also have "\<dots> \<le> foldl (\<lambda>n c. n * 10 + digit_val c) (n * 10 + digit_val d) s" by (rule Cons)
    finally show ?case by simp
  qed simp
  show ?case
  proof (cases "n * 10 + digit_val c > maxVal")
    case True
    with mono [of "n * 10 + digit_val c"] Cons.prems show ?thesis by (simp add: Let_def)
  next
    case False
    with Cons show ?thesis by simp
  qed
qed (simp add: Let_def)

lemma ParseUint_digits:
  "list_all is_digit s \<Longrightarrow> s \<noteq> [] \<Longrightarrow>
    ParseUint s k = (if digits_val s < 2 ^ k then (digits_val s, None) else (2 ^ k - 1, Some (Err ''value out of range'')))"
proof -
  assume s: "list_all is_digit s" "s \<noteq> []"
  have "x \<le> 2 ^ k - 1 \<longleftrightarrow> x < 2 ^ k" for x :: nat using zero_less_power [of "2 :: nat" k] by linarith
  with s ParseUint_loop_digits [of s 0 "2 ^ k - 1"] show ?thesis by (simp add: ParseUint_def digits_val_def Let_def)
qed

lemma ParseUint_bad: "\<not> list_all is_digit s \<Longrightarrow> snd (ParseUint_loop m n s) \<noteq> None"
  by (induction s arbitrary: n) auto

lemma ParseUint_ok: "ParseUint s k = (n, None) \<longleftrightarrow> s \<noteq> [] \<and> list_all is_digit s \<and> digits_val s < 2 ^ k \<and> n = digits_val s"
proof (cases "s \<noteq> [] \<and> list_all is_digit s")
  case True
  then show ?thesis using ParseUint_digits [of s k] by auto
next
  case False
  then show ?thesis using ParseUint_bad [of s "2 ^ k - 1" 0] by (auto simp: ParseUint_def)
qed

text \<open>The units of a size.\<close>

definition size_units :: "(string \<times> nat) list" where
  "size_units = [([], 0), (''M'', 20), (''G'', 30), (''T'', 40), (''P'', 50)]"

lemma sizePattern_decimal:
  assumes "(suffix, k) \<in> set size_units"
  shows "sizePattern (decimal n @ suffix) = (if n = 0 then None else Some (decimal n, suffix))"
proof -
  have nd: "suffix = [] \<or> \<not> is_digit (hd suffix)" using assms by (auto simp: size_units_def is_digit_def)
  have tw: "takeWhile is_digit suffix = []" "dropWhile is_digit suffix = suffix" using nd by (cases suffix; simp)+
  have "\<forall>c\<in>set (decimal n). is_digit c" using decimal_val [of n] by (simp add: list_all_iff)
  then have "takeWhile is_digit (decimal n @ suffix) = decimal n" "dropWhile is_digit (decimal n @ suffix) = suffix"
    using tw by (simp_all add: takeWhile_append2 dropWhile_append2)
  moreover have "suffix \<in> set [[], ''M'', ''G'', ''T'', ''P'']" using assms by (auto simp: size_units_def)
  ultimately show ?thesis using decimal_val [of n] by (auto simp: sizePattern_def Let_def)
qed

lemma ParseSizeString_decimal:
  assumes "(suffix, k) \<in> set size_units"
  shows "ParseSizeString (decimal n @ suffix) =
    (if n = 0 \<and> suffix = [] then (0, None) else if n = 0 \<or> \<not> n < 2 ^ 64 then (0, Some ErrInvalidSizeString) else (n * 2 ^ k mod 2 ^ 64, None))"
proof -
  have d: "list_all is_digit (decimal n)" "digits_val (decimal n) = n" "decimal n \<noteq> []" using decimal_val [of n] by auto
  have z: "decimal n @ suffix = ''0'' \<longleftrightarrow> n = 0 \<and> suffix = []"
  proof
    assume z: "decimal n @ suffix = ''0''"
    with d(3) have "decimal n = ''0''" "suffix = []" by (cases "decimal n"; simp)+
    then show "n = 0 \<and> suffix = []" using decimal_val [of n] by simp
  next
    assume "n = 0 \<and> suffix = []"
    then show "decimal n @ suffix = ''0''" using digit_char(3) [of 0] by (simp add: decimal.simps [of 0])
  qed
  note pu = ParseUint_digits [OF d(1,3), of 64, unfolded d(2)]
  show ?thesis
    unfolding ParseSizeString_def z sizePattern_decimal [OF assms] using assms pu
    by (auto simp: size_units_def u64_def)
qed

lemma sizePattern_Some:
  assumes "sizePattern str = Some (digits, suffix)"
  obtains n k where "(suffix, k) \<in> set size_units" "str = decimal n @ suffix" "digits = decimal n" "0 < n"
proof -
  have m: "digits = takeWhile is_digit str" "suffix = dropWhile is_digit str" "digits \<noteq> []" "hd digits \<noteq> CHR ''0''"
    "suffix \<in> set [[], ''M'', ''G'', ''T'', ''P'']"
    using assms by (auto simp: sizePattern_def Let_def split: if_splits)
  obtain k where k: "(suffix, k) \<in> set size_units" using m(5) by (fastforce simp: size_units_def)
  have "list_all is_digit digits" unfolding m(1) by (auto simp: list_all_iff dest: set_takeWhileD)
  then have dd: "digits = decimal (digits_val digits)" using m(3,4) decimal_digits by blast
  moreover have "0 < digits_val digits" using m(4) dd decimal_val [of "digits_val digits"] by fastforce
  moreover have "str = digits @ suffix" unfolding m(1,2) by simp
  ultimately show thesis using that [OF k, of "digits_val digits"] by simp
qed

section \<open>Properties\<close>

text \<open>C39. The sizes accepted are exactly the decimal numbers below \<open>2 ^ 64\<close> without leading zeros, with or without one of the four unit
  letters, zero having none. The value is the number times the unit, modulo \<open>2 ^ 64\<close>.\<close>

theorem ParseSizeString_accepts:
  "ParseSizeString str = (v, None) \<longleftrightarrow> (\<exists>n suffix k. (suffix, k) \<in> set size_units \<and> str = decimal n @ suffix \<and> n < 2 ^ 64 \<and>
     (0 < n \<or> suffix = []) \<and> v = n * 2 ^ k mod 2 ^ 64)"
proof
  assume p: "ParseSizeString str = (v, None)"
  show "\<exists>n suffix k. (suffix, k) \<in> set size_units \<and> str = decimal n @ suffix \<and> n < 2 ^ 64 \<and> (0 < n \<or> suffix = []) \<and> v = n * 2 ^ k mod 2 ^ 64"
  proof (cases "str = ''0''")
    case True
    then have "v = 0" "str = decimal 0 @ []" using p digit_char(3) [of 0] by (simp_all add: ParseSizeString_def decimal.simps [of 0])
    then show ?thesis by (intro exI [of _ 0] exI [of _ "[]"]) (auto simp: size_units_def)
  next
    case False
    with p obtain digits suffix where "sizePattern str = Some (digits, suffix)" by (auto simp: ParseSizeString_def split: option.splits)
    then obtain n k where n: "(suffix, k) \<in> set size_units" "str = decimal n @ suffix" "0 < n" by (rule sizePattern_Some)
    from ParseSizeString_decimal [OF n(1), of n] p n show ?thesis by (auto split: if_splits)
  qed
next
  assume "\<exists>n suffix k. (suffix, k) \<in> set size_units \<and> str = decimal n @ suffix \<and> n < 2 ^ 64 \<and> (0 < n \<or> suffix = []) \<and> v = n * 2 ^ k mod 2 ^ 64"
  then obtain n suffix k where n: "(suffix, k) \<in> set size_units" "str = decimal n @ suffix" "n < 2 ^ 64" "0 < n \<or> suffix = []" "v = n * 2 ^ k mod 2 ^ 64"
    by blast
  from ParseSizeString_decimal [OF n(1), of n] n(2-5) show "ParseSizeString str = (v, None)" by auto
qed

text \<open>The device paths accepted are exactly \<open>/dev/nbd\<close> followed by decimal digits, leading zeros included, of a value below
  \<open>2 ^ 32\<close>, which is the index returned.\<close>

theorem ParseNbdIndex_accepts:
  "ParseNbdIndex dev = (i, None) \<longleftrightarrow> (\<exists>s. dev = nbdPrefix @ s \<and> s \<noteq> [] \<and> list_all is_digit s \<and> digits_val s < 2 ^ 32 \<and> i = int (digits_val s))"
proof (cases "HasPrefix dev nbdPrefix")
  case True
  then have "dev = nbdPrefix @ drop (length nbdPrefix) dev" unfolding HasPrefix_def by (metis append_take_drop_id)
  then obtain s where s: "dev = nbdPrefix @ s" by blast
  have "ParseNbdIndex dev = (i, None) \<longleftrightarrow> (\<exists>n. ParseUint s 32 = (n, None) \<and> i = int n)"
    using True unfolding ParseNbdIndex_def s by (auto split: prod.splits option.splits)
  then show ?thesis unfolding ParseUint_ok s by auto
next
  case False
  then show ?thesis by (auto simp: ParseNbdIndex_def HasPrefix_def)
qed

end
