(* ===== verification/Storage_Local.thy ===== *)
theory Storage_Local
  imports Go_IO
begin

text \<open>
  \<open>internal/storage/sources.go\<close> and \<open>internal/storage/local/local.go\<close>: blobs and logs as files of a directory. A blob is
  written to a temporary file, which replaces the blob by a rename when it is closed.

  The model has the directory of one store; a path is the name in it. A file has its content and whether that is on the disk: a
  write takes it off, \<open>Sync\<close> puts it there. The state keeps every directory it went through, one for each system call that changed
  it, so that a crash between two calls can be spoken of. What the operating system answers is an argument: \<open>F\<close> gives the
  error of each kind of call, if it fails.
\<close>

section \<open>The file system\<close>

type_synonym directory = "string \<rightharpoonup> bytes \<times> bool"

record local_fs =
  fs_files :: directory
  fs_history :: "directory list"

definition fs_set :: "local_fs \<Rightarrow> directory \<Rightarrow> local_fs" where
  "fs_set fs d = fs\<lparr>fs_files := d, fs_history := fs_history fs @ [d]\<rparr>"

datatype os_call = CallMkdir | CallOpen | CallStat | CallCreateTemp | CallWrite | CallSync | CallClose | CallRename | CallRemove

type_synonym os_faults = "os_call \<Rightarrow> go_error option"

definition os_Remove :: "os_faults \<Rightarrow> local_fs \<Rightarrow> string \<Rightarrow> local_fs \<times> go_error option" where
  "os_Remove F fs name =
     (if F CallRemove \<noteq> None then (fs, F CallRemove)
      else case fs_files fs name of
        None \<Rightarrow> (fs, Some ErrNotExist)
      | Some _ \<Rightarrow> (fs_set fs ((fs_files fs)(name := None)), None))"

definition os_Rename :: "os_faults \<Rightarrow> local_fs \<Rightarrow> string \<Rightarrow> string \<Rightarrow> local_fs \<times> go_error option" where
  "os_Rename F fs old new =
     (if F CallRename \<noteq> None then (fs, F CallRename)
      else case fs_files fs old of
        None \<Rightarrow> (fs, Some ErrNotExist)
      | Some f \<Rightarrow> (fs_set fs ((fs_files fs)(old := None, new \<mapsto> f)), None))"

text \<open>A write that fails may have written a part, of the length given by \<open>part\<close>.\<close>

definition os_Write :: "os_faults \<Rightarrow> nat \<Rightarrow> local_fs \<Rightarrow> string \<Rightarrow> bytes \<Rightarrow> local_fs \<times> nat \<times> go_error option" where
  "os_Write F part fs name p =
     (case fs_files fs name of
        None \<Rightarrow> (fs, 0, Some ErrNotExist)
      | Some (c, _) \<Rightarrow>
          let n = (if F CallWrite = None then length p else min part (length p))
          in (fs_set fs ((fs_files fs)(name \<mapsto> (c @ take n p, False))), n, F CallWrite))"

definition os_Sync :: "os_faults \<Rightarrow> local_fs \<Rightarrow> string \<Rightarrow> local_fs \<times> go_error option" where
  "os_Sync F fs name =
     (if F CallSync \<noteq> None then (fs, F CallSync)
      else case fs_files fs name of
        None \<Rightarrow> (fs, Some ErrNotExist)
      | Some (c, _) \<Rightarrow> (fs_set fs ((fs_files fs)(name \<mapsto> (c, True))), None))"

text \<open>A crash keeps what is on the disk; a file that is not may have any content, or be gone.\<close>

definition crash_image :: "directory \<Rightarrow> directory \<Rightarrow> bool" where
  "crash_image d d' \<longleftrightarrow> (\<forall>name. case d name of
     None \<Rightarrow> d' name = None
   | Some (c, synced) \<Rightarrow> synced \<longrightarrow> d' name = Some (c, True))"

section \<open>Readers\<close>

record fileReader =
  fr_ReadAt :: ReaderAt
  fr_size :: int

definition fileReader_Size :: "fileReader \<Rightarrow> int" where
  "fileReader_Size r = fr_size r"

definition openFileReader :: "os_faults \<Rightarrow> directory \<Rightarrow> string \<Rightarrow> fileReader option \<times> go_error option" where
  "openFileReader F d fpath =
     (if F CallOpen \<noteq> None then (None, F CallOpen)
      else case d fpath of
        None \<Rightarrow> (None, Some ErrNotExist)
      | Some (c, _) \<Rightarrow>
          if F CallStat \<noteq> None then (None, F CallStat)
          else (Some \<lparr>fr_ReadAt = file_ReadAt c, fr_size = int (length c)\<rparr>, None))"

section \<open>Blobs\<close>

definition tempBlobPrefix :: string where "tempBlobPrefix = ''.temp-''"

definition NewBlobStore :: "os_faults \<Rightarrow> go_error option" where
  "NewBlobStore F = F CallMkdir"

definition BlobStore_Open :: "os_faults \<Rightarrow> local_fs \<Rightarrow> string \<Rightarrow> fileReader option \<times> go_error option" where
  "BlobStore_Open F fs name = openFileReader F (fs_files fs) name"

text \<open>\<open>os.CreateTemp\<close> puts a random string after the prefix and tries again while the name is taken: \<open>fresh\<close> gives the string that was
  found free.\<close>

definition makeTempFile :: "os_faults \<Rightarrow> (directory \<Rightarrow> string) \<Rightarrow> local_fs \<Rightarrow> local_fs \<times> string \<times> go_error option" where
  "makeTempFile F fresh fs =
     (if F CallCreateTemp \<noteq> None then (fs, [], F CallCreateTemp)
      else let name = tempBlobPrefix @ fresh (fs_files fs)
        in (fs_set fs ((fs_files fs)(name \<mapsto> ([], False))), name, None))"

text \<open>\<open>bw_temp\<close> is the name of the open file, \<^const>\<open>None\<close> after \<open>w.File = nil\<close>.\<close>

record blobWriter =
  bw_temp :: "string option"
  bw_path :: string

definition BlobStore_Create :: "os_faults \<Rightarrow> (directory \<Rightarrow> string) \<Rightarrow> local_fs \<Rightarrow> string \<Rightarrow> local_fs \<times> blobWriter option \<times> go_error option" where
  "BlobStore_Create F fresh fs name =
     (case makeTempFile F fresh fs of
        (fs, f, err) \<Rightarrow> if err \<noteq> None then (fs, None, err) else (fs, Some \<lparr>bw_temp = Some f, bw_path = name\<rparr>, None))"

definition blobWriter_Write :: "os_faults \<Rightarrow> nat \<Rightarrow> local_fs \<Rightarrow> blobWriter \<Rightarrow> bytes \<Rightarrow> (local_fs \<times> nat \<times> go_error option) option" where
  "blobWriter_Write F part fs w p = map_option (\<lambda>f. os_Write F part fs f p) (bw_temp w)"

text \<open>\<open>Close\<close>. The deferred \<open>Remove\<close> of the temporary name runs on every path; its error is dropped.\<close>

definition blobWriter_Close :: "os_faults \<Rightarrow> local_fs \<Rightarrow> blobWriter \<Rightarrow> (local_fs \<times> blobWriter \<times> go_error option) option" where
  "blobWriter_Close F fs w = map_option (\<lambda>f.
     let (fs, w, err) =
       (case os_Sync F fs f of
          (fs, Some err) \<Rightarrow> (fs, w, Some err)
        | (fs, None) \<Rightarrow>
            if F CallClose \<noteq> None then (fs, w, F CallClose)
            else case os_Rename F fs f (bw_path w) of
              (fs, Some err) \<Rightarrow> (fs, w, Some err)
            | (fs, None) \<Rightarrow> (fs, w\<lparr>bw_temp := None\<rparr>, None))
     in (fst (os_Remove F fs f), w, err)) (bw_temp w)"

text \<open>The goroutine of a writer, when its context is done. \<open>f\<close> is the temporary file of its \<open>Create\<close>.\<close>

definition waitCancel :: "os_faults \<Rightarrow> local_fs \<Rightarrow> blobWriter \<Rightarrow> string \<Rightarrow> local_fs" where
  "waitCancel F fs w f = (if bw_temp w = None then fs else fst (os_Remove F fs f))"

definition BlobStore_Remove :: "os_faults \<Rightarrow> local_fs \<Rightarrow> string \<Rightarrow> local_fs \<times> go_error option" where
  "BlobStore_Remove F fs name = os_Remove F fs name"

section \<open>Logs\<close>

definition NewLogStore :: "os_faults \<Rightarrow> go_error option" where
  "NewLogStore F = F CallMkdir"

definition LogStore_Open :: "os_faults \<Rightarrow> local_fs \<Rightarrow> string \<Rightarrow> fileReader option \<times> go_error option" where
  "LogStore_Open F fs name = openFileReader F (fs_files fs) name"

definition fileWriter_Flush :: "os_faults \<Rightarrow> local_fs \<Rightarrow> string \<Rightarrow> local_fs \<times> go_error option" where
  "fileWriter_Flush F fs name = os_Sync F fs name"

text \<open>The file is opened with \<open>O_CREATE|O_EXCL\<close>.\<close>

definition LogStore_Create :: "os_faults \<Rightarrow> local_fs \<Rightarrow> string \<Rightarrow> local_fs \<times> string option \<times> go_error option" where
  "LogStore_Create F fs name =
     (if F CallOpen \<noteq> None then (fs, None, F CallOpen)
      else if fs_files fs name \<noteq> None then (fs, None, Some ErrExist)
      else (fs_set fs ((fs_files fs)(name \<mapsto> ([], False))), Some name, None))"

definition LogStore_Remove :: "os_faults \<Rightarrow> local_fs \<Rightarrow> string \<Rightarrow> local_fs \<times> go_error option" where
  "LogStore_Remove F fs name = os_Remove F fs name"

section \<open>A blob changes in one step\<close>

text \<open>What every directory since \<open>fs\<close> holds under \<open>name\<close>, and what is there now.\<close>

definition only_files :: "local_fs \<Rightarrow> local_fs \<Rightarrow> string \<Rightarrow> (bytes \<times> bool) option set \<Rightarrow> bool" where
  "only_files fs fs' name A \<longleftrightarrow> (\<exists>new. fs_history fs' = fs_history fs @ new \<and> (\<forall>d\<in>set new. d name \<in> A)) \<and> fs_files fs' name \<in> A"

lemma only_files_trans: "only_files a b name A \<Longrightarrow> only_files b c name A \<Longrightarrow> only_files a c name A"
proof -
  assume ab: "only_files a b name A" and bc: "only_files b c name A"
  then obtain x y where "fs_history b = fs_history a @ x" "fs_history c = fs_history b @ y" "\<forall>d\<in>set x \<union> set y. d name \<in> A"
    unfolding only_files_def by blast
  then have "fs_history c = fs_history a @ (x @ y)" "\<forall>d\<in>set (x @ y). d name \<in> A" by simp_all
  with bc show ?thesis unfolding only_files_def by blast
qed

lemma only_files_refl: "fs_files fs name \<in> A \<Longrightarrow> only_files fs fs name A"
  by (simp add: only_files_def)

lemma only_files_set: "d name \<in> A \<Longrightarrow> only_files fs (fs_set fs d) name A"
  by (simp add: only_files_def fs_set_def)

lemma os_Remove_other:
  "name \<noteq> f \<Longrightarrow> fs_files fs name \<in> A \<Longrightarrow> only_files fs (fst (os_Remove F fs f)) name A \<and> fs_files (fst (os_Remove F fs f)) name = fs_files fs name"
  by (auto simp: os_Remove_def intro!: only_files_set only_files_refl split: option.splits) (simp add: fs_set_def)

lemma fs_set_files [simp]: "fs_files (fs_set fs d) = d"
  by (simp add: fs_set_def)

lemma blob_Close_ok:
  assumes w: "bw_temp w = Some f" "f \<noteq> bw_path w" and f: "fs_files fs f = Some (c, s)"
    and A: "A = {fs_files fs (bw_path w), Some (c, True)}"
  shows "\<exists>fs' w' e. blobWriter_Close F fs w = Some (fs', w', e) \<and> only_files fs fs' (bw_path w) A \<and>
    (e = None \<longrightarrow> fs_files fs' (bw_path w) = Some (c, True) \<and> fs_files fs' f = None)"
proof -
  let ?name = "bw_path w"
  have old: "only_files fs fs ?name A" using A by (simp add: only_files_refl)
  have rm: "only_files fs (fst (os_Remove F g f)) ?name A \<and> fs_files (fst (os_Remove F g f)) ?name = fs_files g ?name"
    if "only_files fs g ?name A" for g
    using os_Remove_other [of ?name f g A F] only_files_trans [OF that] that w(2) by (auto simp: only_files_def)
  let ?g = "fs_set fs ((fs_files fs)(f \<mapsto> (c, True)))"
  let ?h = "fs_set ?g ((fs_files ?g)(f := None, ?name \<mapsto> (c, True)))"
  have g: "only_files fs ?g ?name A" by (rule only_files_set) (use w A in simp)
  have h: "only_files fs ?h ?name A" by (rule only_files_trans [OF g only_files_set]) (use w A in simp)
  consider (sync) "F CallSync \<noteq> None" | (other) "F CallSync = None" "F CallClose \<noteq> None \<or> F CallRename \<noteq> None"
    | (ok) "F CallSync = None" "F CallClose = None" "F CallRename = None" by blast
  then show ?thesis
  proof cases
    case sync
    then show ?thesis using rm [OF old] w f by (auto simp: blobWriter_Close_def os_Sync_def)
  next
    case other
    then show ?thesis using rm [OF g] w f by (auto simp: blobWriter_Close_def os_Sync_def os_Rename_def)
  next
    case ok
    have gone: "fs_files (fst (os_Remove F ?h f)) f = None" using w(2) by (simp add: os_Remove_def)
    have "blobWriter_Close F fs w = Some (fst (os_Remove F ?h f), w\<lparr>bw_temp := None\<rparr>, None)"
      using ok w f by (simp add: blobWriter_Close_def os_Sync_def os_Rename_def)
    then show ?thesis using rm [OF h] gone by simp
  qed
qed

end
