(* ===== verification/Metadata_Store.thy ===== *)
theory Metadata_Store
  imports Storage_Local Third_Party Go_Bufio
begin

text \<open>
  \<open>internal/metadata\<close> (\<open>metadata.go\<close>, \<open>data_file.go\<close>, \<open>store.go\<close>) and \<open>internal/block/metadata.go\<close>: the list of the files of a device and
  how it is stored, as a blob. The protobuf codec is an argument. The lock makes every method atomic.
\<close>

section \<open>The list of data files\<close>

definition pb_SPARSE_TABLE :: nat where "pb_SPARSE_TABLE = 1"
definition pb_WRITE_LOG :: nat where "pb_WRITE_LOG = 2"

record pb_DataFile =
  df_Type :: nat
  df_Name :: string
  df_Size :: nat
  df_FirstBlock :: nat
  df_LastBlock :: nat

record pb_Metadata =
  md_BlockSize :: nat
  md_NumBlocks :: nat
  md_DataFiles :: "pb_DataFile list"

text \<open>\<open>&pb.DataFile{Type: ty, Name: name}\<close>.\<close>

definition new_DataFile :: "nat \<Rightarrow> string \<Rightarrow> pb_DataFile" where
  "new_DataFile ty name = \<lparr>df_Type = ty, df_Name = name, df_Size = 0, df_FirstBlock = 0, df_LastBlock = 0\<rparr>"

datatype DataFileType = DataFile_UNSPECIFIED | DataFile_WRITE_LOG | DataFile_SPARSE_TABLE

text \<open>\<open>MetadataStore\<close>, with the state of the store.\<close>

record 'x MetadataStore =
  ms_Load :: "'x \<Rightarrow> (pb_Metadata option \<times> go_error option) option"
  ms_Store :: "'x \<Rightarrow> pb_Metadata \<Rightarrow> ('x \<times> go_error option) option"

record 'x Metadata =
  m_store :: 'x
  m_meta :: pb_Metadata

definition NewMetadata :: "'x \<Rightarrow> int \<Rightarrow> 'x Metadata option" where
  "NewMetadata store sz =
     (if sz \<le> 0 then None
      else Some \<lparr>m_store = store, m_meta = \<lparr>md_BlockSize = 0, md_NumBlocks = 0, md_DataFiles = []\<rparr>\<rparr>)"

definition NewMetadata_BlockStore :: "'x \<Rightarrow> int \<Rightarrow> nat \<Rightarrow> 'x Metadata" where
  "NewMetadata_BlockStore store blockSize numBlocks =
     \<lparr>m_store = store, m_meta = \<lparr>md_BlockSize = uint32 blockSize, md_NumBlocks = numBlocks, md_DataFiles = []\<rparr>\<rparr>"

definition LoadMetadata :: "'x MetadataStore \<Rightarrow> 'x \<Rightarrow> ('x Metadata option \<times> go_error option) option" where
  "LoadMetadata St store = do {
     (meta, err) \<leftarrow> ms_Load St store;
     if err \<noteq> None then Some (None, err)
     else Some (map_option (\<lambda>meta. \<lparr>m_store = store, m_meta = meta\<rparr>) meta, None)
   }"

definition Metadata_Save :: "'x MetadataStore \<Rightarrow> 'x Metadata \<Rightarrow> ('x Metadata \<times> go_error option) option" where
  "Metadata_Save St m = do {
     (store, err) \<leftarrow> ms_Store St (m_store m) (m_meta m);
     Some (m\<lparr>m_store := store\<rparr>, err)
   }"

definition SaveNoError :: "'x MetadataStore \<Rightarrow> 'x Metadata \<Rightarrow> 'x Metadata option" where
  "SaveNoError St m = do {
     (m, err) \<leftarrow> Metadata_Save St m;
     if err \<noteq> None then None else Some m
   }"

definition Metadata_Size :: "'x Metadata \<Rightarrow> int" where
  "Metadata_Size m = s64 (int (md_BlockSize (m_meta m)) * int64 (md_NumBlocks (m_meta m)))"

definition Metadata_BlockSize :: "'x Metadata \<Rightarrow> int" where
  "Metadata_BlockSize m = int (md_BlockSize (m_meta m))"

definition Metadata_NumBlocks :: "'x Metadata \<Rightarrow> nat" where
  "Metadata_NumBlocks m = md_NumBlocks (m_meta m)"

definition set_files :: "'x Metadata \<Rightarrow> pb_DataFile list \<Rightarrow> 'x Metadata" where
  "set_files m dfs = m\<lparr>m_meta := (m_meta m)\<lparr>md_DataFiles := dfs\<rparr>\<rparr>"

definition PushWriteLog :: "'x Metadata \<Rightarrow> string \<Rightarrow> 'x Metadata" where
  "PushWriteLog m name = set_files m (md_DataFiles (m_meta m) @ [new_DataFile pb_WRITE_LOG name])"

text \<open>The loops that look for the first entry of a type and name: one deletes it, the other changes it. Without one the list stays as it is.\<close>

fun delete_file :: "nat \<Rightarrow> string \<Rightarrow> pb_DataFile list \<Rightarrow> pb_DataFile list" where
  "delete_file ty name [] = []"
| "delete_file ty name (df # dfs) = (if df_Type df \<noteq> ty \<or> df_Name df \<noteq> name then df # delete_file ty name dfs else dfs)"

fun replace_log :: "string \<Rightarrow> string \<Rightarrow> pb_DataFile list \<Rightarrow> pb_DataFile list" where
  "replace_log writeLogName sparseFileName [] = []"
| "replace_log writeLogName sparseFileName (df # dfs) =
     (if df_Type df \<noteq> pb_WRITE_LOG \<or> df_Name df \<noteq> writeLogName then df # replace_log writeLogName sparseFileName dfs
      else df\<lparr>df_Type := pb_SPARSE_TABLE, df_Name := sparseFileName\<rparr> # dfs)"

definition RemoveWriteLog :: "'x Metadata \<Rightarrow> string \<Rightarrow> 'x Metadata" where
  "RemoveWriteLog m name = set_files m (delete_file pb_WRITE_LOG name (md_DataFiles (m_meta m)))"

definition CompactWriteLog :: "'x Metadata \<Rightarrow> string \<Rightarrow> string \<Rightarrow> 'x Metadata" where
  "CompactWriteLog m writeLogName sparseFileName = set_files m (replace_log writeLogName sparseFileName (md_DataFiles (m_meta m)))"

definition PushSparseDataFile :: "'x Metadata \<Rightarrow> string \<Rightarrow> 'x Metadata" where
  "PushSparseDataFile m name = set_files m (md_DataFiles (m_meta m) @ [new_DataFile pb_SPARSE_TABLE name])"

definition RemoveSparseDataFile :: "'x Metadata \<Rightarrow> string \<Rightarrow> 'x Metadata" where
  "RemoveSparseDataFile m name = set_files m (delete_file pb_SPARSE_TABLE name (md_DataFiles (m_meta m)))"

definition mDataFile_Type :: "pb_DataFile \<Rightarrow> DataFileType option" where
  "mDataFile_Type df =
     (if df_Type df = pb_WRITE_LOG then Some DataFile_WRITE_LOG
      else if df_Type df = pb_SPARSE_TABLE then Some DataFile_SPARSE_TABLE
      else None)"

definition mDataFile_Name :: "pb_DataFile \<Rightarrow> string" where
  "mDataFile_Name df = df_Name df"

definition ListDataFiles :: "'x Metadata \<Rightarrow> pb_DataFile list" where
  "ListDataFiles m = md_DataFiles (m_meta m)"

definition PrependReaderFiles :: "'x Metadata \<Rightarrow> string list \<Rightarrow> 'x Metadata" where
  "PrependReaderFiles m fs = set_files m
     (map (\<lambda>f. new_DataFile pb_SPARSE_TABLE f) fs @ filter (\<lambda>e. df_Name e \<notin> set fs) (md_DataFiles (m_meta m)))"

section \<open>Storing it\<close>

text \<open>\<open>bytes.Buffer.ReadFrom\<close>: reads until the end of the file.\<close>

partial_function (option) buffer_ReadFrom :: "'r Read \<Rightarrow> 'r \<Rightarrow> bytes \<Rightarrow> (bytes \<times> go_error option) option" where
  "buffer_ReadFrom Read r buf = do {
     (r, q, n, err) \<leftarrow> Read r (replicate 512 0);
     let buf = buf @ take n q;
     if err = Some EOF then Some (buf, None)
     else if err \<noteq> None then Some (buf, err)
     else buffer_ReadFrom Read r buf
   }"

definition LoadFromReader :: "pb_Metadata proto_ops \<Rightarrow> 'r Read \<Rightarrow> 'r \<Rightarrow> (pb_Metadata option \<times> go_error option) option" where
  "LoadFromReader P Read r = do {
     (buf, err) \<leftarrow> buffer_ReadFrom Read r [];
     if err \<noteq> None then Some (None, err)
     else case proto_Unmarshal P buf of Inl err \<Rightarrow> Some (None, Some err) | Inr m \<Rightarrow> Some (Some m, None)
   }"

definition StoreToWriter :: "pb_Metadata proto_ops \<Rightarrow> ('w \<Rightarrow> bytes \<Rightarrow> ('w \<times> nat \<times> go_error option) option) \<Rightarrow> 'w \<Rightarrow> pb_Metadata \<Rightarrow>
    ('w \<times> go_error option) option" where
  "StoreToWriter P Wr w m =
     (case proto_Marshal P m of
        Inl err \<Rightarrow> Some (w, Some err)
      | Inr buf \<Rightarrow> do { (w, _, err) \<leftarrow> Wr w buf; Some (w, err) })"

definition metadataBlobName :: string where "metadataBlobName = ''metadata.pb''"

text \<open>The store over a local directory.\<close>

definition BlobMetadataStore_Load :: "pb_Metadata proto_ops \<Rightarrow> os_faults \<Rightarrow> local_fs \<Rightarrow> (pb_Metadata option \<times> go_error option) option" where
  "BlobMetadataStore_Load P F fs =
     (case BlobStore_Open F fs metadataBlobName of
        (Some r, None) \<Rightarrow> LoadFromReader P SectionReader_Read (NewSectionReader (fr_ReadAt r) 0 (fileReader_Size r))
      | (_, err) \<Rightarrow> Some (None, err))"

definition BlobMetadataStore_Store :: "pb_Metadata proto_ops \<Rightarrow> os_faults \<Rightarrow> nat \<Rightarrow> (directory \<Rightarrow> string) \<Rightarrow> local_fs \<Rightarrow> pb_Metadata \<Rightarrow>
    (local_fs \<times> go_error option) option" where
  "BlobMetadataStore_Store P F part fresh fs m =
     (case BlobStore_Create F fresh fs metadataBlobName of
        (fs, Some w, None) \<Rightarrow> do {
          (fs, err) \<leftarrow> StoreToWriter P (\<lambda>fs p. blobWriter_Write F part fs w p) fs m;
          if err \<noteq> None then Some (fs, err)
          else do { (fs, _, err) \<leftarrow> blobWriter_Close F fs w; Some (fs, err) }
        }
      | (fs, _, err) \<Rightarrow> Some (fs, err))"

section \<open>Loading what was stored\<close>

context reliable_reader
begin

lemma buffer_ReadFrom_ok: "valid r \<Longrightarrow> buffer_ReadFrom Read r buf = Some (buf @ rest r, None)"
proof (induction "length (rest r)" arbitrary: r buf rule: less_induct)
  case less
  have "replicate 512 (0 :: byte) \<noteq> []" by simp
  from Read_ok [OF less.prems this] obtain r' q n e where
    r: "Read r (replicate 512 0) = Some (r', q, n, e)" "valid r'" "length q = 512" "n \<le> 512" "rest r = take n q @ rest r'" "e = Some EOF \<longrightarrow> rest r' = []"
    by auto
  have l: "(e = None \<or> e = Some EOF) \<and> (n = 0 \<longrightarrow> e = Some EOF)" by (rule Read_live [OF less.prems _ r(1)]) simp
  show ?case
  proof (cases "e = None")
    case True
    with l have "length (rest r') < length (rest r)" using r(3-5) by simp
    from less.hyps [OF this r(2)] r(1,5) True show ?thesis by (subst buffer_ReadFrom.simps) simp
  next
    case False
    with l r show ?thesis by (subst buffer_ReadFrom.simps) auto
  qed
qed

end

lemma LoadFromReader_file:
  "length c \<le> max_off \<Longrightarrow> LoadFromReader P SectionReader_Read (NewSectionReader (file_ReadAt c) 0 (int (length c))) =
     Some (case proto_Unmarshal P c of Inl err \<Rightarrow> (None, Some err) | Inr m \<Rightarrow> (Some m, None))"
proof -
  assume "length c \<le> max_off"
  let ?s = "NewSectionReader (file_ReadAt c) 0 (int (length c))"
  from \<open>length c \<le> max_off\<close> have "part_valid (file_ReadAt c) c ?s" "part_rest c ?s = c"
    by (simp_all add: part_valid_def part_rest_def NewSectionReader_def)
  with os_file.part.buffer_ReadFrom_ok [of c ?s "[]"] show ?thesis
    by (simp add: LoadFromReader_def split: sum.split)
qed

text \<open>What a directory loads as, when no call fails.\<close>

definition load_dir :: "pb_Metadata proto_ops \<Rightarrow> directory \<Rightarrow> (pb_Metadata option \<times> go_error option) option" where
  "load_dir P d = BlobMetadataStore_Load P (\<lambda>_. None) \<lparr>fs_files = d, fs_history = []\<rparr>"

lemma load_dir_cong: "map_option fst (d metadataBlobName) = map_option fst (d' metadataBlobName) \<Longrightarrow> load_dir P d = load_dir P d'"
  by (auto simp: load_dir_def BlobMetadataStore_Load_def BlobStore_Open_def openFileReader_def split: option.splits)

lemma load_dir_eq:
  "d metadataBlobName = Some (c, s) \<Longrightarrow> length c \<le> max_off \<Longrightarrow> proto_Unmarshal P c = Inr m \<Longrightarrow> load_dir P d = Some (Some m, None)"
  by (simp add: load_dir_def BlobMetadataStore_Load_def BlobStore_Open_def openFileReader_def fileReader_Size_def LoadFromReader_file)

lemma temp_name: "tempBlobPrefix @ x \<noteq> metadataBlobName"
  by (simp add: tempBlobPrefix_def metadataBlobName_def)

lemma os_Write_other:
  "name \<noteq> f \<Longrightarrow> fs_files fs name \<in> A \<Longrightarrow> os_Write F part fs f p = (fs', n, e) \<Longrightarrow>
    only_files fs fs' name A \<and> fs_files fs' name = fs_files fs name"
  by (auto simp: os_Write_def Let_def intro!: only_files_set only_files_refl split: option.splits)

text \<open>Every directory \<open>Store\<close> goes through has the old file or the new one, whatever fails.\<close>

lemma Store_files:
  assumes P: "proto_Marshal P m = Inr b" and A: "A = {fs_files fs metadataBlobName, Some (b, True)}"
  shows "\<exists>fs' e. BlobMetadataStore_Store P F part fresh fs m = Some (fs', e) \<and> only_files fs fs' metadataBlobName A \<and>
    (e = None \<longrightarrow> fs_files fs' metadataBlobName = Some (b, True))"
proof -
  let ?old = "fs_files fs metadataBlobName"
  define f where "f = tempBlobPrefix @ fresh (fs_files fs)"
  define fs1 where "fs1 = fs_set fs ((fs_files fs)(f \<mapsto> ([], False)))"
  let ?w = "\<lparr>bw_temp = Some f, bw_path = metadataBlobName\<rparr>"
  have f: "metadataBlobName \<noteq> f" using temp_name unfolding f_def by metis
  have o1: "only_files fs fs1 metadataBlobName A" "fs_files fs1 metadataBlobName = ?old" "fs_files fs1 f = Some ([], False)"
    using f A by (simp_all add: fs1_def only_files_set)
  obtain fs2 n e2 where w: "os_Write F part fs1 f b = (fs2, n, e2)" by (metis prod_cases3)
  have o2: "only_files fs fs2 metadataBlobName A" "fs_files fs2 metadataBlobName = ?old"
    using os_Write_other [OF f _ w, of A] o1 A only_files_trans by auto
  show ?thesis
  proof (cases "F CallCreateTemp = None \<and> e2 = None")
    case True
    have c: "fs_files fs2 f = Some (b, False)" using w o1(3) True by (auto simp: os_Write_def Let_def)
    obtain fs3 w' e where cl: "blobWriter_Close F fs2 ?w = Some (fs3, w', e)" "only_files fs2 fs3 metadataBlobName A"
      "e = None \<longrightarrow> fs_files fs3 metadataBlobName = Some (b, True)"
      using blob_Close_ok [of ?w f fs2 b False A F] c o2(2) f A by auto
    have "BlobMetadataStore_Store P F part fresh fs m = Some (fs3, e)"
      using True w cl(1) P
      by (simp add: BlobMetadataStore_Store_def BlobStore_Create_def makeTempFile_def Let_def StoreToWriter_def blobWriter_Write_def
          flip: f_def fs1_def)
    with cl(2,3) only_files_trans [OF o2(1)] show ?thesis by blast
  next
    case False
    have "BlobMetadataStore_Store P F part fresh fs m =
        (if F CallCreateTemp \<noteq> None then Some (fs, F CallCreateTemp) else Some (fs2, e2))"
      using False w P
      by (auto simp: BlobMetadataStore_Store_def BlobStore_Create_def makeTempFile_def Let_def StoreToWriter_def blobWriter_Write_def
          simp flip: f_def fs1_def)
    with False o2(1) only_files_refl [of fs metadataBlobName A] A show ?thesis by auto
  qed
qed

lemma crash_file: "crash_image d d' \<Longrightarrow> d name \<in> {x, Some (b, True)} \<Longrightarrow> (\<forall>c s. x = Some (c, s) \<longrightarrow> s) \<Longrightarrow> d' name = d name"
proof -
  assume c: "crash_image d d'" and "d name \<in> {x, Some (b, True)}" "\<forall>c s. x = Some (c, s) \<longrightarrow> s"
  then have "d name = None \<or> (\<exists>b. d name = Some (b, True))" by (cases x) auto
  moreover have "case d name of None \<Rightarrow> d' name = None | Some (c, synced) \<Rightarrow> synced \<longrightarrow> d' name = Some (c, True)"
    using c unfolding crash_image_def by (rule spec)
  ultimately show ?thesis by auto
qed

text \<open>C11. Storing the metadata is atomic. Whatever call of the operating system fails, and whenever the machine stops, at any
  of the directories \<open>Store\<close> goes through, what is on the disk then loads as it did before or as the metadata that was being
  stored: never as a torn or an empty file. When \<open>Store\<close> returns nil, the directory loads as the new metadata. (That the
  rename itself is on the disk by then is not promised: the code does not sync the directory.) The hypotheses: the codec reads back what it
  wrote, and the old file, when there is one, is on the disk.\<close>

theorem metadata_store_atomic:
  assumes P: "proto_message P encodable" "encodable m"
    and old: "\<forall>c s. fs_files fs metadataBlobName = Some (c, s) \<longrightarrow> s"
  shows "\<exists>fs' e new. BlobMetadataStore_Store P F part fresh fs m = Some (fs', e) \<and> fs_history fs' = fs_history fs @ new \<and>
    (\<forall>d\<in>set new. \<forall>d'. crash_image d d' \<longrightarrow> load_dir P d' = load_dir P (fs_files fs) \<or> load_dir P d' = Some (Some m, None)) \<and>
    (e = None \<longrightarrow> load_dir P (fs_files fs') = Some (Some m, None))"
proof -
  obtain b where b: "proto_Marshal P m = Inr b" "length b < 2 ^ 31" "proto_Unmarshal P b = Inr m"
    using proto_message.marshal_roundtrip [OF P] by blast
  have new: "load_dir P d = Some (Some m, None)" if "d metadataBlobName = Some (b, True)" for d
    using load_dir_eq [of d b True P m] that b by simp
  obtain fs' e where st: "BlobMetadataStore_Store P F part fresh fs m = Some (fs', e)"
    "only_files fs fs' metadataBlobName {fs_files fs metadataBlobName, Some (b, True)}"
    "e = None \<longrightarrow> fs_files fs' metadataBlobName = Some (b, True)"
    using Store_files [OF b(1) refl] by blast
  from st(2) obtain new where n: "fs_history fs' = fs_history fs @ new"
    "\<forall>d\<in>set new. d metadataBlobName \<in> {fs_files fs metadataBlobName, Some (b, True)}" unfolding only_files_def by blast
  have "load_dir P d' = load_dir P (fs_files fs) \<or> load_dir P d' = Some (Some m, None)" if "d \<in> set new" "crash_image d d'" for d d'
  proof -
    have d: "d metadataBlobName \<in> {fs_files fs metadataBlobName, Some (b, True)}" using n(2) that(1) by blast
    from crash_file [OF that(2) this old] d show ?thesis using new load_dir_cong [of d' "fs_files fs" P] by auto
  qed
  with st(1,3) n(1) new show ?thesis by blast
qed

definition sample_meta :: pb_Metadata where
  "sample_meta = \<lparr>md_BlockSize = 4096, md_NumBlocks = 16, md_DataFiles = [new_DataFile pb_WRITE_LOG ''a'']\<rparr>"

text \<open>A codec for metadata whose files are one write log with a name of one letter.\<close>

definition metadata_codec :: "pb_Metadata proto_ops" where
  "metadata_codec = \<lparr>
     proto_Marshal = \<lambda>m. case md_DataFiles m of
         [f] \<Rightarrow> Inr (le_bytes 4 (md_BlockSize m) @ le_bytes 8 (md_NumBlocks m) @ map (\<lambda>c. of_nat (of_char c)) (df_Name f))
       | _ \<Rightarrow> Inl (Err ''too many files''),
     proto_Unmarshal = \<lambda>b. Inr \<lparr>md_BlockSize = le_nat (take 4 b), md_NumBlocks = le_nat (take 8 (drop 4 b)),
       md_DataFiles = [new_DataFile pb_WRITE_LOG (map (\<lambda>w. char_of (unat w)) (drop 12 b))]\<rparr>\<rparr>"

definition metadata_wf :: "pb_Metadata \<Rightarrow> bool" where
  "metadata_wf m \<longleftrightarrow> md_BlockSize m < 2 ^ 32 \<and> md_NumBlocks m < 2 ^ 64 \<and> (\<exists>c. md_DataFiles m = [new_DataFile pb_WRITE_LOG [c]])"

lemma char_byte: "char_of (unat (of_nat (of_char c) :: byte)) = c"
proof -
  have "(of_char c :: nat) < 256" by simp
  then show ?thesis by (simp add: unat_of_nat)
qed

interpretation metadata_codec: proto_message metadata_codec metadata_wf
  by unfold_locales (auto simp: metadata_codec_def metadata_wf_def le_nat_le_bytes char_byte new_DataFile_def)

theorem metadata_store_atomic_witness:
  "\<exists>fs' e new. BlobMetadataStore_Store metadata_codec (\<lambda>_. None) 0 (\<lambda>_. ''1'') \<lparr>fs_files = (\<lambda>_. None), fs_history = []\<rparr> sample_meta = Some (fs', e) \<and>
    fs_history fs' = new \<and>
    (\<forall>d\<in>set new. \<forall>d'. crash_image d d' \<longrightarrow>
      load_dir metadata_codec d' = load_dir metadata_codec (\<lambda>_. None) \<or> load_dir metadata_codec d' = Some (Some sample_meta, None)) \<and>
    (e = None \<longrightarrow> load_dir metadata_codec (fs_files fs') = Some (Some sample_meta, None))"
proof -
  have "metadata_wf sample_meta" by (auto simp: metadata_wf_def sample_meta_def)
  from metadata_store_atomic [OF metadata_codec.proto_message_axioms this, of "\<lparr>fs_files = (\<lambda>_. None), fs_history = []\<rparr>"
      "\<lambda>_. None" 0 "\<lambda>_. ''1''"]
  show ?thesis by auto
qed

section \<open>The types of the files\<close>

datatype meta_op = MPushWriteLog string | MRemoveWriteLog string | MCompactWriteLog string string | MPushSparseDataFile string
  | MRemoveSparseDataFile string | MPrependReaderFiles "string list"

fun meta_step :: "'x Metadata \<Rightarrow> meta_op \<Rightarrow> 'x Metadata" where
  "meta_step m (MPushWriteLog name) = PushWriteLog m name"
| "meta_step m (MRemoveWriteLog name) = RemoveWriteLog m name"
| "meta_step m (MCompactWriteLog l f) = CompactWriteLog m l f"
| "meta_step m (MPushSparseDataFile name) = PushSparseDataFile m name"
| "meta_step m (MRemoveSparseDataFile name) = RemoveSparseDataFile m name"
| "meta_step m (MPrependReaderFiles fs) = PrependReaderFiles m fs"

definition typed :: "pb_DataFile list \<Rightarrow> bool" where
  "typed dfs \<longleftrightarrow> (\<forall>df\<in>set dfs. mDataFile_Type df \<noteq> None)"

lemma set_files_simps [simp]: "md_DataFiles (m_meta (set_files m dfs)) = dfs"
  "md_BlockSize (m_meta (set_files m dfs)) = md_BlockSize (m_meta m)" "md_NumBlocks (m_meta (set_files m dfs)) = md_NumBlocks (m_meta m)"
  by (simp_all add: set_files_def)

lemma typed_simps: "typed []" "typed (df # dfs) \<longleftrightarrow> mDataFile_Type df \<noteq> None \<and> typed dfs" "typed (xs @ ys) \<longleftrightarrow> typed xs \<and> typed ys"
  "mDataFile_Type (new_DataFile pb_WRITE_LOG name) = Some DataFile_WRITE_LOG" "mDataFile_Type (new_DataFile pb_SPARSE_TABLE name) = Some DataFile_SPARSE_TABLE"
  by (auto simp: typed_def mDataFile_Type_def new_DataFile_def pb_WRITE_LOG_def pb_SPARSE_TABLE_def)

lemma typed_delete: "typed dfs \<Longrightarrow> typed (delete_file ty name dfs)"
  by (induction dfs) (simp_all add: typed_simps)

lemma typed_replace: "typed dfs \<Longrightarrow> typed (replace_log l f dfs)"
  by (induction dfs) (auto simp: typed_simps mDataFile_Type_def)

lemma typed_prepend: "typed (map (new_DataFile pb_SPARSE_TABLE) fs)" "typed dfs \<Longrightarrow> typed (filter p dfs)"
  by (auto simp: typed_def typed_simps)

lemma typed_step: "typed (ListDataFiles m) \<Longrightarrow> typed (ListDataFiles (meta_step m op))"
  by (cases op) (auto simp: ListDataFiles_def PushWriteLog_def RemoveWriteLog_def CompactWriteLog_def PushSparseDataFile_def
      RemoveSparseDataFile_def PrependReaderFiles_def typed_simps typed_prepend intro: typed_delete typed_replace)

lemma typed_steps: "typed (ListDataFiles m) \<Longrightarrow> typed (ListDataFiles (foldl meta_step m ops))"
  by (induction ops arbitrary: m) (simp_all add: typed_step)

text \<open>C38. The metadata of a new device only ever lists write logs and sparse tables, after any sequence of its operations: \<open>Type\<close>,
  which panics on any other type, does not on the files of \<open>ListDataFiles\<close>. The geometry of the device does not change either.\<close>

theorem metadata_typed:
  "(\<forall>df\<in>set (ListDataFiles (foldl meta_step (NewMetadata_BlockStore store blockSize numBlocks) ops)). mDataFile_Type df \<noteq> None) \<and>
   Metadata_BlockSize (foldl meta_step (NewMetadata_BlockStore store blockSize numBlocks) ops) = int (uint32 blockSize) \<and>
   Metadata_NumBlocks (foldl meta_step (NewMetadata_BlockStore store blockSize numBlocks) ops) = numBlocks"
proof -
  have "typed (ListDataFiles (NewMetadata_BlockStore store blockSize numBlocks))"
    by (simp add: typed_def ListDataFiles_def NewMetadata_BlockStore_def)
  from typed_steps [OF this] have "typed (ListDataFiles (foldl meta_step (NewMetadata_BlockStore store blockSize numBlocks) ops))" .
  moreover have "md_BlockSize (m_meta (foldl meta_step m ops)) = md_BlockSize (m_meta m) \<and> md_NumBlocks (m_meta (foldl meta_step m ops)) = md_NumBlocks (m_meta m)"
    for m :: "'a Metadata"
  proof (induction ops arbitrary: m)
    case (Cons op ops)
    then show ?case by (cases op) (simp_all add: PushWriteLog_def RemoveWriteLog_def CompactWriteLog_def PushSparseDataFile_def
      RemoveSparseDataFile_def PrependReaderFiles_def)
  qed simp
  ultimately show ?thesis
    by (simp add: typed_def Metadata_BlockSize_def Metadata_NumBlocks_def NewMetadata_BlockStore_def)
qed

text \<open>\<open>\<forall>x\<in>S\<close> ranges over a nonempty list here.\<close>

theorem metadata_typed_witness:
  "mDataFile_Type (new_DataFile pb_SPARSE_TABLE ''s'') \<noteq> None"
proof -
  let ?m = "NewMetadata_BlockStore () 4096 16" and ?ops = "[MPushWriteLog ''l'', MCompactWriteLog ''l'' ''s'']"
  have "ListDataFiles (foldl meta_step ?m ?ops) = [new_DataFile pb_SPARSE_TABLE ''s'']"
    by (simp add: ListDataFiles_def NewMetadata_BlockStore_def PushWriteLog_def CompactWriteLog_def new_DataFile_def)
  with metadata_typed [of "()" 4096 16 ?ops] show ?thesis by simp
qed

end
