(* ===== verification/Spec2Isabelle.thy ===== *)
theory Spec2Isabelle
  imports Write_Log Data_File Util_Sync App_Parse Metadata_Store
begin

text \<open>
  A verification development of logblock2.
\<close>

end
